(* ===== verification/Omg_Prelude.thy ===== *)
theory Omg_Prelude
  imports
    Main
    "HOL-Library.Word"
    "HOL-Library.Char_ord"
    "HOL-Library.List_Lexorder"
    "HOL-Library.Product_Lexorder"
    "HOL-Library.Sublist"
begin

text \<open>
  Shared ground of the development: Rust results and early returns, the three-way comparison of
  Rust's \<^verbatim>\<open>std::cmp::Ordering\<close>, the operations of \<^verbatim>\<open>str\<close> and \<^verbatim>\<open>char\<close> the program calls, and
  the parsing of unsigned integers.

  A Rust \<^verbatim>\<open>char\<close> is modelled by Isabelle's \<^typ>\<open>char\<close>: one code point each, restricted to
  U+0000 to U+00FF. A \<^verbatim>\<open>str\<close> is a \<^typ>\<open>string\<close>, a list of code points; its length in bytes is
  \<open>str_len\<close> below (a code point from U+0080 on takes two bytes of UTF-8) and its bytes are
  \<open>as_bytes\<close>. The order of strings is the lexicographic one of \<^verbatim>\<open>HOL-Library.List_Lexorder\<close>, which
  is Rust's.
\<close>

section \<open>Collections of facts\<close>

named_theorems result_simps \<open>rewriting of early returns\<close>
named_theorems str_simps \<open>rewriting of string operations\<close>
named_theorems cmp_laws \<open>comparators closed under the ways the program combines them\<close>

section \<open>Results and early returns\<close>

text \<open>\<^verbatim>\<open>Result<T, E>\<close>: \<open>Inl\<close> is \<^verbatim>\<open>Err\<close>, \<open>Inr\<close> is \<^verbatim>\<open>Ok\<close>.\<close>

type_synonym ('e, 'a) result = "'e + 'a"

text \<open>The \<^verbatim>\<open>?\<close> operator.\<close>

definition rbind :: "('e, 'a) result \<Rightarrow> ('a \<Rightarrow> ('e, 'b) result) \<Rightarrow> ('e, 'b) result" where
  "rbind m f = (case m of Inl e \<Rightarrow> Inl e | Inr a \<Rightarrow> f a)"

text \<open>\<^verbatim>\<open>anyhow::ensure!\<close> and the early returns of the form \<^verbatim>\<open>if !c { return Err(e) }\<close>.\<close>

definition ensure :: "bool \<Rightarrow> 'e \<Rightarrow> ('e, unit) result" where
  "ensure c e = (if c then Inr () else Inl e)"

text \<open>\<^verbatim>\<open>iter.map(f).collect::<Result<Vec<_>>>()\<close>: the first error wins.\<close>

fun map_result :: "('a \<Rightarrow> ('e, 'b) result) \<Rightarrow> 'a list \<Rightarrow> ('e, 'b list) result" where
  "map_result f [] = Inr []"
| "map_result f (x # xs) = rbind (f x) (\<lambda>y. rbind (map_result f xs) (\<lambda>ys. Inr (y # ys)))"

text \<open>\<^verbatim>\<open>for x in xs { f(x)?; }\<close>\<close>

fun for_result :: "('a \<Rightarrow> ('e, unit) result) \<Rightarrow> 'a list \<Rightarrow> ('e, unit) result" where
  "for_result f [] = Inr ()"
| "for_result f (x # xs) = rbind (f x) (\<lambda>_. for_result f xs)"

definition is_ok :: "('e, 'a) result \<Rightarrow> bool" where
  "is_ok r = (case r of Inl _ \<Rightarrow> False | Inr _ \<Rightarrow> True)"

lemma rbind_simps [simp, result_simps]:
  "rbind (Inl e) f = Inl e"
  "rbind (Inr a) f = f a"
  by (simp_all add: rbind_def)

lemma rbind_eq_Inr [simp, result_simps]:
  "rbind m f = Inr b \<longleftrightarrow> (\<exists>a. m = Inr a \<and> f a = Inr b)"
  by (cases m) auto

lemma rbind_eq_Inl [result_simps]:
  "rbind m f = Inl e \<longleftrightarrow> m = Inl e \<or> (\<exists>a. m = Inr a \<and> f a = Inl e)"
  by (cases m) auto

lemma rbind_cong [fundef_cong]:
  "m = m' \<Longrightarrow> (\<And>a. m' = Inr a \<Longrightarrow> f a = g a) \<Longrightarrow> rbind m f = rbind m' g"
  by (cases m') auto

lemma ensure_simps [simp, result_simps]:
  "ensure True e = Inr ()"
  "ensure False e = Inl e"
  "ensure c e = Inr u \<longleftrightarrow> c"
  "ensure c e = Inl e' \<longleftrightarrow> \<not> c \<and> e' = e"
  by (auto simp: ensure_def)

lemma is_ok_simps [simp, result_simps]:
  "is_ok (Inr a)"
  "\<not> is_ok (Inl e)"
  by (simp_all add: is_ok_def)

lemma is_ok_iff: "is_ok r \<longleftrightarrow> (\<exists>a. r = Inr a)"
  by (cases r) auto

lemma map_result_Inr:
  "map_result f xs = Inr ys \<longleftrightarrow> list_all2 (\<lambda>x y. f x = Inr y) xs ys"
  by (induction xs arbitrary: ys) (auto simp: list_all2_Cons1)

lemma for_result_Inr [result_simps]:
  "for_result f xs = Inr u \<longleftrightarrow> (\<forall>x \<in> set xs. f x = Inr ())"
  by (induction xs) auto

lemma for_result_Inl:
  "for_result f xs = Inl e \<Longrightarrow> \<exists>x \<in> set xs. f x = Inl e"
  by (induction xs) (auto simp: rbind_eq_Inl)

lemma for_result_cong [fundef_cong]:
  "xs = ys \<Longrightarrow> (\<And>x. x \<in> set ys \<Longrightarrow> f x = g x) \<Longrightarrow> for_result f xs = for_result g ys"
proof (induction ys arbitrary: xs)
  case (Cons y ys)
  then show ?case by (cases "g y") auto
qed simp

section \<open>Three-way comparison\<close>

datatype ordering = Less | Equal | Greater

definition cmp :: "'a::linorder \<Rightarrow> 'a \<Rightarrow> ordering" where
  "cmp x y = (if x < y then Less else if x = y then Equal else Greater)"

text \<open>\<^verbatim>\<open>Ordering::then_with\<close>, and \<^verbatim>\<open>match o { Equal => {} , other => return other }\<close>.\<close>

definition then_with :: "ordering \<Rightarrow> ordering \<Rightarrow> ordering" where
  "then_with a b = (case a of Equal \<Rightarrow> b | _ \<Rightarrow> a)"

fun reverse_ordering :: "ordering \<Rightarrow> ordering" where
  "reverse_ordering Less = Greater"
| "reverse_ordering Equal = Equal"
| "reverse_ordering Greater = Less"

lemma cmp_simps [simp]:
  "cmp x y = Less \<longleftrightarrow> x < y"
  "cmp x y = Equal \<longleftrightarrow> x = y"
  "cmp x y = Greater \<longleftrightarrow> y < x"
  "Less = cmp x y \<longleftrightarrow> x < y"
  "Equal = cmp x y \<longleftrightarrow> x = y"
  "Greater = cmp x y \<longleftrightarrow> y < x"
  by (auto simp: cmp_def)

lemma cmp_evals [simp]:
  "cmp x x = Equal"
  "x < y \<Longrightarrow> cmp x y = Less"
  "y < x \<Longrightarrow> cmp x y = Greater"
  by simp_all

lemma then_with_simps [simp]:
  "then_with Equal b = b"
  "then_with Less b = Less"
  "then_with Greater b = Greater"
  "then_with a Equal = a"
  by (simp_all add: then_with_def split: ordering.split)

lemma case_ordering_then [simp]:
  "(case a of Less \<Rightarrow> Less | Equal \<Rightarrow> b | Greater \<Rightarrow> Greater) = then_with a b"
  by (cases a) simp_all

lemma then_with_eq:
  "then_with a b = Equal \<longleftrightarrow> a = Equal \<and> b = Equal"
  "then_with a b = Less \<longleftrightarrow> a = Less \<or> (a = Equal \<and> b = Less)"
  "then_with a b = Greater \<longleftrightarrow> a = Greater \<or> (a = Equal \<and> b = Greater)"
  by (cases a; simp)+

lemma then_with_assoc: "then_with (then_with a b) c = then_with a (then_with b c)"
  by (cases a) simp_all

lemma reverse_then_with:
  "reverse_ordering (then_with a b) = then_with (reverse_ordering a) (reverse_ordering b)"
  by (cases a) auto

lemma reverse_ordering_eq [simp]:
  "reverse_ordering a = Less \<longleftrightarrow> a = Greater"
  "reverse_ordering a = Equal \<longleftrightarrow> a = Equal"
  "reverse_ordering a = Greater \<longleftrightarrow> a = Less"
  by (cases a; simp)+

text \<open>
  The contract of Rust's \<^verbatim>\<open>Ord\<close> up to the equality the comparison itself defines: a comparator
  is a total preorder. Clients of a comparison (constraints, sorting, candidate selection) rest
  on these three laws only.
\<close>

locale comparator =
  fixes c :: "'a \<Rightarrow> 'a \<Rightarrow> ordering"
  assumes refl_law: "c x x = Equal"
    and swap_law: "c y x = reverse_ordering (c x y)"
    and trans_law: "c x y \<noteq> Greater \<Longrightarrow> c y z \<noteq> Greater \<Longrightarrow> c x z \<noteq> Greater"
begin

lemma equal_sym: "c x y = Equal \<longleftrightarrow> c y x = Equal"
  using swap_law [of y x] by (cases "c x y") auto

lemma less_greater: "c x y = Less \<longleftrightarrow> c y x = Greater"
  using swap_law [of y x] by (cases "c x y") auto

lemma equal_trans: "c x y = Equal \<Longrightarrow> c y z = Equal \<Longrightarrow> c x z = Equal"
proof -
  assume xy: "c x y = Equal" and yz: "c y z = Equal"
  then have zy: "c z y = Equal" and yx: "c y x = Equal"
    using equal_sym by blast+
  have "c x z \<noteq> Greater"
    by (rule trans_law [of x y z]) (simp_all add: xy yz)
  moreover have "c z x \<noteq> Greater"
    by (rule trans_law [of z y x]) (simp_all add: zy yx)
  ultimately show ?thesis
    using less_greater [of x z] by (cases "c x z") auto
qed

lemma equal_left: "c x y = Equal \<Longrightarrow> c x z = c y z"
proof -
  assume xy: "c x y = Equal"
  then have yx: "c y x = Equal" by (simp add: equal_sym [of y x])
  have le: "c x z \<noteq> Greater \<longleftrightarrow> c y z \<noteq> Greater"
    using trans_law [of x y z] trans_law [of y x z] xy yx by auto
  have eq: "c x z = Equal \<longleftrightarrow> c y z = Equal"
    using equal_trans [of y x z] equal_trans [of x y z] xy yx by blast
  show ?thesis
    using le eq by (cases "c x z"; cases "c y z") auto
qed

lemma equal_right: "c x y = Equal \<Longrightarrow> c z x = c z y"
  using equal_left [of x y z] swap_law [of z x] swap_law [of z y] by simp

lemma less_trans: "c x y = Less \<Longrightarrow> c y z \<noteq> Greater \<Longrightarrow> c x z = Less"
proof -
  assume xy: "c x y = Less" and yz: "c y z \<noteq> Greater"
  have ng: "c x z \<noteq> Greater"
    by (rule trans_law [of x y z]) (simp_all add: xy yz)
  have "c x z \<noteq> Equal"
  proof
    assume "c x z = Equal"
    then have "c z y = Less" using equal_left [of x z y] xy by simp
    then show False using yz by (simp add: less_greater)
  qed
  with ng show ?thesis by (cases "c x z") auto
qed

lemma le_less_trans: "c x y \<noteq> Greater \<Longrightarrow> c y z = Less \<Longrightarrow> c x z = Less"
proof -
  assume xy: "c x y \<noteq> Greater" and yz: "c y z = Less"
  show ?thesis
  proof (cases "c x y")
    case Less
    with yz show ?thesis using less_trans [of x y z] by simp
  next
    case Equal
    with yz show ?thesis using equal_left [of x y z] by simp
  next
    case Greater
    with xy show ?thesis by simp
  qed
qed

end

lemma comparator_cmp [cmp_laws]: "comparator (cmp :: 'a::linorder \<Rightarrow> 'a \<Rightarrow> ordering)"
  by unfold_locales (auto simp: cmp_def split: if_splits)

lemma comparator_image [cmp_laws]:
  assumes "comparator c" shows "comparator (\<lambda>x y. c (f x) (f y))"
  by unfold_locales
    (rule comparator.refl_law [OF assms] comparator.swap_law [OF assms]
      comparator.trans_law [OF assms]; assumption)+

lemma comparator_then [cmp_laws]:
  assumes a: "comparator a" and b: "comparator b"
  shows "comparator (\<lambda>x y. then_with (a x y) (b x y))"
proof
  fix x y z
  show "then_with (a x x) (b x x) = Equal"
    by (simp add: comparator.refl_law [OF a] comparator.refl_law [OF b])
  show "then_with (a y x) (b y x) = reverse_ordering (then_with (a x y) (b x y))"
    using comparator.swap_law [OF a, of y x] comparator.swap_law [OF b, of y x]
    by (simp add: reverse_then_with)
  assume xy: "then_with (a x y) (b x y) \<noteq> Greater" and yz: "then_with (a y z) (b y z) \<noteq> Greater"
  show "then_with (a x z) (b x z) \<noteq> Greater"
  proof (cases "a x y = Equal \<and> a y z = Equal")
    case True
    then have "a x z = Equal"
      using comparator.equal_trans [OF a] by blast
    moreover have "b x z \<noteq> Greater"
      by (rule comparator.trans_law [OF b, of x y z]) (use True xy yz in simp_all)
    ultimately show ?thesis by simp
  next
    case False
    have "a x y \<noteq> Greater" "a y z \<noteq> Greater"
      using xy yz by (auto simp: then_with_eq)
    with False have "a x z = Less"
      using comparator.less_trans [OF a, of x y z] comparator.le_less_trans [OF a, of x y z]
      by (cases "a x y"; cases "a y z") auto
    then show ?thesis by simp
  qed
qed

interpretation cmp_string: comparator "cmp :: string \<Rightarrow> string \<Rightarrow> ordering"
  by (rule comparator_cmp)

text \<open>
  Lexicographic comparison of two lists where the shorter one counts as continued by the default
  \<open>d\<close> for ever: the shape of the loops that run until both of their inputs are used up.
\<close>

fun padded :: "('a \<Rightarrow> 'a \<Rightarrow> ordering) \<Rightarrow> 'a \<Rightarrow> 'a list \<Rightarrow> 'a list \<Rightarrow> ordering" where
  "padded c d [] [] = Equal"
| "padded c d (x # xs) [] = then_with (c x d) (padded c d xs [])"
| "padded c d [] (y # ys) = then_with (c d y) (padded c d [] ys)"
| "padded c d (x # xs) (y # ys) = then_with (c x y) (padded c d xs ys)"

definition hd_or :: "'a \<Rightarrow> 'a list \<Rightarrow> 'a" where
  "hd_or d xs = (case xs of [] \<Rightarrow> d | x # _ \<Rightarrow> x)"

lemma hd_or_simps [simp]: "hd_or d [] = d" "hd_or d (x # xs) = x"
  by (simp_all add: hd_or_def)

lemma padded_step:
  assumes "comparator c"
  shows "padded c d xs ys = then_with (c (hd_or d xs) (hd_or d ys)) (padded c d (tl xs) (tl ys))"
  by (cases xs; cases ys) (simp_all add: comparator.refl_law [OF assms])

lemma padded_refl: "comparator c \<Longrightarrow> padded c d xs xs = Equal"
  by (induction xs) (simp_all add: comparator.refl_law)

lemma padded_swap:
  assumes "comparator c" shows "padded c d ys xs = reverse_ordering (padded c d xs ys)"
proof -
  show ?thesis
    using assms
  proof (induction c d xs ys rule: padded.induct)
    case (2 c d x xs)
    then show ?case using comparator.swap_law [OF 2(2), of d x] by (simp add: reverse_then_with)
  next
    case (3 c d y ys)
    then show ?case using comparator.swap_law [OF 3(2), of y d] by (simp add: reverse_then_with)
  next
    case (4 c d x xs y ys)
    then show ?case using comparator.swap_law [OF 4(2), of y x] by (simp add: reverse_then_with)
  qed simp
qed

lemma padded_trans:
  assumes c: "comparator c"
  shows "padded c d xs ys \<noteq> Greater \<Longrightarrow> padded c d ys zs \<noteq> Greater \<Longrightarrow> padded c d xs zs \<noteq> Greater"
proof (induction "length xs + length ys + length zs" arbitrary: xs ys zs rule: less_induct)
  case less
  note step = padded_step [OF c, where d = d]
  show ?case
  proof (cases "xs = [] \<and> ys = [] \<and> zs = []")
    case True
    then show ?thesis by simp
  next
    case False
    then have dec: "length (tl xs) + length (tl ys) + length (tl zs)
        < length xs + length ys + length zs"
      by (cases xs; cases ys; cases zs) auto
    let ?x = "hd_or d xs" and ?y = "hd_or d ys" and ?z = "hd_or d zs"
    have xy: "then_with (c ?x ?y) (padded c d (tl xs) (tl ys)) \<noteq> Greater"
      using less.prems(1) step by metis
    have yz: "then_with (c ?y ?z) (padded c d (tl ys) (tl zs)) \<noteq> Greater"
      using less.prems(2) step by metis
    have "then_with (c ?x ?z) (padded c d (tl xs) (tl zs)) \<noteq> Greater"
    proof (cases "c ?x ?y = Equal \<and> c ?y ?z = Equal")
      case True
      then have "c ?x ?z = Equal"
        using comparator.equal_trans [OF c] by blast
      moreover have "padded c d (tl xs) (tl zs) \<noteq> Greater"
        by (rule less.hyps [OF dec]) (use True xy yz in simp_all)
      ultimately show ?thesis by simp
    next
      case False
      have "c ?x ?y \<noteq> Greater" "c ?y ?z \<noteq> Greater"
        using xy yz by (auto simp: then_with_eq)
      with False have "c ?x ?z = Less"
        using comparator.less_trans [OF c, of ?x ?y ?z] comparator.le_less_trans [OF c, of ?x ?y ?z]
        by (cases "c ?x ?y"; cases "c ?y ?z") auto
      then show ?thesis by simp
    qed
    then show ?thesis using step by metis
  qed
qed

lemma comparator_padded [cmp_laws]: "comparator c \<Longrightarrow> comparator (padded c d)"
  by unfold_locales (rule padded_refl padded_swap padded_trans; assumption)+


section \<open>Ordered sets\<close>

text \<open>A \<^verbatim>\<open>BTreeSet\<close> is a sorted list without repetition.\<close>

definition btree_insert :: "'a::linorder \<Rightarrow> 'a list \<Rightarrow> 'a list" where
  "btree_insert x xs = (if x \<in> set xs then xs else insort x xs)"

definition btree_set :: "'a::linorder list \<Rightarrow> 'a list" where
  "btree_set xs = fold btree_insert xs []"

lemma btree_insert_simps [simp]:
  "set (btree_insert x xs) = insert x (set xs)"
  "sorted xs \<Longrightarrow> sorted (btree_insert x xs)"
  "distinct xs \<Longrightarrow> distinct (btree_insert x xs)"
  by (auto simp: btree_insert_def set_insort_key sorted_insort distinct_insort)

end
