(* ===== verification/Rust_Str.thy ===== *)
theory Rust_Str
  imports Omg_Prelude
begin

text \<open>
  The operations of Rust's \<^verbatim>\<open>char\<close> and \<^verbatim>\<open>str\<close> that the modelled code calls, as executable
  functions on \<^typ>\<open>string\<close>, with the facts about them the components share.
\<close>

section \<open>Characters\<close>

definition code_of :: "char \<Rightarrow> nat" where
  "code_of c = of_char c"

definition is_ascii_digit :: "char \<Rightarrow> bool" where
  "is_ascii_digit c \<longleftrightarrow> 48 \<le> code_of c \<and> code_of c \<le> 57"

definition is_ascii_uppercase :: "char \<Rightarrow> bool" where
  "is_ascii_uppercase c \<longleftrightarrow> 65 \<le> code_of c \<and> code_of c \<le> 90"

definition is_ascii_lowercase :: "char \<Rightarrow> bool" where
  "is_ascii_lowercase c \<longleftrightarrow> 97 \<le> code_of c \<and> code_of c \<le> 122"

definition is_ascii_alphabetic :: "char \<Rightarrow> bool" where
  "is_ascii_alphabetic c \<longleftrightarrow> is_ascii_uppercase c \<or> is_ascii_lowercase c"

definition is_ascii_alphanumeric :: "char \<Rightarrow> bool" where
  "is_ascii_alphanumeric c \<longleftrightarrow> is_ascii_alphabetic c \<or> is_ascii_digit c"

text \<open>\<^verbatim>\<open>char::is_ascii_whitespace\<close>: space, tab, line feed, form feed, carriage return.\<close>

definition is_ascii_whitespace :: "char \<Rightarrow> bool" where
  "is_ascii_whitespace c \<longleftrightarrow> code_of c \<in> {9, 10, 12, 13, 32}"

text \<open>\<^verbatim>\<open>char::is_whitespace\<close>: the code points below U+0100 with the property White_Space.\<close>

definition is_whitespace :: "char \<Rightarrow> bool" where
  "is_whitespace c \<longleftrightarrow> code_of c \<in> {9, 10, 11, 12, 13, 32, 133, 160}"

text \<open>\<^verbatim>\<open>char::is_control\<close>: the general category Cc.\<close>

definition is_control :: "char \<Rightarrow> bool" where
  "is_control c \<longleftrightarrow> code_of c < 32 \<or> (127 \<le> code_of c \<and> code_of c < 160)"

definition lower_char :: "char \<Rightarrow> char" where
  "lower_char c = (if is_ascii_uppercase c then char_of (code_of c + 32) else c)"

lemmas char_class_defs =
  is_ascii_digit_def is_ascii_uppercase_def is_ascii_lowercase_def is_ascii_alphabetic_def
  is_ascii_alphanumeric_def is_ascii_whitespace_def is_whitespace_def is_control_def

lemma code_of_less [simp]: "code_of c < 256"
  by (simp add: code_of_def)

lemma code_of_inject [simp]: "code_of c = code_of d \<longleftrightarrow> c = d"
  by (simp add: code_of_def)

lemma char_eq_code: "c = d \<longleftrightarrow> code_of c = code_of d"
  by simp

lemma code_of_char_of [simp]: "n < 256 \<Longrightarrow> code_of (char_of n) = n"
  by (simp add: code_of_def)

section \<open>Case and bytes\<close>

definition to_ascii_lowercase :: "string \<Rightarrow> string" where
  "to_ascii_lowercase s = map lower_char s"

definition eq_ignore_ascii_case :: "string \<Rightarrow> string \<Rightarrow> bool" where
  "eq_ignore_ascii_case a b \<longleftrightarrow> to_ascii_lowercase a = to_ascii_lowercase b"

text \<open>UTF-8: one byte below U+0080, two bytes below U+0800.\<close>

definition utf8_char :: "char \<Rightarrow> nat list" where
  "utf8_char c =
     (if code_of c < 128 then [code_of c]
      else [192 + code_of c div 64, 128 + code_of c mod 64])"

definition as_bytes :: "string \<Rightarrow> nat list" where
  "as_bytes s = concat (map utf8_char s)"

definition str_len :: "string \<Rightarrow> nat" where
  "str_len s = length (as_bytes s)"

lemma lower_char_idem [simp]: "lower_char (lower_char c) = lower_char c"
  by (auto simp: lower_char_def is_ascii_uppercase_def)

lemma to_ascii_lowercase_idem [simp]:
  "to_ascii_lowercase (to_ascii_lowercase s) = to_ascii_lowercase s"
  by (simp add: to_ascii_lowercase_def comp_def)

lemma to_ascii_lowercase_append [simp]:
  "to_ascii_lowercase (a @ b) = to_ascii_lowercase a @ to_ascii_lowercase b"
  by (simp add: to_ascii_lowercase_def)

lemma length_to_ascii_lowercase [simp]: "length (to_ascii_lowercase s) = length s"
  by (simp add: to_ascii_lowercase_def)

lemma eq_ignore_ascii_case_refl [simp]: "eq_ignore_ascii_case a a"
  by (simp add: eq_ignore_ascii_case_def)

lemma eq_ignore_ascii_case_sym: "eq_ignore_ascii_case a b \<longleftrightarrow> eq_ignore_ascii_case b a"
  by (auto simp: eq_ignore_ascii_case_def)

lemma as_bytes_simps [simp, str_simps]:
  "as_bytes [] = []"
  "as_bytes (c # s) = utf8_char c @ as_bytes s"
  "as_bytes (a @ b) = as_bytes a @ as_bytes b"
  by (simp_all add: as_bytes_def)

lemma str_len_simps [simp, str_simps]:
  "str_len [] = 0"
  "str_len (c # s) = length (utf8_char c) + str_len s"
  "str_len (a @ b) = str_len a + str_len b"
  by (simp_all add: str_len_def)

lemma length_utf8_char: "length (utf8_char c) \<in> {1, 2}"
  by (simp add: utf8_char_def)

lemma utf8_char_nonempty [simp]: "utf8_char c \<noteq> []" "0 < length (utf8_char c)"
  by (simp_all add: utf8_char_def)

lemma str_len_0 [simp]: "str_len s = 0 \<longleftrightarrow> s = []"
  by (cases s) simp_all

lemma length_le_str_len: "length s \<le> str_len s"
proof (induction s)
  case (Cons c s)
  then show ?case using length_utf8_char [of c] by auto
qed simp

text \<open>The encoding is prefix free, so it can be read back and is injective.\<close>

lemma utf8_char_prefix_free:
  "utf8_char c @ xs = utf8_char d @ ys \<Longrightarrow> c = d \<and> xs = ys"
proof -
  assume eq: "utf8_char c @ xs = utf8_char d @ ys"
  have small: "n div 64 = m div 64 \<Longrightarrow> n mod 64 = m mod 64 \<Longrightarrow> n = m" for n m :: nat
    by (rule trans [OF div_mult_mod_eq [symmetric, of n 64]], rule trans [OF _ div_mult_mod_eq [of m 64]])
      simp
  consider "code_of c < 128" | "128 \<le> code_of c" by linarith
  then show ?thesis
  proof cases
    case 1
    with eq show ?thesis
      by (cases "code_of d < 128") (auto simp: utf8_char_def)
  next
    case 2
    show ?thesis
    proof (cases "code_of d < 128")
      case True
      with eq 2 show ?thesis by (auto simp: utf8_char_def)
    next
      case False
      with eq 2 have "code_of c div 64 = code_of d div 64" "code_of c mod 64 = code_of d mod 64"
        and "xs = ys"
        by (simp_all add: utf8_char_def)
      then show ?thesis using small [of "code_of c" "code_of d"] by simp
    qed
  qed
qed

lemma as_bytes_inject [simp]: "as_bytes a = as_bytes b \<longleftrightarrow> a = b"
proof
  show "as_bytes a = as_bytes b \<Longrightarrow> a = b"
  proof (induction a arbitrary: b)
    case Nil
    then show ?case by (cases b) auto
  next
    case (Cons c a)
    show ?case
    proof (cases b)
      case Nil
      then show ?thesis using Cons.prems by (simp add: as_bytes_def utf8_char_def split: if_splits)
    next
      case (Cons d b')
      then have "utf8_char c @ as_bytes a = utf8_char d @ as_bytes b'"
        using Cons.prems by (simp add: as_bytes_def)
      from utf8_char_prefix_free [OF this] Cons.IH [of b'] Cons show ?thesis by simp
    qed
  qed
qed simp

section \<open>Evaluation\<close>

text \<open>
  Code equations that compare code points as integers and change case by setting one bit, so that
  concrete strings evaluate quickly.
\<close>

definition code_int :: "char \<Rightarrow> int" where
  "code_int c = of_char c"

lemma code_int: "code_int c = int (code_of c)"
  by (simp add: code_int_def code_of_def of_nat_of_char)

lemma char_class_code [code]:
  "is_ascii_digit c \<longleftrightarrow> (let n = code_int c in 48 \<le> n \<and> n \<le> 57)"
  "is_ascii_uppercase c \<longleftrightarrow> (let n = code_int c in 65 \<le> n \<and> n \<le> 90)"
  "is_ascii_lowercase c \<longleftrightarrow> (let n = code_int c in 97 \<le> n \<and> n \<le> 122)"
  "is_ascii_whitespace c \<longleftrightarrow> (let n = code_int c in n = 9 \<or> n = 10 \<or> n = 12 \<or> n = 13 \<or> n = 32)"
  "is_whitespace c \<longleftrightarrow> (let n = code_int c in
     n = 9 \<or> n = 10 \<or> n = 11 \<or> n = 12 \<or> n = 13 \<or> n = 32 \<or> n = 133 \<or> n = 160)"
  "is_control c \<longleftrightarrow> (let n = code_int c in n < 32 \<or> (127 \<le> n \<and> n < 160))"
  by (auto simp: char_class_defs code_int Let_def)

lemma lower_char_code [code]:
  "lower_char c = (if is_ascii_uppercase c
     then (case c of Char b0 b1 b2 b3 b4 b5 b6 b7 \<Rightarrow> Char b0 b1 b2 b3 b4 True b6 b7) else c)"
proof (cases c)
  case (Char b0 b1 b2 b3 b4 b5 b6 b7)
  show ?thesis
  proof (cases "is_ascii_uppercase c")
    case True
    define low :: nat where "low = of_bool b0 + 2 * of_bool b1 + 4 * of_bool b2 + 8 * of_bool b3 + 16 * of_bool b4"
    have le1: "of_bool b \<le> (1 :: nat)" for b by simp
    have "low \<le> 31"
      unfolding low_def using le1 [of b0] le1 [of b1] le1 [of b2] le1 [of b3] le1 [of b4] by linarith
    moreover have "code_of c = low + 32 * of_bool b5 + 64 * of_bool b6 + 128 * of_bool b7"
      by (simp add: Char code_of_def low_def)
    ultimately have "\<not> b5"
      using True unfolding is_ascii_uppercase_def by (cases b6; cases b7; cases b5) simp_all
    then have eq: "code_of c + 32 = code_of (Char b0 b1 b2 b3 b4 True b6 b7)"
      using Char by (simp add: code_of_def)
    have "lower_char c = char_of (code_of (Char b0 b1 b2 b3 b4 True b6 b7))"
      using True by (simp only: lower_char_def eq if_True)
    also have "\<dots> = Char b0 b1 b2 b3 b4 True b6 b7"
      by (simp only: code_of_def char_of_char)
    finally have "lower_char c = Char b0 b1 b2 b3 b4 True b6 b7" .
    then show ?thesis using True Char by simp
  next
    case False
    then show ?thesis by (simp add: lower_char_def)
  qed
qed

section \<open>Searching and splitting\<close>

fun str_contains :: "string \<Rightarrow> string \<Rightarrow> bool" where
  "str_contains p [] \<longleftrightarrow> p = []"
| "str_contains p (c # s) \<longleftrightarrow> prefix p (c # s) \<or> str_contains p s"

definition strip_prefix :: "string \<Rightarrow> string \<Rightarrow> string option" where
  "strip_prefix p s = (if prefix p s then Some (drop (length p) s) else None)"

definition strip_suffix :: "string \<Rightarrow> string \<Rightarrow> string option" where
  "strip_suffix p s = (if suffix p s then Some (take (length s - length p) s) else None)"

definition starts_with_char :: "char \<Rightarrow> string \<Rightarrow> bool" where
  "starts_with_char c s \<longleftrightarrow> (case s of [] \<Rightarrow> False | d # _ \<Rightarrow> d = c)"

definition ends_with_char :: "char \<Rightarrow> string \<Rightarrow> bool" where
  "ends_with_char c s \<longleftrightarrow> starts_with_char c (rev s)"

text \<open>\<^verbatim>\<open>str::split_once(c)\<close> and \<^verbatim>\<open>str::rsplit_once(c)\<close>: the first and the last occurrence.\<close>

fun split_once :: "char \<Rightarrow> string \<Rightarrow> (string \<times> string) option" where
  "split_once c [] = None"
| "split_once c (d # s) =
     (if d = c then Some ([], s) else map_option (\<lambda>(a, b). (d # a, b)) (split_once c s))"

definition rsplit_once :: "char \<Rightarrow> string \<Rightarrow> (string \<times> string) option" where
  "rsplit_once c s = map_option (\<lambda>(a, b). (rev b, rev a)) (split_once c (rev s))"

text \<open>\<^verbatim>\<open>str::split(pred)\<close>: the pieces between the separators, empty ones included.\<close>

fun split_on :: "(char \<Rightarrow> bool) \<Rightarrow> string \<Rightarrow> string list" where
  "split_on P [] = [[]]"
| "split_on P (c # s) =
     (if P c then [] # split_on P s
      else (case split_on P s of [] \<Rightarrow> [[c]] | p # ps \<Rightarrow> (c # p) # ps))"

definition split_whitespace :: "string \<Rightarrow> string list" where
  "split_whitespace s = filter (\<lambda>p. p \<noteq> []) (split_on is_whitespace s)"

definition trim_start :: "string \<Rightarrow> string" where
  "trim_start s = dropWhile is_whitespace s"

definition trim_end :: "string \<Rightarrow> string" where
  "trim_end s = rev (dropWhile is_whitespace (rev s))"

definition trim :: "string \<Rightarrow> string" where
  "trim s = trim_end (trim_start s)"

text \<open>
  \<^verbatim>\<open>str::lines\<close>: lines end in a line feed, with an optional carriage return before it; the last
  line ending is optional. A carriage return that no line feed follows is kept.
\<close>

definition strip_cr :: "string \<Rightarrow> string" where
  "strip_cr l = (if ends_with_char (CHR 0x0D) l then butlast l else l)"

fun str_lines_acc :: "string \<Rightarrow> string \<Rightarrow> string list" where
  "str_lines_acc acc [] = (if acc = [] then [] else [rev acc])"
| "str_lines_acc acc (c # s) =
     (if c = CHR 0x0A then strip_cr (rev acc) # str_lines_acc [] s
      else str_lines_acc (c # acc) s)"

definition str_lines :: "string \<Rightarrow> string list" where
  "str_lines s = str_lines_acc [] s"

lemma str_contains_iff [simp]: "str_contains p s \<longleftrightarrow> sublist p s"
  by (induction s) (simp_all add: sublist_Cons_right)

lemma sublist_single [simp]: "sublist [c] s \<longleftrightarrow> c \<in> set s"
  by (induction s) (simp_all add: sublist_Cons_right)

lemma strip_prefix_Some: "strip_prefix p s = Some r \<longleftrightarrow> s = p @ r"
  by (auto simp: strip_prefix_def prefix_def)

lemma strip_suffix_Some: "strip_suffix p s = Some r \<longleftrightarrow> s = r @ p"
  by (auto simp: strip_suffix_def suffix_def)

lemma starts_with_char_iff: "starts_with_char c s \<longleftrightarrow> (\<exists>r. s = c # r)"
  by (auto simp: starts_with_char_def split: list.splits)

lemma starts_with_char_simps [simp]:
  "\<not> starts_with_char c []"
  "starts_with_char c (d # s) \<longleftrightarrow> d = c"
  by (simp_all add: starts_with_char_def)

lemma ends_with_char_iff: "ends_with_char c s \<longleftrightarrow> (\<exists>r. s = r @ [c])"
  by (cases s rule: rev_cases) (auto simp: ends_with_char_def)

lemma split_once_Some:
  "split_once c s = Some (a, b) \<longleftrightarrow> s = a @ c # b \<and> c \<notin> set a"
proof (induction s arbitrary: a)
  case (Cons d s)
  then show ?case by (cases a) auto
qed simp

lemma split_once_None: "split_once c s = None \<longleftrightarrow> c \<notin> set s"
  by (induction s) auto

lemma rsplit_once_Some:
  "rsplit_once c s = Some (a, b) \<longleftrightarrow> s = a @ c # b \<and> c \<notin> set b"
proof -
  have "rsplit_once c s = Some (a, b) \<longleftrightarrow> split_once c (rev s) = Some (rev b, rev a)"
    by (auto simp: rsplit_once_def)
  also have "\<dots> \<longleftrightarrow> rev s = rev b @ c # rev a \<and> c \<notin> set b"
    by (simp add: split_once_Some)
  also have "rev s = rev b @ c # rev a \<longleftrightarrow> s = a @ c # b"
    by (simp add: rev_swap)
  finally show ?thesis .
qed

lemma rsplit_once_None: "rsplit_once c s = None \<longleftrightarrow> c \<notin> set s"
  by (simp add: rsplit_once_def split_once_None)

lemma split_on_nonempty [simp]: "split_on P s \<noteq> []"
  by (cases s) (auto split: list.splits)

lemma split_on_pieces: "p \<in> set (split_on P s) \<Longrightarrow> c \<in> set p \<Longrightarrow> \<not> P c \<and> c \<in> set s"
proof (induction s arbitrary: p)
  case (Cons d s)
  obtain q qs where q: "split_on P s = q # qs"
    by (cases "split_on P s") simp_all
  have IH: "p \<in> set (q # qs) \<Longrightarrow> c \<in> set p \<Longrightarrow> \<not> P c \<and> c \<in> set s" for p
    using Cons.IH [of p] q by simp
  show ?case
    using Cons.prems IH [of q] IH [of p] by (cases "P d") (auto simp: q)
qed simp

lemma str_lines_acc_line:
  "CHR 0x0A \<notin> set l \<Longrightarrow> str_lines_acc acc (l @ CHR 0x0A # s) = strip_cr (rev acc @ l) # str_lines_acc [] s"
  by (induction l arbitrary: acc) auto

lemma str_lines_acc_rest:
  "CHR 0x0A \<notin> set l \<Longrightarrow> str_lines_acc acc l = (if rev acc @ l = [] then [] else [rev acc @ l])"
  by (induction l arbitrary: acc) auto

lemma strip_cr_id: "CHR 0x0D \<notin> set l \<Longrightarrow> strip_cr l = l"
  by (auto simp: strip_cr_def ends_with_char_iff)

lemma trim_start_set: "set (trim_start s) \<subseteq> set s"
  by (auto simp: trim_start_def dest: set_dropWhileD)

lemma trim_end_set: "set (trim_end s) \<subseteq> set s"
  by (auto simp: trim_end_def dest: set_dropWhileD)

lemma trim_set: "set (trim s) \<subseteq> set s"
  using trim_end_set trim_start_set unfolding trim_def by blast

lemma trim_start_id: "trim_start s = s" if "s = [] \<or> \<not> is_whitespace (hd s)"
  using that by (cases s) (auto simp: trim_start_def)

lemma trim_end_id: "trim_end s = s" if "s = [] \<or> \<not> is_whitespace (last s)"
  using that by (cases s rule: rev_cases) (auto simp: trim_end_def)

lemma trim_id:
  assumes "s = [] \<or> (\<not> is_whitespace (hd s) \<and> \<not> is_whitespace (last s))"
  shows "trim s = s"
  using assms trim_start_id [of s] trim_end_id [of s] unfolding trim_def by auto

lemma trim_no_whitespace: "\<forall>c \<in> set s. \<not> is_whitespace c \<Longrightarrow> trim s = s"
  by (rule trim_id) (metis hd_in_set last_in_set)

lemma trim_Nil [simp]: "trim [] = []"
  by (rule trim_id) simp

section \<open>Unsigned integers\<close>

text \<open>
  \<^verbatim>\<open>uN::from_str\<close>: an optional \<^verbatim>\<open>+\<close>, at least one digit, only digits, and a value below \<open>2 ^ N\<close>.
\<close>

definition digit_value :: "char \<Rightarrow> nat" where
  "digit_value c = code_of c - 48"

definition digits_value :: "string \<Rightarrow> nat" where
  "digits_value s = foldl (\<lambda>n c. 10 * n + digit_value c) 0 s"

definition parse_unsigned :: "nat \<Rightarrow> string \<Rightarrow> nat option" where
  "parse_unsigned bits s =
     (let ds = (case s of c # r \<Rightarrow> if c = CHR ''+'' then r else s | [] \<Rightarrow> s)
      in if ds = [] \<or> \<not> list_all is_ascii_digit ds then None
         else if int (digits_value ds) < 2 ^ bits then Some (digits_value ds) else None)"

lemma parse_unsigned_bound: "parse_unsigned bits s = Some n \<Longrightarrow> n < 2 ^ bits"
proof -
  assume "parse_unsigned bits s = Some n"
  then have "int n < 2 ^ bits"
    by (auto simp: parse_unsigned_def Let_def split: if_splits)
  then show ?thesis by (metis of_nat_less_iff of_nat_numeral of_nat_power)
qed

lemma digits_value_snoc [simp]:
  "digits_value [] = 0"
  "digits_value (s @ [c]) = 10 * digits_value s + digit_value c"
  by (simp_all add: digits_value_def)

lemma digit_value_less: "is_ascii_digit c \<Longrightarrow> digit_value c < 10"
  by (auto simp: is_ascii_digit_def digit_value_def)

lemma digit_value_inject:
  "is_ascii_digit c \<Longrightarrow> is_ascii_digit d \<Longrightarrow> digit_value c = digit_value d \<longleftrightarrow> c = d"
  using code_of_inject [of c d]
  by (auto simp: is_ascii_digit_def digit_value_def simp del: code_of_inject)

lemma digits_value_Cons:
  "digits_value (c # s) = digit_value c * 10 ^ length s + digits_value s"
proof (induction s rule: rev_induct)
  case Nil
  show ?case using digits_value_snoc(2) [of "[]" c] by simp
next
  case (snoc d s)
  have "digits_value ((c # s) @ [d]) = 10 * digits_value (c # s) + digit_value d"
    by (rule digits_value_snoc)
  with snoc show ?case by (simp add: algebra_simps)
qed

lemma digits_value_bound: "list_all is_ascii_digit s \<Longrightarrow> digits_value s < 10 ^ length s"
proof (induction s)
  case (Cons c s)
  then have "digit_value c \<le> 9" "digits_value s < 10 ^ length s"
    using digit_value_less [of c] by auto
  then have "digit_value c * 10 ^ length s + digits_value s < 9 * 10 ^ length s + 10 ^ length s"
    by (meson add_le_less_mono mult_le_mono1)
  then show ?case by (simp add: digits_value_Cons)
qed simp

end
