(* ===== verification/Deb_Version.thy ===== *)
theory Deb_Version
  imports Rust_Str
begin

text \<open>
  Debian version ordering: the module \<^verbatim>\<open>debian_version\<close> of \<^verbatim>\<open>src/package_managers/types.rs\<close>. It is
  the one comparator of the program for candidate updates and dependency constraints. The
  theory models every function of the module and shows that the comparison is a total preorder
  (the contract of \<^verbatim>\<open>Ord\<close>), that numeric runs compare as numbers of any size, and that versions
  that compare equal feed the hasher the same data (the contract of \<^verbatim>\<open>Hash\<close> with \<^verbatim>\<open>Eq\<close>).
\<close>

section \<open>Model\<close>

definition split_at_deb_digit :: "string \<Rightarrow> string \<times> string" where
  "split_at_deb_digit v =
     (takeWhile (\<lambda>c. \<not> is_ascii_digit c) v, dropWhile (\<lambda>c. \<not> is_ascii_digit c) v)"

definition split_at_deb_non_digit :: "string \<Rightarrow> string \<times> string" where
  "split_at_deb_non_digit v = (takeWhile is_ascii_digit v, dropWhile is_ascii_digit v)"

text \<open>The epoch: before the first colon, 0 when it is absent or not an unsigned 64-bit number.\<close>

definition split_deb_epoch :: "string \<Rightarrow> nat \<times> string" where
  "split_deb_epoch v =
     (case split_once (CHR '':'') v of
        Some (epoch, rest) \<Rightarrow> (case parse_unsigned 64 epoch of Some n \<Rightarrow> n | None \<Rightarrow> 0, rest)
      | None \<Rightarrow> (0, v))"

definition split_deb_revision :: "string \<Rightarrow> string \<times> string" where
  "split_deb_revision v = (case rsplit_once (CHR ''-'') v of Some p \<Rightarrow> p | None \<Rightarrow> (v, []))"

definition deb_character_order :: "char \<Rightarrow> int" where
  "deb_character_order c =
     (if c = CHR ''~'' then -1
      else if is_ascii_alphabetic c then int (code_of c)
      else int (code_of c) + 256)"

fun compare_deb_non_digits :: "string \<Rightarrow> string \<Rightarrow> ordering" where
  "compare_deb_non_digits [] [] = Equal"
| "compare_deb_non_digits (c # a) [] = (if c = CHR ''~'' then Less else Greater)"
| "compare_deb_non_digits [] (c # b) = (if c = CHR ''~'' then Greater else Less)"
| "compare_deb_non_digits (c # a) (d # b) =
     (case cmp (deb_character_order c) (deb_character_order d) of
        Equal \<Rightarrow> compare_deb_non_digits a b
      | other \<Rightarrow> other)"

definition trim_zeros :: "string \<Rightarrow> string" where
  "trim_zeros s = dropWhile (\<lambda>c. c = CHR ''0'') s"

definition compare_deb_numeric_strings :: "string \<Rightarrow> string \<Rightarrow> ordering" where
  "compare_deb_numeric_strings a b =
     (let a = trim_zeros a; b = trim_zeros b
      in then_with (cmp (length a) (length b)) (cmp a b))"

function compare_deb_part :: "string \<Rightarrow> string \<Rightarrow> ordering" where
  "compare_deb_part a b =
     (let (a_non_digit, a_after) = split_at_deb_digit a;
          (b_non_digit, b_after) = split_at_deb_digit b
      in case compare_deb_non_digits a_non_digit b_non_digit of
           Equal \<Rightarrow>
             (let (a_number, a_next) = split_at_deb_non_digit a_after;
                  (b_number, b_next) = split_at_deb_non_digit b_after
              in if a_number = [] \<and> b_number = [] then Equal
                 else case compare_deb_numeric_strings a_number b_number of
                        Equal \<Rightarrow> compare_deb_part a_next b_next
                      | other \<Rightarrow> other)
         | other \<Rightarrow> other)"
  by pat_completeness auto

text \<open>Every round of the loop that goes on takes at least one digit from one of the inputs.\<close>

definition deb_item :: "string \<Rightarrow> string \<times> string" where
  "deb_item v = (fst (split_at_deb_digit v), fst (split_at_deb_non_digit (snd (split_at_deb_digit v))))"

definition deb_rest :: "string \<Rightarrow> string" where
  "deb_rest v = snd (split_at_deb_non_digit (snd (split_at_deb_digit v)))"

lemma deb_split:
  assumes "(nd, after) = split_at_deb_digit v" and "(num, nxt) = split_at_deb_non_digit after"
  shows "nd = fst (deb_item v)" "num = snd (deb_item v)" "nxt = deb_rest v"
  using assms [symmetric] by (simp_all add: deb_item_def deb_rest_def)

lemma deb_item_rest: "v = fst (deb_item v) @ snd (deb_item v) @ deb_rest v"
  by (simp add: deb_item_def deb_rest_def split_at_deb_digit_def split_at_deb_non_digit_def)

lemma deb_rest_length: "length (deb_rest v) + length (snd (deb_item v)) \<le> length v"
  by (subst (3) deb_item_rest) simp

lemma deb_item_nonempty: "v \<noteq> [] \<Longrightarrow> fst (deb_item v) \<noteq> [] \<or> snd (deb_item v) \<noteq> []"
  by (cases v) (auto simp: deb_item_def split_at_deb_digit_def split_at_deb_non_digit_def)

lemma deb_rest_decreases: "v \<noteq> [] \<Longrightarrow> length (deb_rest v) < length v"
  using deb_item_nonempty [of v] by (subst (2) deb_item_rest) auto

termination compare_deb_part
proof (relation "measure (\<lambda>(a, b). length a + length b)", goal_cases)
  case 1
  show ?case by simp
next
  case (2 a b p a_nd a_after q b_nd b_after r a_number a_next t b_number b_next)
  have a: "a_number = snd (deb_item a)" "a_next = deb_rest a"
    by (rule deb_split [of a_nd a_after]; use 2 in simp)+
  have b: "b_number = snd (deb_item b)" "b_next = deb_rest b"
    by (rule deb_split [of b_nd b_after]; use 2 in simp)+
  from 2 have "0 < length (snd (deb_item a)) \<or> 0 < length (snd (deb_item b))"
    using a b by simp
  then have "length (deb_rest a) + length (deb_rest b) < length a + length b"
    using deb_rest_length [of a] deb_rest_length [of b] by linarith
  with a b show ?case by simp
qed

definition compare_deb_versions :: "string \<Rightarrow> string \<Rightarrow> ordering" where
  "compare_deb_versions a b =
     (let (epoch_a, rest_a) = split_deb_epoch a;
          (epoch_b, rest_b) = split_deb_epoch b
      in case cmp epoch_a epoch_b of
           Equal \<Rightarrow>
             (let (upstream_a, revision_a) = split_deb_revision rest_a;
                  (upstream_b, revision_b) = split_deb_revision rest_b
              in case compare_deb_part upstream_a upstream_b of
                   Equal \<Rightarrow> compare_deb_part revision_a revision_b
                 | other \<Rightarrow> other)
         | other \<Rightarrow> other)"

text \<open>The hasher's input, as the sequence of values the code hashes.\<close>

datatype hash_item = HashU64 nat | HashStr string

function hash_deb_part :: "string \<Rightarrow> hash_item list" where
  "hash_deb_part part =
     (if part = [] then [HashStr []]
      else
        (let (non_digits, rest) = split_at_deb_digit part;
             (digits, rest) = split_at_deb_non_digit rest;
             digits = trim_zeros digits
         in (if non_digits = [] then [] else [HashStr non_digits]) @
            (if digits = [] then [] else [HashStr digits]) @ hash_deb_part rest))"
  by pat_completeness auto
termination
proof (relation "measure length", goal_cases)
  case 1
  show ?case by simp
next
  case (2 part p non_digits rest q digits rest')
  have "rest' = deb_rest part"
    by (rule deb_split [of non_digits rest]; use 2 in simp)
  with 2 show ?case using deb_rest_decreases [of part] by simp
qed

definition hash_deb_version :: "string \<Rightarrow> hash_item list" where
  "hash_deb_version v =
     (let (epoch, rest) = split_deb_epoch v;
          (upstream, revision) = split_deb_revision rest
      in HashU64 epoch # hash_deb_part upstream @ hash_deb_part revision)"

declare compare_deb_part.simps [simp del] hash_deb_part.simps [simp del]

section \<open>The comparison is a total preorder\<close>

lemma cmp_Cons: "cmp (x # xs) (y # ys) = then_with (cmp x y) (cmp xs ys)"
  for xs ys :: "'a::linorder list"
  by (auto simp: cmp_def)

text \<open>Runs of non-digits compare as lists of weights where the end of the run weighs 0.\<close>

definition non_digit_key :: "string \<Rightarrow> int list" where
  "non_digit_key s = map deb_character_order s @ [0]"

lemma deb_character_order_pos:
  "c \<noteq> CHR ''~'' \<Longrightarrow> 0 < deb_character_order c"
  by (auto simp: deb_character_order_def char_class_defs)

lemma deb_character_order_tilde [simp]: "deb_character_order (CHR ''~'') = -1"
  by (simp add: deb_character_order_def)

lemma deb_character_order_inject:
  "deb_character_order c = deb_character_order d \<Longrightarrow> c = d"
  by (auto simp: deb_character_order_def char_class_defs split: if_splits)

lemma compare_deb_non_digits_key:
  "compare_deb_non_digits a b = cmp (non_digit_key a) (non_digit_key b)"
proof (induction a b rule: compare_deb_non_digits.induct)
  case (2 c a)
  then show ?case
    using deb_character_order_pos [of c] by (auto simp: non_digit_key_def cmp_Cons cmp_def)
next
  case (3 c b)
  then show ?case
    using deb_character_order_pos [of c] by (auto simp: non_digit_key_def cmp_Cons cmp_def)
next
  case (4 c a d b)
  then show ?case
    by (cases "deb_character_order c" "deb_character_order d" rule: linorder_cases)
      (simp_all add: non_digit_key_def cmp_Cons)
qed (simp add: non_digit_key_def)

lemma non_digit_key_inject: "non_digit_key a = non_digit_key b \<longleftrightarrow> a = b"
proof -
  have "inj deb_character_order"
    by (rule injI) (rule deb_character_order_inject)
  then show ?thesis by (simp add: non_digit_key_def inj_map_eq_map)
qed

lemma comparator_non_digits [cmp_laws]: "comparator compare_deb_non_digits"
  using comparator_image [OF comparator_cmp, of non_digit_key]
  by (simp add: compare_deb_non_digits_key [abs_def])

lemma comparator_numeric [cmp_laws]: "comparator compare_deb_numeric_strings"
  unfolding compare_deb_numeric_strings_def [abs_def] Let_def
  by (rule comparator_then [OF comparator_image [OF comparator_cmp, of "\<lambda>s. length (trim_zeros s)"]
        comparator_image [OF comparator_cmp, of trim_zeros]])

text \<open>A part is a sequence of items, a run of non-digits and a number without leading zeros each.\<close>

function deb_items :: "string \<Rightarrow> (string \<times> string) list" where
  "deb_items v =
     (if v = [] then []
      else (fst (deb_item v), trim_zeros (snd (deb_item v))) # deb_items (deb_rest v))"
  by pat_completeness auto
termination
  by (relation "measure length") (simp_all add: deb_rest_decreases)

declare deb_items.simps [simp del]

definition item_cmp :: "string \<times> string \<Rightarrow> string \<times> string \<Rightarrow> ordering" where
  "item_cmp x y =
     then_with (compare_deb_non_digits (fst x) (fst y)) (compare_deb_numeric_strings (snd x) (snd y))"

lemma comparator_item [cmp_laws]: "comparator item_cmp"
  unfolding item_cmp_def [abs_def]
  by (rule comparator_then [OF comparator_image [OF comparator_non_digits, of fst]
        comparator_image [OF comparator_numeric, of snd]])

lemma trim_zeros_idem [simp]: "trim_zeros (trim_zeros s) = trim_zeros s"
  by (induction s) (auto simp: trim_zeros_def)

lemma deb_item_Nil [simp]: "deb_item [] = ([], [])" "deb_rest [] = []"
  by (simp_all add: deb_item_def deb_rest_def split_at_deb_digit_def split_at_deb_non_digit_def)

lemma deb_items_Nil [simp]: "deb_items [] = []"
  by (simp add: deb_items.simps)

lemma deb_items_hd: "hd_or ([], []) (deb_items v) = (fst (deb_item v), trim_zeros (snd (deb_item v)))"
  by (cases "v = []") (simp_all add: deb_items.simps [of v] trim_zeros_def)

lemma deb_items_tl: "tl (deb_items v) = deb_items (deb_rest v)"
  by (cases "v = []") (simp_all add: deb_items.simps [of v])

lemma compare_deb_part_step:
  "compare_deb_part a b =
     then_with (compare_deb_non_digits (fst (deb_item a)) (fst (deb_item b)))
       (if snd (deb_item a) = [] \<and> snd (deb_item b) = [] then Equal
        else then_with (compare_deb_numeric_strings (snd (deb_item a)) (snd (deb_item b)))
          (compare_deb_part (deb_rest a) (deb_rest b)))"
  by (subst compare_deb_part.simps)
    (simp add: deb_item_def deb_rest_def case_prod_beta Let_def)

lemma deb_rest_no_number:
  assumes "snd (deb_item v) = []" shows "deb_rest v = []"
proof (cases "dropWhile (\<lambda>c. \<not> is_ascii_digit c) v")
  case Nil
  show ?thesis
    by (simp add: deb_rest_def split_at_deb_digit_def split_at_deb_non_digit_def Nil)
next
  case (Cons x xs)
  then have "is_ascii_digit x"
    using hd_dropWhile [of "\<lambda>c. \<not> is_ascii_digit c" v] by simp
  with Cons assms show ?thesis
    by (simp add: deb_item_def split_at_deb_digit_def split_at_deb_non_digit_def)
qed

lemma compare_deb_part_padded:
  "compare_deb_part a b = padded item_cmp ([], []) (deb_items a) (deb_items b)"
proof (induction "length a + length b" arbitrary: a b rule: less_induct)
  case less
  let ?na = "snd (deb_item a)" and ?nb = "snd (deb_item b)"
  have num: "compare_deb_numeric_strings (trim_zeros x) (trim_zeros y) = compare_deb_numeric_strings x y"
    for x y by (simp add: compare_deb_numeric_strings_def)
  note step = padded_step [OF comparator_item, of "([], [])" "deb_items a" "deb_items b"]
  show ?case
  proof (cases "?na = [] \<and> ?nb = []")
    case True
    then show ?thesis
      by (subst compare_deb_part_step, subst step)
        (simp add: deb_items_hd deb_items_tl item_cmp_def deb_rest_no_number
          compare_deb_numeric_strings_def trim_zeros_def)
  next
    case False
    then have "0 < length ?na \<or> 0 < length ?nb" by simp
    then have "length (deb_rest a) + length (deb_rest b) < length a + length b"
      using deb_rest_length [of a] deb_rest_length [of b] by linarith
    from less [OF this] False show ?thesis
      by (subst compare_deb_part_step, subst step)
        (auto simp: deb_items_hd deb_items_tl item_cmp_def num then_with_assoc)
  qed
qed

lemma comparator_part [cmp_laws]: "comparator compare_deb_part"
  unfolding compare_deb_part_padded [abs_def]
  by (rule comparator_image [OF comparator_padded [OF comparator_item], of _ deb_items])

definition deb_upstream :: "string \<Rightarrow> string" where
  "deb_upstream v = fst (split_deb_revision (snd (split_deb_epoch v)))"

definition deb_revision :: "string \<Rightarrow> string" where
  "deb_revision v = snd (split_deb_revision (snd (split_deb_epoch v)))"

lemma compare_deb_versions_parts:
  "compare_deb_versions a b =
     then_with (cmp (fst (split_deb_epoch a)) (fst (split_deb_epoch b)))
       (then_with (compare_deb_part (deb_upstream a) (deb_upstream b))
         (compare_deb_part (deb_revision a) (deb_revision b)))"
  by (simp add: compare_deb_versions_def deb_upstream_def deb_revision_def case_prod_beta Let_def)

lemma comparator_versions [cmp_laws]: "comparator compare_deb_versions"
  unfolding compare_deb_versions_parts [abs_def]
  by (rule comparator_then [OF comparator_image [OF comparator_cmp, of "\<lambda>v. fst (split_deb_epoch v)"]
        comparator_then [OF comparator_image [OF comparator_part, of deb_upstream]
          comparator_image [OF comparator_part, of deb_revision]]])

interpretation deb: comparator compare_deb_versions
  by (rule comparator_versions)

section \<open>Equal versions hash alike\<close>

lemma item_cmp_Equal: "item_cmp x y = Equal \<longleftrightarrow> fst x = fst y \<and> trim_zeros (snd x) = trim_zeros (snd y)"
  by (auto simp: item_cmp_def then_with_eq compare_deb_non_digits_key non_digit_key_inject
      compare_deb_numeric_strings_def Let_def)

fun item_hash :: "string \<times> string \<Rightarrow> hash_item list" where
  "item_hash (n, d) = (if n = [] then [] else [HashStr n]) @
     (if trim_zeros d = [] then [] else [HashStr (trim_zeros d)])"

lemma hash_deb_part_items: "hash_deb_part v = concat (map item_hash (deb_items v)) @ [HashStr []]"
proof (induction v rule: deb_items.induct)
  case (1 v)
  show ?case
  proof (cases "v = []")
    case True
    then show ?thesis by (simp add: hash_deb_part.simps)
  next
    case False
    with 1 have "hash_deb_part (deb_rest v) =
        concat (map item_hash (deb_items (deb_rest v))) @ [HashStr []]"
      by simp
    with False show ?thesis
      by (simp add: hash_deb_part.simps [of v] deb_items.simps [of v] case_prod_beta Let_def
          deb_item_def deb_rest_def)
  qed
qed

lemma item_hash_Equal: "item_cmp x y = Equal \<Longrightarrow> item_hash x = item_hash y"
  by (cases x; cases y) (simp add: item_cmp_Equal)

lemma item_hash_default [simp]: "item_hash ([], []) = []"
  by (simp add: trim_zeros_def)

declare item_hash.simps [simp del]

lemma padded_Equal_hash:
  "padded item_cmp ([], []) xs ys = Equal \<Longrightarrow>
   concat (map item_hash xs) = concat (map item_hash ys)"
proof (induction xs arbitrary: ys)
  case Nil
  then show ?case
  proof (induction ys)
    case (Cons y ys)
    then show ?case using item_hash_Equal [of "([], [])" y] by (simp add: then_with_eq)
  qed simp
next
  case (Cons x xs)
  then show ?case
    using item_hash_Equal [of x "([], [])"] item_hash_Equal [of x "hd ys"] Cons.IH [of "tl ys"]
    by (cases ys) (simp_all add: then_with_eq)
qed

lemma compare_deb_part_Equal_hash:
  "compare_deb_part a b = Equal \<Longrightarrow> hash_deb_part a = hash_deb_part b"
  using padded_Equal_hash by (simp add: compare_deb_part_padded hash_deb_part_items)

lemma hash_deb_version_parts:
  "hash_deb_version v =
     HashU64 (fst (split_deb_epoch v)) # hash_deb_part (deb_upstream v) @ hash_deb_part (deb_revision v)"
  by (simp add: hash_deb_version_def deb_upstream_def deb_revision_def case_prod_beta Let_def)

section \<open>Numeric runs\<close>

lemma digits_value_trim_zeros: "digits_value (trim_zeros s) = digits_value s"
  by (induction s) (auto simp: trim_zeros_def digits_value_Cons digit_value_def code_of_def)

lemma digits_trim_zeros: "list_all is_ascii_digit s \<Longrightarrow> list_all is_ascii_digit (trim_zeros s)"
  by (auto simp: trim_zeros_def list_all_iff dest: set_dropWhileD)

lemma trim_zeros_lower:
  assumes "list_all is_ascii_digit s" "trim_zeros s = c # r"
  shows "10 ^ length r \<le> digits_value (c # r)"
proof -
  have d: "is_ascii_digit c"
    using digits_trim_zeros [OF assms(1)] assms(2) by simp
  have "c \<noteq> CHR ''0''"
    using assms(2) hd_dropWhile [of "\<lambda>c. c = CHR ''0''" s] by (simp add: trim_zeros_def)
  then have "code_of c \<noteq> code_of (CHR ''0'')" by simp
  then have "code_of c \<noteq> 48" by (simp add: code_of_def del: of_char_eq_iff)
  then have "1 \<le> digit_value c"
    using d unfolding is_ascii_digit_def digit_value_def by linarith
  then show ?thesis by (simp add: digits_value_Cons trans_le_add1)
qed

lemma cmp_same_length_digits:
  assumes "length a = length b" "list_all is_ascii_digit a" "list_all is_ascii_digit b"
  shows "cmp a b = cmp (digits_value a) (digits_value b)"
  using assms
proof (induction a b rule: list_induct2)
  case (Cons c a d b)
  then have dig: "is_ascii_digit c" "is_ascii_digit d" by simp_all
  have bounds: "digits_value a < 10 ^ length a" "digits_value b < 10 ^ length a"
    using Cons digits_value_bound [of a] digits_value_bound [of b] by simp_all
  have less: "x * 10 ^ length a + u < y * 10 ^ length a + v"
    if "x < y" "u < 10 ^ length a" for x y u v :: nat
  proof -
    have "x * 10 ^ length a + u < Suc x * 10 ^ length a" using that by simp
    also have "\<dots> \<le> y * 10 ^ length a" using that by (simp only: mult_le_mono1 Suc_leI)
    finally show ?thesis by simp
  qed
  have order: "c < d \<longleftrightarrow> digit_value c < digit_value d"
    using dig by (auto simp: less_char_def code_of_def [symmetric] is_ascii_digit_def digit_value_def)
  consider "digit_value c < digit_value d" | "c = d" | "digit_value d < digit_value c"
    using digit_value_inject [OF dig] by linarith
  then show ?case
  proof cases
    case 1
    then show ?thesis
      using order less [OF 1 bounds(1)] Cons.hyps by (simp add: cmp_Cons digits_value_Cons)
  next
    case 2
    have "cmp (k + x) (k + y) = cmp x y" for k x y :: nat
      by (simp add: cmp_def)
    with 2 Cons show ?thesis by (simp add: cmp_Cons digits_value_Cons)
  next
    case 3
    then have "d < c" using order dig digit_value_inject [OF dig] by force
    then show ?thesis
      using less [OF 3 bounds(2)] Cons.hyps by (simp add: cmp_Cons digits_value_Cons)
  qed
qed simp

lemma shorter_number_less:
  assumes "list_all is_ascii_digit a" "list_all is_ascii_digit b"
    and "length (trim_zeros a) < length (trim_zeros b)"
  shows "digits_value a < digits_value b"
proof -
  obtain c r where t: "trim_zeros b = c # r"
    using assms(3) by (cases "trim_zeros b") auto
  have "digits_value (trim_zeros a) < 10 ^ length (trim_zeros a)"
    by (rule digits_value_bound [OF digits_trim_zeros [OF assms(1)]])
  also have "\<dots> \<le> 10 ^ length r"
    using assms(3) t by simp
  also have "\<dots> \<le> digits_value (trim_zeros b)"
    using trim_zeros_lower [OF assms(2) t] t by simp
  finally show ?thesis by (simp add: digits_value_trim_zeros)
qed

section \<open>Pre-release versions\<close>

lemma deb_item_append:
  assumes "snd (deb_item v) \<noteq> []" "\<not> is_ascii_digit t"
  shows "deb_item (v @ t # s) = deb_item v" "deb_rest (v @ t # s) = deb_rest v @ t # s"
proof -
  obtain x where x: "x \<in> set v" "is_ascii_digit x"
    using assms(1)
    by (metis deb_item_def dropWhile_eq_Nil_conv snd_conv split_at_deb_digit_def
        split_at_deb_non_digit_def takeWhile.simps(1) fst_conv)
  let ?w = "dropWhile (\<lambda>c. \<not> is_ascii_digit c) v"
  have drop: "dropWhile (\<lambda>c. \<not> is_ascii_digit c) (v @ t # s) = ?w @ t # s"
    and take: "takeWhile (\<lambda>c. \<not> is_ascii_digit c) (v @ t # s) = takeWhile (\<lambda>c. \<not> is_ascii_digit c) v"
    using x by (auto simp: dropWhile_append takeWhile_append)
  have "takeWhile P (w @ t # s) = takeWhile P w" "dropWhile P (w @ t # s) = dropWhile P w @ t # s"
    if "\<not> P t" for P w
    using that by (induction w) simp_all
  note stop = this [of is_ascii_digit ?w, OF assms(2)]
  from stop drop take show "deb_item (v @ t # s) = deb_item v" "deb_rest (v @ t # s) = deb_rest v @ t # s"
    by (simp_all add: deb_item_def deb_rest_def split_at_deb_digit_def split_at_deb_non_digit_def)
qed

lemma compare_deb_non_digits_tilde:
  "compare_deb_non_digits (a @ CHR ''~'' # s) a = Less"
  by (induction a) simp_all

lemma deb_item_no_number:
  assumes "snd (deb_item v) = []" shows "fst (deb_item v) = v"
  using deb_item_rest [of v] deb_rest_no_number [OF assms] assms by simp

lemma deb_item_tilde:
  assumes "snd (deb_item v) = []"
  shows "\<exists>r. fst (deb_item (v @ CHR ''~'' # s)) = v @ CHR ''~'' # r"
proof -
  have "takeWhile (\<lambda>c. \<not> is_ascii_digit c) v = v"
    using deb_item_no_number [OF assms] by (simp add: deb_item_def split_at_deb_digit_def)
  then have "\<forall>c \<in> set v. \<not> is_ascii_digit c" by (simp only: takeWhile_eq_all_conv)
  then have "takeWhile (\<lambda>c. \<not> is_ascii_digit c) (v @ CHR ''~'' # s) =
      v @ CHR ''~'' # takeWhile (\<lambda>c. \<not> is_ascii_digit c) s"
    by (simp add: takeWhile_append is_ascii_digit_def code_of_def)
  then show ?thesis by (simp add: deb_item_def split_at_deb_digit_def)
qed

lemma compare_deb_part_tilde: "compare_deb_part (v @ CHR ''~'' # s) v = Less"
proof (induction v rule: length_induct)
  case (1 v)
  show ?case
  proof (cases "snd (deb_item v) = []")
    case True
    obtain r where "fst (deb_item (v @ CHR ''~'' # s)) = v @ CHR ''~'' # r"
      using deb_item_tilde [OF True] by blast
    then show ?thesis
      by (subst compare_deb_part_step)
        (simp add: deb_item_no_number [OF True] compare_deb_non_digits_tilde)
  next
    case False
    have nd: "\<not> is_ascii_digit (CHR ''~'')" by (simp add: is_ascii_digit_def code_of_def)
    note item = deb_item_append [OF False nd, of s]
    have "0 < length (snd (deb_item v))" using False by simp
    then have "length (deb_rest v) < length v" using deb_rest_length [of v] by linarith
    with 1 have "compare_deb_part (deb_rest v @ CHR ''~'' # s) (deb_rest v) = Less" by blast
    then show ?thesis
      using False comparator.refl_law [OF comparator_non_digits]
        comparator.refl_law [OF comparator_numeric]
      by (subst compare_deb_part_step) (simp add: item)
  qed
qed

lemma split_once_append_None:
  "c \<notin> set s \<Longrightarrow> c \<noteq> t \<Longrightarrow>
   split_once c (v @ t # s) = map_option (\<lambda>(a, b). (a, b @ t # s)) (split_once c v)"
  by (induction v) (auto simp: split_once_None option.map_comp comp_def case_prod_beta split: option.splits)

lemma rsplit_once_append:
  assumes "c \<notin> set s" "c \<noteq> t"
  shows "rsplit_once c (v @ t # s) = map_option (\<lambda>(a, b). (a, b @ t # s)) (rsplit_once c v)"
proof (cases "rsplit_once c v")
  case None
  then have "rsplit_once c (v @ t # s) = None" using assms by (simp add: rsplit_once_None)
  then show ?thesis using None by simp
next
  case (Some p)
  obtain a b where p: "p = (a, b)" by (cases p)
  with Some have "v @ t # s = a @ c # (b @ t # s)" "c \<notin> set (b @ t # s)"
    using assms by (simp_all add: rsplit_once_Some)
  then have "rsplit_once c (v @ t # s) = Some (a, b @ t # s)"
    using rsplit_once_Some by blast
  then show ?thesis using Some p by simp
qed

section \<open>Properties\<close>

text \<open>
  C16: \<^verbatim>\<open>compare_deb_versions\<close> obeys the contract of \<^verbatim>\<open>Ord\<close> on every pair and triple of strings: it
  is reflexive, exchanging the arguments reverses the result, and "not greater" is transitive.
\<close>

theorem compare_deb_versions_total_preorder:
  "compare_deb_versions a a = Equal \<and>
   compare_deb_versions b a = reverse_ordering (compare_deb_versions a b) \<and>
   (compare_deb_versions a b \<noteq> Greater \<and> compare_deb_versions b c \<noteq> Greater \<longrightarrow>
      compare_deb_versions a c \<noteq> Greater)"
  using deb.refl_law deb.swap_law deb.trans_law by blast

theorem compare_deb_versions_total_preorder_witness:
  "compare_deb_versions ''1:1.0~rc1-1'' ''1:1.0-1'' = Less \<and>
   compare_deb_versions ''1:1.0-1'' ''1:1.00-01'' = Equal \<and>
   compare_deb_versions ''1:1.0~rc1-1'' ''1:1.00-01'' \<noteq> Greater"
proof -
  have ab: "compare_deb_versions ''1:1.0~rc1-1'' ''1:1.0-1'' = Less" by code_simp
  have bc: "compare_deb_versions ''1:1.0-1'' ''1:1.00-01'' = Equal" by code_simp
  from ab bc show ?thesis
    using compare_deb_versions_total_preorder
      [of "''1:1.0~rc1-1''" "''1:1.0-1''" "''1:1.00-01''"] by simp
qed

text \<open>
  C30: versions that compare equal are hashed alike, so a hash map keyed by versions finds every
  spelling of the same version.
\<close>

theorem equal_versions_hash_equal:
  "compare_deb_versions a b = Equal \<Longrightarrow> hash_deb_version a = hash_deb_version b"
  using compare_deb_part_Equal_hash [of "deb_upstream a" "deb_upstream b"]
    compare_deb_part_Equal_hash [of "deb_revision a" "deb_revision b"]
  by (simp add: compare_deb_versions_parts then_with_eq hash_deb_version_parts)

theorem equal_versions_hash_equal_witness:
  "compare_deb_versions ''1.0'' ''0:1.00-0'' = Equal \<and>
   hash_deb_version ''1.0'' = hash_deb_version ''0:1.00-0''"
proof -
  have h: "compare_deb_versions ''1.0'' ''0:1.00-0'' = Equal" by code_simp
  show ?thesis using h equal_versions_hash_equal [OF h] by simp
qed

text \<open>
  A run of digits is compared as the number it spells, however long it is: the comparison by
  length and by text never overflows and agrees with the order of the natural numbers.
\<close>

theorem numeric_runs_compare_as_numbers:
  assumes a: "list_all is_ascii_digit a" and b: "list_all is_ascii_digit b"
  shows "compare_deb_numeric_strings a b = cmp (digits_value a) (digits_value b)"
proof (cases "length (trim_zeros a)" "length (trim_zeros b)" rule: linorder_cases)
  case less
  then show ?thesis
    using shorter_number_less [OF a b] by (simp add: compare_deb_numeric_strings_def Let_def)
next
  case equal
  then show ?thesis
    using cmp_same_length_digits [OF equal digits_trim_zeros [OF a] digits_trim_zeros [OF b]]
    by (simp add: compare_deb_numeric_strings_def Let_def digits_value_trim_zeros)
next
  case greater
  then show ?thesis
    using shorter_number_less [OF b a] by (simp add: compare_deb_numeric_strings_def Let_def)
qed

theorem numeric_runs_compare_as_numbers_witness:
  "list_all is_ascii_digit ''0099'' \<and> list_all is_ascii_digit ''100'' \<and>
   compare_deb_numeric_strings ''0099'' ''100'' = cmp (digits_value ''0099'') (digits_value ''100'')"
proof -
  have a: "list_all is_ascii_digit ''0099''" and b: "list_all is_ascii_digit ''100''"
    by code_simp+
  show ?thesis using a b numeric_runs_compare_as_numbers [OF a b] by simp
qed

text \<open>
  A version extended by a tilde suffix (a pre-release such as \<^verbatim>\<open>1.0~rc1\<close>) sorts before the
  version itself, whatever the version is and wherever the suffix falls.
\<close>

theorem tilde_suffix_sorts_before:
  assumes "CHR '':'' \<notin> set s" "CHR ''-'' \<notin> set s"
  shows "compare_deb_versions (v @ CHR ''~'' # s) v = Less"
proof -
  let ?x = "CHR ''~'' # s"
  obtain rest where e: "snd (split_deb_epoch (v @ ?x)) = rest @ ?x" "rest = snd (split_deb_epoch v)"
      "fst (split_deb_epoch (v @ ?x)) = fst (split_deb_epoch v)"
    using split_once_append_None [OF assms(1), of "CHR ''~''" v]
    by (auto simp: split_deb_epoch_def split: option.splits)
  have "deb_revision (v @ ?x) = deb_revision v @ ?x \<and> deb_upstream (v @ ?x) = deb_upstream v \<or>
      deb_revision (v @ ?x) = deb_revision v \<and> deb_upstream (v @ ?x) = deb_upstream v @ ?x"
    using rsplit_once_append [OF assms(2), of "CHR ''~''" rest] e
    by (auto simp: deb_revision_def deb_upstream_def split_deb_revision_def split: option.splits)
  then show ?thesis
    using e(3) compare_deb_part_tilde comparator.refl_law [OF comparator_part]
    by (auto simp: compare_deb_versions_parts)
qed

theorem tilde_suffix_sorts_before_witness:
  "CHR '':'' \<notin> set ''rc1'' \<and> CHR ''-'' \<notin> set ''rc1'' \<and>
   compare_deb_versions (''2:1.0-3'' @ CHR ''~'' # ''rc1'') ''2:1.0-3'' = Less"
proof -
  have h: "CHR '':'' \<notin> set ''rc1''" "CHR ''-'' \<notin> set ''rc1''" by simp_all
  show ?thesis using h tilde_suffix_sorts_before [OF h, of "''2:1.0-3''"] by simp
qed

end
