(* ===== verification/Deb_Order.thy ===== *)
theory Deb_Order
  imports Omg_Prelude
begin

text \<open>
  \<^verbatim>\<open>DependencyResolver::topological_sort\<close> of \<^verbatim>\<open>package_managers/debian_db/resolver.rs\<close>: a depth-first
  search with an explicit stack and two marks. The order it returns is a permutation of the
  packages, and a dependency comes after its dependent only when the two are on a cycle.
\<close>

section \<open>Definitions\<close>

datatype mark = Visiting | Ordered

text \<open>The neighbours of a package: its recorded dependencies among the packages, sorted, once each.\<close>

definition order_dependencies :: "(string \<times> string list) list \<Rightarrow> string list \<Rightarrow> string \<Rightarrow> string list" where
  "order_dependencies graph packages p =
     remdups_adj (sort (filter (\<lambda>d. d \<in> set packages)
       (case map_of graph p of None \<Rightarrow> [] | Some ds \<Rightarrow> ds)))"

text \<open>The \<^verbatim>\<open>while let Some(..) = stack.pop()\<close> loop; the stack has its top first.\<close>

function order_loop ::
  "(string \<times> string list) list \<Rightarrow> string list \<Rightarrow> (string \<times> bool) list \<Rightarrow> (string \<rightharpoonup> mark) \<Rightarrow> string list \<Rightarrow>
   (string \<rightharpoonup> mark) \<times> string list" where
  "order_loop graph packages [] states res = (states, res)"
| "order_loop graph packages ((p, True) # stack) states res =
     (if states p = Some Visiting
      then order_loop graph packages stack (states(p \<mapsto> Ordered)) (res @ [p])
      else order_loop graph packages stack states res)"
| "order_loop graph packages ((p, False) # stack) states res =
     (case states p of
        Some Ordered \<Rightarrow> order_loop graph packages stack states res
      | Some Visiting \<Rightarrow> order_loop graph packages stack states res
      | None \<Rightarrow> order_loop graph packages
          (map (\<lambda>d. (d, False)) (order_dependencies graph packages p) @ (p, True) # stack)
          (states(p \<mapsto> Visiting)) res)"
  by pat_completeness auto

lemma order_dependencies_set:
  "set (order_dependencies graph packages p) =
     set packages \<inter> (case map_of graph p of None \<Rightarrow> {} | Some ds \<Rightarrow> set ds)"
  by (auto simp: order_dependencies_def split: option.splits)

definition order_todo :: "string list \<Rightarrow> (string \<times> bool) list \<Rightarrow> (string \<rightharpoonup> mark) \<Rightarrow> nat" where
  "order_todo packages stack states = card ((set packages \<union> fst ` set stack) - dom states)"

lemma order_todo_pop: "order_todo packages stack states \<le> order_todo packages (e # stack) states"
  unfolding order_todo_def by (intro card_mono) auto

lemma order_todo_mark: "order_todo packages stack (states(p \<mapsto> m)) \<le> order_todo packages (e # stack) states"
  unfolding order_todo_def by (intro card_mono) auto

lemma order_todo_push:
  assumes "states p = None"
  shows "order_todo packages
      (map (\<lambda>d. (d, False)) (order_dependencies graph packages p) @ (p, True) # stack)
      (states(p \<mapsto> Visiting)) < order_todo packages ((p, False) # stack) states"
  unfolding order_todo_def
  using assms by (intro psubset_card_mono) (auto simp: order_dependencies_set split: option.splits)

termination order_loop
  by (relation "(\<lambda>(graph, packages, stack, states, res). order_todo packages stack states) <*mlex*>
      measure (\<lambda>(graph, packages, stack, states, res). length stack)")
    (auto intro!: wf_mlex intro: mlex_leq mlex_less order_todo_pop order_todo_mark order_todo_push)

fun order_roots ::
  "(string \<times> string list) list \<Rightarrow> string list \<Rightarrow> string list \<Rightarrow> (string \<rightharpoonup> mark) \<Rightarrow> string list \<Rightarrow>
   (string \<rightharpoonup> mark) \<times> string list" where
  "order_roots graph packages [] states res = (states, res)"
| "order_roots graph packages (root # roots) states res =
     (if states root = Some Ordered then order_roots graph packages roots states res
      else (case order_loop graph packages [(root, False)] states res of
        (states', res') \<Rightarrow> order_roots graph packages roots states' res'))"

definition topological_sort :: "(string \<times> string list) list \<Rightarrow> string list \<Rightarrow> string list" where
  "topological_sort graph packages =
     snd (order_roots graph packages (sort (remdups packages)) (\<lambda>_. None) [])"

section \<open>The invariant of the search\<close>

text \<open>The stack entries above the one that finishes \<open>p\<close>.\<close>

definition above :: "string \<Rightarrow> (string \<times> bool) list \<Rightarrow> (string \<times> bool) set" where
  "above p stack = set (takeWhile (\<lambda>e. e \<noteq> (p, True)) stack)"

lemma above_simps [simp]:
  "above p [] = {}"
  "above p ((q, b) # stack) = (if q = p \<and> b then {} else insert (q, b) (above p stack))"
  "above p (map (\<lambda>d. (d, False)) ds @ stack) = (\<lambda>d. (d, False)) ` set ds \<union> above p stack"
  by (auto simp: above_def) (induction ds; auto)+

lemma above_linear:
  "(p, True) \<in> set stack \<Longrightarrow> (q, True) \<in> set stack \<Longrightarrow>
   p = q \<or> (p, True) \<in> above q stack \<or> (q, True) \<in> above p stack"
  by (induction stack) (auto split: if_splits)

definition dep_rel :: "(string \<times> string list) list \<Rightarrow> string list \<Rightarrow> (string \<times> string) set" where
  "dep_rel graph packages = {(p, d). d \<in> set (order_dependencies graph packages p)}"

definition order_inv :: "(string \<times> string) set \<Rightarrow> (string \<times> bool) list \<Rightarrow> (string \<rightharpoonup> mark) \<Rightarrow> string list \<Rightarrow> bool" where
  "order_inv R stack states res \<longleftrightarrow>
     distinct res \<and> set res = {p. states p = Some Ordered} \<and>
     (\<forall>p. (p, True) \<in> set stack \<longleftrightarrow> states p = Some Visiting) \<and>
     distinct (filter snd stack) \<and>
     (\<forall>p q b. states p = Some Visiting \<longrightarrow> (q, b) \<in> above p stack \<longrightarrow> (p, q) \<in> R\<^sup>+) \<and>
     (\<forall>p d. states p = Some Visiting \<longrightarrow> (p, d) \<in> R \<longrightarrow>
        states d = Some Ordered \<or> (\<exists>b. (d, b) \<in> above p stack) \<or> (d, p) \<in> R\<^sup>*) \<and>
     (\<forall>xs p ys d. res = xs @ p # ys \<longrightarrow> (p, d) \<in> R \<longrightarrow> d \<in> set xs \<or> (d, p) \<in> R\<^sup>*)"

lemma order_invD:
  assumes "order_inv R stack states res"
  shows "distinct res" "set res = {p. states p = Some Ordered}"
    "(p, True) \<in> set stack \<longleftrightarrow> states p = Some Visiting"
    "distinct (filter snd stack)"
    "states p = Some Visiting \<Longrightarrow> (q, b) \<in> above p stack \<Longrightarrow> (p, q) \<in> R\<^sup>+"
    "states p = Some Visiting \<Longrightarrow> (p, d) \<in> R \<Longrightarrow>
       states d = Some Ordered \<or> (\<exists>b. (d, b) \<in> above p stack) \<or> (d, p) \<in> R\<^sup>*"
    "res = xs @ p # ys \<Longrightarrow> (p, d) \<in> R \<Longrightarrow> d \<in> set xs \<or> (d, p) \<in> R\<^sup>*"
  using assms unfolding order_inv_def by blast+

lemma append_snoc_cases:
  "res @ [q] = xs @ p # ys \<Longrightarrow> (xs = res \<and> p = q \<and> ys = []) \<or> (\<exists>zs. ys = zs @ [q] \<and> res = xs @ p # zs)"
  by (cases ys rule: rev_cases) auto

text \<open>The package on top is finished.\<close>

lemma order_inv_finish:
  assumes inv: "order_inv R ((p, True) # stack) states res"
  shows "order_inv R stack (states(p \<mapsto> Ordered)) (res @ [p])"
proof -
  note D = order_invD [OF inv]
  have p: "states p = Some Visiting" using D(3) [of p] by simp
  have notin: "(p, True) \<notin> set stack" using D(4) by auto
  have last: "(p, d) \<in> R \<Longrightarrow> d \<in> set res \<or> (d, p) \<in> R\<^sup>*" for d
    using D(6) [OF p, of d] D(2) by auto
  show ?thesis
    unfolding order_inv_def
  proof (intro conjI allI impI)
    show "distinct (res @ [p])" using D(1,2) p by auto
    show "set (res @ [p]) = {q. (states(p \<mapsto> Ordered)) q = Some Ordered}" using D(2) by auto
    show "((q, True) \<in> set stack) = ((states(p \<mapsto> Ordered)) q = Some Visiting)" for q
      using D(3) [of q] notin by auto
    show "distinct (filter snd stack)" using D(4) by simp
    show "(q, x) \<in> R\<^sup>+" if "(states(p \<mapsto> Ordered)) q = Some Visiting" "(x, b) \<in> above q stack" for q x b
      using D(5) [of q x b] that by (auto split: if_splits)
    show "(states(p \<mapsto> Ordered)) d = Some Ordered \<or> (\<exists>b. (d, b) \<in> above q stack) \<or> (d, q) \<in> R\<^sup>*"
      if "(states(p \<mapsto> Ordered)) q = Some Visiting" "(q, d) \<in> R" for q d
      using D(6) [of q d] that by (auto split: if_splits)
    show "d \<in> set xs \<or> (d, q) \<in> R\<^sup>*" if "res @ [p] = xs @ q # ys" "(q, d) \<in> R" for xs q ys d
      using append_snoc_cases [OF that(1)] D(7) that(2) last by blast
  qed
qed

text \<open>A package that is already marked is skipped.\<close>

lemma order_inv_skip:
  assumes inv: "order_inv R ((p, False) # stack) states res" and p: "states p \<noteq> None"
  shows "order_inv R stack states res"
proof -
  note D = order_invD [OF inv]
  have G: "(q, True) \<in> set stack \<longleftrightarrow> states q = Some Visiting" for q
    using D(3) [of q] by simp
  have reach: "states q = Some Visiting \<Longrightarrow> (x, b) \<in> above q stack \<Longrightarrow> (q, x) \<in> R\<^sup>+" for q x b
    using D(5) [of q x b] by auto
  have dep: "states d = Some Ordered \<or> (\<exists>b. (d, b) \<in> above q stack) \<or> (d, q) \<in> R\<^sup>*"
    if q: "states q = Some Visiting" "(q, d) \<in> R" for q d
  proof (cases "d = p \<and> states p = Some Visiting")
    case True
    then show ?thesis
      using above_linear [of p stack q] G q(1) reach [of p q True] by (auto dest: trancl_into_rtrancl)
  next
    case False
    then show ?thesis using D(6) [OF q] p by (auto split: if_splits) (metis mark.exhaust)
  qed
  show ?thesis
    unfolding order_inv_def using D(1,2,4,7) G reach dep by simp
qed

text \<open>A new package is opened: its dependencies go on top of the entry that finishes it.\<close>

lemma order_inv_open:
  assumes inv: "order_inv R ((p, False) # stack) states res" and p: "states p = None"
    and ds: "\<And>d. (p, d) \<in> R \<longleftrightarrow> d \<in> set ds"
  shows "order_inv R (map (\<lambda>d. (d, False)) ds @ (p, True) # stack) (states(p \<mapsto> Visiting)) res"
proof -
  note D = order_invD [OF inv]
  have G: "(q, True) \<in> set stack \<longleftrightarrow> states q = Some Visiting" for q
    using D(3) [of q] by simp
  have edge: "d \<in> set ds \<Longrightarrow> (p, d) \<in> R\<^sup>+" for d using ds by auto
  have old: "states q = Some Visiting \<Longrightarrow> (q, p) \<in> R\<^sup>+" for q
    using D(5) [of q p False] p by simp
  have F: "filter snd (map (\<lambda>d. (d, False)) ds) = []" by (induction ds) auto
  show ?thesis
    unfolding order_inv_def
  proof (intro conjI allI impI)
    show "distinct res" using D(1) .
    show "set res = {q. (states(p \<mapsto> Visiting)) q = Some Ordered}" using D(2) p by auto
    show "((q, True) \<in> set (map (\<lambda>d. (d, False)) ds @ (p, True) # stack)) =
        ((states(p \<mapsto> Visiting)) q = Some Visiting)" for q
      using G [of q] by auto
    show "distinct (filter snd (map (\<lambda>d. (d, False)) ds @ (p, True) # stack))"
      using D(4) F G [of p] p by auto
    show "(q, x) \<in> R\<^sup>+" if "(states(p \<mapsto> Visiting)) q = Some Visiting"
      "(x, b) \<in> above q (map (\<lambda>d. (d, False)) ds @ (p, True) # stack)" for q x b
      using that edge [of x] old [of q] D(5) [of q x b] by (auto split: if_splits intro: trancl_trans)
    show "(states(p \<mapsto> Visiting)) d = Some Ordered \<or>
        (\<exists>b. (d, b) \<in> above q (map (\<lambda>d. (d, False)) ds @ (p, True) # stack)) \<or> (d, q) \<in> R\<^sup>*"
      if "(states(p \<mapsto> Visiting)) q = Some Visiting" "(q, d) \<in> R" for q d
      using that ds [of d] D(6) [of q d] p by (auto split: if_splits)
    show "d \<in> set xs \<or> (d, q) \<in> R\<^sup>*" if "res = xs @ q # ys" "(q, d) \<in> R" for xs q ys d
      using D(7) [OF that] .
  qed
qed

lemma order_loop_inv:
  assumes "order_loop graph packages stack states res = (states', res')"
    "order_inv (dep_rel graph packages) stack states res"
    "fst ` set stack \<subseteq> set packages" "dom states \<subseteq> set packages"
  shows "order_inv (dep_rel graph packages) [] states' res' \<and>
    dom states \<union> fst ` set stack \<subseteq> dom states' \<and> dom states' \<subseteq> set packages"
  using assms
proof (induction graph packages stack states res arbitrary: states' res' rule: order_loop.induct)
  case (2 graph packages p stack states res)
  have p: "states p = Some Visiting" using order_invD(3) [OF 2(4), of p] by simp
  have "order_loop graph packages stack (states(p \<mapsto> Ordered)) (res @ [p]) = (states', res')"
    using 2(3) p by simp
  from 2(1) [OF p this order_inv_finish [OF 2(4)]] 2(5,6) show ?case
    unfolding dom_fun_upd by simp
next
  case (3 graph packages p stack states res)
  show ?case
  proof (cases "states p")
    case None
    let ?ds = "order_dependencies graph packages p"
    have "order_loop graph packages (map (\<lambda>d. (d, False)) ?ds @ (p, True) # stack)
        (states(p \<mapsto> Visiting)) res = (states', res')"
      using 3(4) None by simp
    from 3(1) [OF None this order_inv_open [OF 3(5) None]] 3(6,7) show ?thesis
      unfolding dom_fun_upd by (simp add: dep_rel_def order_dependencies_set image_Un image_image)
  next
    case (Some m)
    then show ?thesis
      using 3(2,3) [OF Some _ _ order_inv_skip [OF 3(5)]] 3(4,6,7) by (cases m) auto
  qed
qed auto

lemma order_roots_inv:
  assumes "order_roots graph packages roots states res = (states', res')"
    "order_inv (dep_rel graph packages) [] states res"
    "set roots \<subseteq> set packages" "dom states \<subseteq> set packages"
  shows "order_inv (dep_rel graph packages) [] states' res' \<and>
    dom states \<union> set roots \<subseteq> dom states' \<and> dom states' \<subseteq> set packages"
  using assms
proof (induction roots arbitrary: states res)
  case (Cons root roots)
  show ?case
  proof (cases "states root = Some Ordered")
    case True
    then show ?thesis using Cons.IH [of states res] Cons.prems by auto
  next
    case False
    obtain s1 r1 where loop: "order_loop graph packages [(root, False)] states res = (s1, r1)"
      by (cases "order_loop graph packages [(root, False)] states res")
    have "order_inv (dep_rel graph packages) [(root, False)] states res"
      using Cons.prems(2) unfolding order_inv_def by auto
    from order_loop_inv [OF loop this] Cons.prems
    have s1: "order_inv (dep_rel graph packages) [] s1 r1" "dom states \<union> {root} \<subseteq> dom s1"
        "dom s1 \<subseteq> set packages"
      by auto
    have "order_roots graph packages roots s1 r1 = (states', res')"
      using Cons.prems(1) False loop by (simp del: order_loop.simps)
    from Cons.IH [OF this s1(1) _ s1(3)] Cons.prems(3) s1(2) show ?thesis
      by (simp del: domIff) blast
  qed
qed auto

lemma topological_sort_inv:
  obtains states where
    "order_inv (dep_rel graph packages) [] states (topological_sort graph packages)"
    "dom states = set packages"
proof -
  let ?run = "order_roots graph packages (sort (remdups packages)) (\<lambda>_. None) []"
  obtain m res where run: "?run = (m, res)" by (cases ?run)
  have "order_inv (dep_rel graph packages) [] (\<lambda>_. None) []" by (simp add: order_inv_def)
  from order_roots_inv [OF run this]
  have "order_inv (dep_rel graph packages) [] m res" "dom m = set packages" by auto
  then show ?thesis using that run by (simp add: topological_sort_def)
qed

lemma topological_sort_distinct: "distinct (topological_sort graph packages)"
  by (rule topological_sort_inv [of graph packages]) (auto dest: order_invD(1))

lemma topological_sort_set [simp]: "set (topological_sort graph packages) = set packages"
proof (rule topological_sort_inv [of graph packages])
  fix m
  assume inv: "order_inv (dep_rel graph packages) [] m (topological_sort graph packages)"
    and dom: "dom m = set packages"
  have "m p = Some Ordered \<longleftrightarrow> p \<in> dom m" for p
    using order_invD(3) [OF inv, of p] by (cases "m p") (auto intro: mark.exhaust)
  then show ?thesis using order_invD(2) [OF inv] dom by auto
qed

lemma topological_sort_order:
  assumes "topological_sort graph packages = xs @ p # ys" "(p, d) \<in> dep_rel graph packages"
  shows "d \<in> set xs \<or> (d, p) \<in> (dep_rel graph packages)\<^sup>*"
  by (rule topological_sort_inv [of graph packages]) (auto dest: order_invD(7) [OF _ assms])

lemma dep_rel_iff:
  "(p, d) \<in> dep_rel graph packages \<longleftrightarrow> d \<in> set packages \<and> (\<exists>ds. map_of graph p = Some ds \<and> d \<in> set ds)"
  by (auto simp: dep_rel_def order_dependencies_set split: option.splits)

section \<open>Properties\<close>

text \<open>
  C2: for every graph, cyclic or not, the sort terminates with each package of the plan exactly
  once and no other; and a package stands before one of its dependencies only when that dependency
  depends on it in turn, so that no order could satisfy both.
\<close>

theorem topological_sort_correct:
  "distinct (topological_sort graph packages) \<and>
   set (topological_sort graph packages) = set packages \<and>
   (\<forall>xs p ys d ds. topological_sort graph packages = xs @ p # ys \<longrightarrow>
      map_of graph p = Some ds \<longrightarrow> d \<in> set ds \<inter> set packages \<longrightarrow>
      d \<in> set xs \<or> (d, p) \<in> (dep_rel graph packages)\<^sup>*)"
  using topological_sort_distinct topological_sort_order by (auto simp: dep_rel_iff)

theorem topological_sort_correct_witness:
  "''b'' \<in> set [''c'', ''b''] \<and> topological_sort
     [(''a'', [''b'']), (''b'', [''c'']), (''c'', [''d'', ''b'']), (''d'', [])] [''a'', ''d'', ''c'', ''b'']
   = [''d'', ''c'', ''b''] @ ''a'' # []"
proof -
  let ?g = "[(''a'', [''b'']), (''b'', [''c'']), (''c'', [''d'', ''b'']), (''d'', [])]"
  have run: "topological_sort ?g [''a'', ''d'', ''c'', ''b''] = [''d'', ''c'', ''b''] @ ''a'' # []"
    by code_simp
  have "''b'' \<in> set [''d'', ''c'', ''b''] \<or>
      (''b'', ''a'') \<in> (dep_rel ?g [''a'', ''d'', ''c'', ''b''])\<^sup>*"
    using topological_sort_correct [of ?g "[''a'', ''d'', ''c'', ''b'']"] run by force
  then show ?thesis using run by simp
qed

end
