(* ===== verification/Deb_Resolver.thy ===== *)
theory Deb_Resolver
  imports Deb_Version Deb_Order "HOL-Library.AList"
begin

text \<open>
  \<^verbatim>\<open>package_managers/debian_db/resolver.rs\<close>: the dependency grammar, the choice of a target for a
  dependency, the closure walk, the dependency graph, the topological order, the check of the
  projected state and \<^verbatim>\<open>resolve\<close> itself. A \<^verbatim>\<open>HashMap\<close> is an association list, a \<^verbatim>\<open>HashSet\<close> a list
  without duplicates whose order is the iteration order, so a statement for every resolver covers
  every iteration order. The repository index, the installed list and the target architecture are
  arguments.
\<close>

section \<open>Data\<close>

record debian_package =
  dp_name :: string
  dp_version :: string
  dp_description :: string
  dp_section :: string
  dp_priority :: string
  dp_installed_size :: "64 word"
  dp_maintainer :: string
  dp_architecture :: string
  dp_depends :: "string list"
  dp_filename :: string
  dp_size :: "64 word"
  dp_sha256 :: string
  dp_homepage :: string
  dp_component :: string
  dp_suite :: string
  dp_source_key :: string

record dpkg_package_entry =
  de_name :: string
  de_version :: string
  de_description :: string
  de_architecture :: string
  de_is_explicit :: bool

datatype version_op = Eq | Ge | Gt | Le | Lt

record version_constraint =
  vc_op :: version_op
  vc_version :: string

datatype dependency =
  Dependency (dep_name: string) (dep_constraint: "version_constraint option")
    (dep_alternatives: "dependency list")

datatype dep_target = Installed | Available string

record resolution_result =
  rr_to_install :: "string list"
  rr_to_upgrade :: "(string \<times> string \<times> string) list"
  rr_to_remove :: "string list"
  rr_download_size :: "64 word"
  rr_installed_size :: "64 word"

record resolver =
  rs_arch :: string
  rs_available :: "(string \<times> debian_package) list"
  rs_installed :: "(string \<times> string) list"
  rs_selected :: "string list"
  rs_dep_graph :: "(string \<times> string list) list"

datatype parse_error =
    EmptyDependencyName
  | UnsupportedQualifier string
  | MissingClosingParen
  | StrayClosingParen
  | UnsupportedConstraint string
  | EmptyDependencyVersion

datatype resolve_error =
    PackageNotFound string "string list"
  | NotInRepository string
  | InvalidDependency string string parse_error
  | CannotSatisfy string string dependency
  | ProjectedUnsatisfied string string
  | SourceUnavailable

abbreviation available :: "resolver \<Rightarrow> string \<rightharpoonup> debian_package" where
  "available r \<equiv> map_of (rs_available r)"

abbreviation installed :: "resolver \<Rightarrow> string \<rightharpoonup> string" where
  "installed r \<equiv> map_of (rs_installed r)"

section \<open>The dependency grammar\<close>

text \<open>\<^verbatim>\<open>std::env::consts::ARCH\<close> is the argument.\<close>

definition debian_arch :: "string \<Rightarrow> string" where
  "debian_arch arch =
     (if arch = ''x86_64'' then ''amd64''
      else if arch = ''aarch64'' then ''arm64''
      else if arch = ''x86'' then ''i386''
      else if arch = ''arm'' then ''armhf''
      else arch)"

definition parse_version_constraint :: "string \<Rightarrow> (parse_error, version_constraint) result" where
  "parse_version_constraint s0 =
     (let s = trim s0 in
      rbind
        (case strip_prefix ''>='' s of Some v \<Rightarrow> Inr (Ge, v) | None \<Rightarrow>
         (case strip_prefix ''>>'' s of Some v \<Rightarrow> Inr (Gt, v) | None \<Rightarrow>
         (case strip_prefix ''<='' s of Some v \<Rightarrow> Inr (Le, v) | None \<Rightarrow>
         (case strip_prefix ''<<'' s of Some v \<Rightarrow> Inr (Lt, v) | None \<Rightarrow>
         (case strip_prefix ''='' s of Some v \<Rightarrow> Inr (Eq, v) | None \<Rightarrow>
         (case strip_prefix ''>'' s of Some v \<Rightarrow> Inr (Ge, v) | None \<Rightarrow>
         (case strip_prefix ''<'' s of Some v \<Rightarrow> Inr (Le, v) | None \<Rightarrow>
          Inl (UnsupportedConstraint s))))))))
        (\<lambda>(op, v). let version = trim v in
          rbind (ensure (version \<noteq> []) EmptyDependencyVersion) (\<lambda>_.
          Inr \<lparr>vc_op = op, vc_version = version\<rparr>)))"

definition parse_dependency_name :: "string \<Rightarrow> string \<Rightarrow> (parse_error, string) result" where
  "parse_dependency_name arch raw =
     (let raw_name = trim raw;
          (name, qualifier) = (case split_once CHR '':'' raw_name of
             None \<Rightarrow> (raw_name, None) | Some (n, q) \<Rightarrow> (n, Some q)) in
      rbind (ensure (name \<noteq> []) EmptyDependencyName) (\<lambda>_.
      rbind (case qualifier of None \<Rightarrow> Inr ()
             | Some q \<Rightarrow> ensure (q = ''native'' \<or> q = debian_arch arch) (UnsupportedQualifier q)) (\<lambda>_.
      Inr name)))"

definition parse_single_dep :: "string \<Rightarrow> string \<Rightarrow> (parse_error, dependency) result" where
  "parse_single_dep arch s =
     (case split_once CHR ''('' s of
        Some (before, remainder) \<Rightarrow>
          rbind (parse_dependency_name arch (trim before)) (\<lambda>name.
          rbind (case split_once CHR '')'' remainder of
                   None \<Rightarrow> Inl MissingClosingParen | Some (c, _) \<Rightarrow> Inr c) (\<lambda>constraint_str.
          rbind (parse_version_constraint constraint_str) (\<lambda>constraint.
          Inr (Dependency name (Some constraint) []))))
      | None \<Rightarrow>
          rbind (ensure (\<not> str_contains '')'' s) StrayClosingParen) (\<lambda>_.
          rbind (parse_dependency_name arch s) (\<lambda>name.
          Inr (Dependency name None []))))"

definition parse_dependency :: "string \<Rightarrow> string \<Rightarrow> (parse_error, dependency) result" where
  "parse_dependency arch s =
     (let parts = map trim (split_on (\<lambda>c. c = CHR ''|'') (trim s)) in
      rbind (parse_single_dep arch (case parts of [] \<Rightarrow> [] | p # _ \<Rightarrow> p)) (\<lambda>d.
      rbind (map_result (parse_single_dep arch) (tl parts)) (\<lambda>alts.
      Inr (Dependency (dep_name d) (dep_constraint d) alts))))"

section \<open>Building a resolver\<close>

definition installed_versions_for_resolver ::
  "string \<Rightarrow> dpkg_package_entry list \<Rightarrow> (string \<times> string) list" where
  "installed_versions_for_resolver arch entries =
     fold (\<lambda>p versions.
       if de_architecture p = debian_arch arch then AList.update (de_name p) (de_version p) versions
       else if de_architecture p = ''all'' then
         (case map_of versions (de_name p) of
            None \<Rightarrow> AList.update (de_name p) (de_version p) versions
          | Some _ \<Rightarrow> versions)
       else versions) entries []"

definition resolver_new ::
  "string \<Rightarrow> (resolve_error, debian_package list) result \<Rightarrow> (resolve_error, dpkg_package_entry list) result \<Rightarrow>
   (resolve_error, resolver) result" where
  "resolver_new arch candidates installed_fast =
     rbind candidates (\<lambda>packages.
     rbind installed_fast (\<lambda>installed_list.
     Inr \<lparr>rs_arch = arch,
       rs_available = fold (\<lambda>p. AList.update (dp_name p) p) packages [],
       rs_installed = installed_versions_for_resolver arch installed_list,
       rs_selected = [], rs_dep_graph = []\<rparr>))"

definition similarity_prefix :: "string \<Rightarrow> string" where
  "similarity_prefix name = take 3 name"

definition add_package :: "string \<Rightarrow> resolver \<Rightarrow> (resolve_error, resolver) result" where
  "add_package name r =
     (if available r name = None then
        Inl (PackageNotFound name (take 5 (filter (\<lambda>k.
          prefix (similarity_prefix name) k \<or> str_contains name k \<or> str_contains k name)
          (map fst (rs_available r)))))
      else Inr (r\<lparr>rs_selected := List.insert name (rs_selected r)\<rparr>))"

section \<open>Choosing a target\<close>

definition version_satisfies :: "string \<Rightarrow> version_constraint \<Rightarrow> bool" where
  "version_satisfies v c =
     (let ord = compare_deb_versions v (vc_version c) in
      case vc_op c of
        Eq \<Rightarrow> ord = Equal
      | Ge \<Rightarrow> ord \<noteq> Less
      | Gt \<Rightarrow> ord = Greater
      | Le \<Rightarrow> ord \<noteq> Greater
      | Lt \<Rightarrow> ord = Less)"

text \<open>\<^verbatim>\<open>version.is_some_and(|v| constraint.is_none_or(|c| version_satisfies(v, c)))\<close>\<close>

definition candidate_ok :: "string option \<Rightarrow> dependency \<Rightarrow> bool" where
  "candidate_ok version c =
     (case version of
        None \<Rightarrow> False
      | Some v \<Rightarrow> (case dep_constraint c of None \<Rightarrow> True | Some k \<Rightarrow> version_satisfies v k))"

definition candidate_target :: "resolver \<Rightarrow> dependency \<Rightarrow> dep_target option" where
  "candidate_target r c =
     (if candidate_ok (installed r (dep_name c)) c then Some Installed
      else if candidate_ok (map_option dp_version (available r (dep_name c))) c
        then Some (Available (dep_name c))
      else None)"

fun find_map :: "('a \<Rightarrow> 'b option) \<Rightarrow> 'a list \<Rightarrow> 'b option" where
  "find_map f [] = None"
| "find_map f (x # xs) = (case f x of Some y \<Rightarrow> Some y | None \<Rightarrow> find_map f xs)"

definition dependency_candidates :: "dependency \<Rightarrow> dependency list" where
  "dependency_candidates d = d # dep_alternatives d"

definition dependency_target :: "resolver \<Rightarrow> dependency \<Rightarrow> dep_target option" where
  "dependency_target r dep = find_map (candidate_target r) (dependency_candidates dep)"

definition resolve_dependency_target :: "resolver \<Rightarrow> dependency \<Rightarrow> (dependency, string option) result" where
  "resolve_dependency_target r dep =
     (case dependency_target r dep of
        Some Installed \<Rightarrow> Inr None
      | Some (Available name) \<Rightarrow> Inr (Some name)
      | None \<Rightarrow> Inl dep)"

section \<open>The closure of a package\<close>

type_synonym work_stack = "(string \<times> bool) list"

text \<open>
  The work stack with its top first. The dependencies are pushed from the last to the first, above
  the entry that finishes the package.
\<close>

fun push_dependencies ::
  "resolver \<Rightarrow> string \<Rightarrow> string list \<Rightarrow> work_stack \<Rightarrow> (resolve_error, work_stack) result" where
  "push_dependencies r p [] stack = Inr stack"
| "push_dependencies r p (raw # raws) stack =
     (case parse_dependency (rs_arch r) raw of
        Inl e \<Rightarrow> Inl (InvalidDependency raw p e)
      | Inr dep \<Rightarrow> (case resolve_dependency_target r dep of
          Inr (Some name) \<Rightarrow> push_dependencies r p raws ((name, False) # stack)
        | Inr None \<Rightarrow> push_dependencies r p raws stack
        | Inl d \<Rightarrow> Inl (CannotSatisfy raw p d)))"

function resolve_loop ::
  "resolver \<Rightarrow> work_stack \<Rightarrow> string set \<Rightarrow> string list \<Rightarrow> (resolve_error, string set \<times> string list) result" where
  "resolve_loop r [] visited to_install = Inr (visited, to_install)"
| "resolve_loop r ((p, True) # stack) visited to_install =
     resolve_loop r stack visited (to_install @ [p])"
| "resolve_loop r ((p, False) # stack) visited to_install =
     (if p \<in> visited then resolve_loop r stack visited to_install
      else (case available r p of
          None \<Rightarrow> Inl (NotInRepository p)
        | Some pkg \<Rightarrow>
            rbind (push_dependencies r p (rev (dp_depends pkg)) ((p, True) # stack))
              (\<lambda>stack'. resolve_loop r stack' (insert p visited) to_install)))"
  by pat_completeness auto
termination
proof (relation "(\<lambda>(r, stack, visited, _). card (fst ` set (rs_available r) - visited)) <*mlex*>
    measure (\<lambda>(r, stack, visited, _). length stack)")
  show "wf ((\<lambda>(r, stack, visited, _). card (fst ` set (rs_available r) - visited)) <*mlex*>
    measure (\<lambda>(r, stack, visited, _). length stack))"
    by (intro wf_mlex) simp
next
  fix r p stack visited to_install pkg stack'
  assume "p \<notin> visited" "available r p = Some pkg"
  moreover from this have "p \<in> fst ` set (rs_available r)" by (force dest: map_of_SomeD)
  ultimately have "fst ` set (rs_available r) - insert p visited \<subset> fst ` set (rs_available r) - visited"
    by blast
  then have "card (fst ` set (rs_available r) - insert p visited) < card (fst ` set (rs_available r) - visited)"
    by (intro psubset_card_mono) auto
  then show "((r, stack', insert p visited, to_install), r, (p, False) # stack, visited, to_install)
      \<in> (\<lambda>(r, stack, visited, _). card (fst ` set (rs_available r) - visited)) <*mlex*>
        measure (\<lambda>(r, stack, visited, _). length stack)"
    by (auto intro: mlex_less)
qed (auto intro: mlex_leq)

definition resolve_package ::
  "resolver \<Rightarrow> string \<Rightarrow> string set \<Rightarrow> string list \<Rightarrow> (resolve_error, string set \<times> string list) result" where
  "resolve_package r name visited to_install = resolve_loop r [(name, False)] visited to_install"

section \<open>The dependency graph\<close>

fun dependency_edges ::
  "resolver \<Rightarrow> string \<Rightarrow> string list \<Rightarrow> string list \<Rightarrow> (resolve_error, string list) result" where
  "dependency_edges r name [] dependencies = Inr dependencies"
| "dependency_edges r name (raw # raws) dependencies =
     (case parse_dependency (rs_arch r) raw of
        Inl e \<Rightarrow> Inl (InvalidDependency raw name e)
      | Inr dep \<Rightarrow> (case dependency_target r dep of
          Some (Available d) \<Rightarrow> dependency_edges r name raws (List.insert d dependencies)
        | _ \<Rightarrow> dependency_edges r name raws dependencies))"

text \<open>What was recorded before an error stays recorded.\<close>

fun record_dependency_edges :: "resolver \<Rightarrow> string list \<Rightarrow> resolver \<times> (resolve_error, unit) result" where
  "record_dependency_edges r [] = (r, Inr ())"
| "record_dependency_edges r (name # names) =
     (if map_of (rs_dep_graph r) name \<noteq> None then record_dependency_edges r names
      else (case available r name of
          None \<Rightarrow> record_dependency_edges r names
        | Some pkg \<Rightarrow> (case dependency_edges r name (dp_depends pkg) [] of
            Inl e \<Rightarrow> (r, Inl e)
          | Inr ds \<Rightarrow> record_dependency_edges
              (r\<lparr>rs_dep_graph := AList.update name ds (rs_dep_graph r)\<rparr>) names)))"

section \<open>The projected state\<close>

definition projected_versions :: "resolver \<Rightarrow> string list \<Rightarrow> (string \<times> string) list" where
  "projected_versions r packages =
     fold (\<lambda>name projected. case available r name of
         None \<Rightarrow> projected | Some pkg \<Rightarrow> AList.update name (dp_version pkg) projected)
       packages (rs_installed r)"

definition validate_projected_dependencies :: "resolver \<Rightarrow> string list \<Rightarrow> (resolve_error, unit) result" where
  "validate_projected_dependencies r packages =
     (let projected = projected_versions r packages in
      for_result (\<lambda>name. case available r name of
          None \<Rightarrow> Inr ()
        | Some pkg \<Rightarrow> for_result (\<lambda>raw.
            (case parse_dependency (rs_arch r) raw of
               Inl e \<Rightarrow> Inl (InvalidDependency raw name e)
             | Inr dep \<Rightarrow> ensure
                 (list_ex (\<lambda>c. candidate_ok (map_of projected (dep_name c)) c) (dependency_candidates dep))
                 (ProjectedUnsatisfied raw name))) (dp_depends pkg)) packages)"

section \<open>Resolution\<close>

fun resolve_sequential ::
  "resolver \<Rightarrow> string list \<Rightarrow> string set \<Rightarrow> string list \<Rightarrow> (resolve_error, string list) result" where
  "resolve_sequential r [] visited to_install = Inr to_install"
| "resolve_sequential r (n # ns) visited to_install =
     rbind (resolve_package r n visited to_install) (\<lambda>(visited', to_install').
     resolve_sequential r ns visited' to_install')"

definition merge_results :: "string list list \<Rightarrow> string list" where
  "merge_results results =
     fold (\<lambda>pkg to_install. if pkg \<in> set to_install then to_install else to_install @ [pkg]) (concat results) []"

definition collect_closure :: "resolver \<Rightarrow> (resolve_error, string list) result" where
  "collect_closure r =
     (if length (rs_selected r) > 1
      then rbind (map_result (\<lambda>n. rbind (resolve_package r n {} []) (\<lambda>(_, l). Inr l)) (rs_selected r))
             (\<lambda>results. Inr (merge_results results))
      else resolve_sequential r (rs_selected r) {} [])"

fun plan_changes :: "resolver \<Rightarrow> string list \<Rightarrow> resolution_result \<Rightarrow> resolution_result" where
  "plan_changes r [] acc = acc"
| "plan_changes r (name # names) acc =
     plan_changes r names
       (case available r name of
          None \<Rightarrow> acc
        | Some pkg \<Rightarrow> (case installed r name of
            Some v \<Rightarrow>
              if compare_deb_versions v (dp_version pkg) = Less then
                acc\<lparr>rr_to_upgrade := rr_to_upgrade acc @ [(name, v, dp_version pkg)],
                    rr_download_size := rr_download_size acc + dp_size pkg,
                    rr_installed_size := rr_installed_size acc + dp_installed_size pkg\<rparr>
              else acc
          | None \<Rightarrow>
              acc\<lparr>rr_to_install := rr_to_install acc @ [name],
                  rr_download_size := rr_download_size acc + dp_size pkg,
                  rr_installed_size := rr_installed_size acc + dp_installed_size pkg\<rparr>))"

definition resolve :: "resolver \<Rightarrow> resolver \<times> (resolve_error, resolution_result) result" where
  "resolve r =
     (case collect_closure r of
        Inl e \<Rightarrow> (r, Inl e)
      | Inr to_install \<Rightarrow>
          (case record_dependency_edges r to_install of
             (r', Inl e) \<Rightarrow> (r', Inl e)
           | (r', Inr _) \<Rightarrow>
               let sorted = topological_sort (rs_dep_graph r') to_install in
               (r', rbind (validate_projected_dependencies r' sorted) (\<lambda>_.
                 Inr (plan_changes r' sorted
                   \<lparr>rr_to_install = [], rr_to_upgrade = [], rr_to_remove = [],
                    rr_download_size = 0, rr_installed_size = 0\<rparr>)))))"

section \<open>The closure is exactly what is reachable\<close>

definition parsed :: "resolver \<Rightarrow> string \<Rightarrow> dependency \<Rightarrow> bool" where
  "parsed r raw dep \<longleftrightarrow> parse_dependency (rs_arch r) raw = Inr dep"

text \<open>The package's dependencies all parse and have a target, and the targets to install.\<close>

definition resolvable :: "resolver \<Rightarrow> string \<Rightarrow> bool" where
  "resolvable r p \<longleftrightarrow> (\<exists>pkg. available r p = Some pkg \<and>
     (\<forall>raw \<in> set (dp_depends pkg). \<exists>dep. parsed r raw dep \<and> dependency_target r dep \<noteq> None))"

definition needs :: "resolver \<Rightarrow> (string \<times> string) set" where
  "needs r = {(p, n). \<exists>pkg raw dep. available r p = Some pkg \<and> raw \<in> set (dp_depends pkg) \<and>
     parsed r raw dep \<and> dependency_target r dep = Some (Available n)}"

lemma resolve_dependency_target_cases:
  "resolve_dependency_target r dep = Inr None \<longleftrightarrow> dependency_target r dep = Some Installed"
  "resolve_dependency_target r dep = Inr (Some n) \<longleftrightarrow> dependency_target r dep = Some (Available n)"
  "resolve_dependency_target r dep = Inl d \<longleftrightarrow> dependency_target r dep = None \<and> d = dep"
  by (auto simp: resolve_dependency_target_def split: option.splits dep_target.splits)

lemma push_dependencies_Inr:
  "push_dependencies r p raws stack = Inr stack' \<Longrightarrow>
   (\<forall>raw \<in> set raws. \<exists>dep. parsed r raw dep \<and> dependency_target r dep \<noteq> None) \<and>
   (\<exists>names. stack' = map (\<lambda>n. (n, False)) names @ stack \<and>
      set names = {n. \<exists>raw \<in> set raws. \<exists>dep. parsed r raw dep \<and> dependency_target r dep = Some (Available n)})"
proof (induction raws arbitrary: stack)
  case (Cons raw raws)
  obtain dep t where d: "parse_dependency (rs_arch r) raw = Inr dep"
      "resolve_dependency_target r dep = Inr t"
    using Cons.prems by (auto split: sum.splits)
  let ?add = "case t of None \<Rightarrow> [] | Some n \<Rightarrow> [n]"
  have "push_dependencies r p raws (map (\<lambda>n. (n, False)) ?add @ stack) = Inr stack'"
    using Cons.prems d by (cases t) auto
  from Cons.IH [OF this] obtain names where IH:
      "\<forall>raw \<in> set raws. \<exists>dep. parsed r raw dep \<and> dependency_target r dep \<noteq> None"
      "stack' = map (\<lambda>n. (n, False)) names @ map (\<lambda>n. (n, False)) ?add @ stack"
      "set names = {n. \<exists>raw \<in> set raws. \<exists>dep. parsed r raw dep \<and> dependency_target r dep = Some (Available n)}"
    by auto
  have "stack' = map (\<lambda>n. (n, False)) (names @ ?add) @ stack" using IH(2) by simp
  moreover have "set (names @ ?add) =
      {n. \<exists>raw \<in> set (raw # raws). \<exists>dep. parsed r raw dep \<and> dependency_target r dep = Some (Available n)}"
    using IH(3) d by (cases t) (auto simp: parsed_def resolve_dependency_target_cases)
  moreover have "\<forall>raw \<in> set (raw # raws). \<exists>dep. parsed r raw dep \<and> dependency_target r dep \<noteq> None"
    using IH(1) d by (cases t) (auto simp: parsed_def resolve_dependency_target_cases)
  ultimately show ?case by blast
qed simp

lemma push_dependencies_total:
  "\<forall>raw \<in> set raws. \<exists>dep. parsed r raw dep \<and> dependency_target r dep \<noteq> None \<Longrightarrow>
   \<exists>stack'. push_dependencies r p raws stack = Inr stack'"
  by (induction raws arbitrary: stack)
    (auto simp: parsed_def resolve_dependency_target_def split: option.splits dep_target.splits)

lemma push_all_Inr:
  assumes p: "available r p = Some pkg"
    and push: "push_dependencies r p (rev (dp_depends pkg)) stack = Inr stack'"
  shows "resolvable r p \<and> (\<exists>names. stack' = map (\<lambda>n. (n, False)) names @ stack \<and> set names = needs r `` {p})"
proof -
  have "needs r `` {p} = {n. \<exists>raw \<in> set (dp_depends pkg). \<exists>dep. parsed r raw dep \<and>
      dependency_target r dep = Some (Available n)}"
    using p by (auto simp: needs_def)
  then show ?thesis
    using push_dependencies_Inr [OF push] p by (simp add: resolvable_def)
qed

text \<open>
  The invariant of the closure walk: the visited packages are the finished ones and the open ones,
  each once; each of them is resolvable and its targets are visited or waiting on the stack.
\<close>

definition closure_inv :: "resolver \<Rightarrow> work_stack \<Rightarrow> string set \<Rightarrow> string list \<Rightarrow> bool" where
  "closure_inv r stack visited plan \<longleftrightarrow>
     visited = set plan \<union> {p. (p, True) \<in> set stack} \<and>
     distinct plan \<and> distinct (filter snd stack) \<and>
     set plan \<inter> {p. (p, True) \<in> set stack} = {} \<and>
     (\<forall>p \<in> visited. resolvable r p) \<and>
     (\<forall>p n. p \<in> visited \<longrightarrow> (p, n) \<in> needs r \<longrightarrow> n \<in> visited \<or> (n, False) \<in> set stack)"

lemma closure_inv_finish:
  "closure_inv r ((p, True) # stack) visited plan \<Longrightarrow> closure_inv r stack visited (plan @ [p])"
  unfolding closure_inv_def by auto

lemma closure_inv_skip:
  "closure_inv r ((p, False) # stack) visited plan \<Longrightarrow> p \<in> visited \<Longrightarrow> closure_inv r stack visited plan"
  unfolding closure_inv_def by auto

lemma closure_inv_open:
  assumes inv: "closure_inv r ((p, False) # stack) visited plan" and new: "p \<notin> visited"
    and p: "available r p = Some pkg"
    and push: "push_dependencies r p (rev (dp_depends pkg)) ((p, True) # stack) = Inr stack'"
  shows "closure_inv r stack' (insert p visited) plan"
proof -
  obtain names where names: "stack' = map (\<lambda>n. (n, False)) names @ (p, True) # stack"
      "set names = needs r `` {p}" and "resolvable r p"
    using push_all_Inr [OF p push] by blast
  moreover have "filter snd (map (\<lambda>n. (n, False)) names) = []" by (induction names) auto
  moreover have "(p, True) \<notin> set stack" using inv new by (auto simp: closure_inv_def)
  ultimately show ?thesis
    using inv new unfolding closure_inv_def by auto
qed

lemma reach_trans:
  assumes "A \<subseteq> R\<^sup>* `` B" "C \<subseteq> R\<^sup>* `` A"
  shows "C \<subseteq> R\<^sup>* `` B"
proof
  fix x assume "x \<in> C"
  with assms(2) obtain a where a: "a \<in> A" "(a, x) \<in> R\<^sup>*" by auto
  with assms(1) obtain b where "b \<in> B" "(b, a) \<in> R\<^sup>*" by auto
  with a(2) show "x \<in> R\<^sup>* `` B" using rtrancl_trans [of b a R x] by auto
qed

lemma resolve_loop_closed:
  "resolve_loop r stack visited plan = Inr (visited', plan') \<Longrightarrow> closure_inv r stack visited plan \<Longrightarrow>
   closure_inv r [] visited' plan' \<and> visited \<subseteq> visited' \<and> fst ` set stack \<subseteq> visited' \<and>
   visited' \<subseteq> (needs r)\<^sup>* `` (visited \<union> fst ` set stack)"
proof (induction r stack visited plan arbitrary: visited' plan' rule: resolve_loop.induct)
  case (1 r visited plan)
  then show ?case by auto
next
  case (2 r p stack visited plan)
  have "p \<in> visited" using 2(3) by (auto simp: closure_inv_def)
  moreover have "resolve_loop r stack visited (plan @ [p]) = Inr (visited', plan')" using 2(2) by simp
  ultimately show ?case
    using 2(1) [OF _ closure_inv_finish [OF 2(3)]] by (auto simp: insert_absorb)
next
  case (3 r p stack visited plan)
  show ?case
  proof (cases "p \<in> visited")
    case True
    then have "resolve_loop r stack visited plan = Inr (visited', plan')" using 3(3) by simp
    from 3(1) [OF True this closure_inv_skip [OF 3(4) True]] True show ?thesis
      by (auto simp: insert_absorb)
  next
    case False
    obtain pkg where pkg: "available r p = Some pkg"
      using 3(3) False by (cases "available r p") auto
    obtain stack' where push: "push_dependencies r p (rev (dp_depends pkg)) ((p, True) # stack) = Inr stack'"
      and rec: "resolve_loop r stack' (insert p visited) plan = Inr (visited', plan')"
      using 3(3) False pkg by auto
    have IH: "closure_inv r [] visited' plan'" "insert p visited \<subseteq> visited'" "fst ` set stack' \<subseteq> visited'"
        "visited' \<subseteq> (needs r)\<^sup>* `` (insert p visited \<union> fst ` set stack')"
      using 3(2) [OF False pkg push rec closure_inv_open [OF 3(4) False pkg push]] by auto
    have new: "fst ` set stack' \<subseteq> insert p (fst ` set stack) \<union> needs r `` {p}" "fst ` set stack \<subseteq> fst ` set stack'"
      using push_all_Inr [OF pkg push] by auto
    have "insert p visited \<union> fst ` set stack' \<subseteq> (needs r)\<^sup>* `` (visited \<union> fst ` set ((p, False) # stack))"
      using new(1) by auto
    then have "visited' \<subseteq> (needs r)\<^sup>* `` (visited \<union> fst ` set ((p, False) # stack))"
      using IH(4) by (rule reach_trans)
    then show ?thesis using IH(1-3) new(2) by auto
  qed
qed

lemma reach_tail: "\<forall>p \<in> R\<^sup>* `` (fst ` set (e # stack)). P p \<Longrightarrow> \<forall>p \<in> R\<^sup>* `` (fst ` set stack). P p"
  by auto

lemma resolve_loop_total:
  "\<forall>p \<in> (needs r)\<^sup>* `` (fst ` set stack). resolvable r p \<Longrightarrow>
   \<exists>visited' plan'. resolve_loop r stack visited plan = Inr (visited', plan')"
proof (induction r stack visited plan rule: resolve_loop.induct)
  case (2 r p stack visited plan)
  then show ?case using 2(1) [OF reach_tail [OF 2(2)]] by simp
next
  case (3 r p stack visited plan)
  show ?case
  proof (cases "p \<in> visited")
    case True
    then show ?thesis using 3(1) [OF True reach_tail [OF 3(3)]] by simp
  next
    case False
    have "resolvable r p" using 3(3) by auto
    then obtain pkg where pkg: "available r p = Some pkg"
        "\<forall>raw \<in> set (dp_depends pkg). \<exists>dep. parsed r raw dep \<and> dependency_target r dep \<noteq> None"
      by (auto simp: resolvable_def)
    then obtain stack' where push: "push_dependencies r p (rev (dp_depends pkg)) ((p, True) # stack) = Inr stack'"
      using push_dependencies_total [of "rev (dp_depends pkg)" r p] by auto
    have "fst ` set stack' \<subseteq> insert p (fst ` set stack) \<union> needs r `` {p}"
      using push_all_Inr [OF pkg(1) push] by auto
    also have "\<dots> \<subseteq> (needs r)\<^sup>* `` (fst ` set ((p, False) # stack))" by auto
    finally have "fst ` set stack' \<subseteq> (needs r)\<^sup>* `` (fst ` set ((p, False) # stack))" .
    then have "(needs r)\<^sup>* `` (fst ` set stack') \<subseteq> (needs r)\<^sup>* `` (fst ` set ((p, False) # stack))"
      by (rule reach_trans) simp
    then have "\<forall>q \<in> (needs r)\<^sup>* `` (fst ` set stack'). resolvable r q"
      using 3(3) by blast
    from 3(2) [OF False pkg(1) push this] show ?thesis using False pkg(1) push by auto
  qed
qed auto

lemma closure_inv_start: "closure_inv r [(name, False)] {} []"
  by (simp add: closure_inv_def)

lemma closed_contains_reach:
  assumes "closure_inv r [] visited plan" "(a, b) \<in> (needs r)\<^sup>*" "a \<in> visited"
  shows "b \<in> visited"
  using assms(2,3) by (induction rule: rtrancl_induct) (use assms(1) in \<open>auto simp: closure_inv_def\<close>)

lemma resolve_package_Inr:
  assumes "resolve_package r name {} [] = Inr (visited, plan)"
  shows "visited = set plan \<and> distinct plan \<and> set plan = (needs r)\<^sup>* `` {name} \<and>
    (\<forall>p \<in> set plan. resolvable r p)"
proof -
  note C = resolve_loop_closed [OF assms [unfolded resolve_package_def] closure_inv_start]
  have "(needs r)\<^sup>* `` {name} \<subseteq> visited"
    using C closed_contains_reach [of r visited plan name] by auto
  then show ?thesis using C by (auto simp: closure_inv_def)
qed

lemma resolve_package_ok_iff:
  "is_ok (resolve_package r name {} []) \<longleftrightarrow> (\<forall>p \<in> (needs r)\<^sup>* `` {name}. resolvable r p)"
proof
  assume "is_ok (resolve_package r name {} [])"
  then obtain v l where "resolve_package r name {} [] = Inr (v, l)"
    by (auto simp: is_ok_def split: sum.splits)
  then show "\<forall>p \<in> (needs r)\<^sup>* `` {name}. resolvable r p" using resolve_package_Inr by blast
next
  assume "\<forall>p \<in> (needs r)\<^sup>* `` {name}. resolvable r p"
  then have "\<forall>p \<in> (needs r)\<^sup>* `` (fst ` set [(name, False)]). resolvable r p" by simp
  from resolve_loop_total [OF this, of "{}" "[]"] show "is_ok (resolve_package r name {} [])"
    by (auto simp: resolve_package_def is_ok_def simp del: resolve_loop.simps)
qed

section \<open>The plan of a resolution\<close>

lemma merge_results_spec: "distinct (merge_results ls) \<and> set (merge_results ls) = \<Union> (set ` set ls)"
proof -
  have "distinct acc \<Longrightarrow> distinct (fold (\<lambda>x l. if x \<in> set l then l else l @ [x]) xs acc) \<and>
      set (fold (\<lambda>x l. if x \<in> set l then l else l @ [x]) xs acc) = set acc \<union> set xs" for acc xs :: "string list"
    by (induction xs arbitrary: acc) auto
  from this [of "[]" "concat ls"] show ?thesis by (simp add: merge_results_def)
qed

lemma collect_closure_Inr:
  assumes "collect_closure r = Inr plan"
  shows "distinct plan \<and> set plan = (needs r)\<^sup>* `` set (rs_selected r) \<and> (\<forall>p \<in> set plan. resolvable r p)"
proof (cases "length (rs_selected r) > 1")
  case True
  then obtain ls where ls: "map_result (\<lambda>n. rbind (resolve_package r n {} []) (\<lambda>(_, l). Inr l)) (rs_selected r) = Inr ls"
      "plan = merge_results ls"
    using assms by (auto simp: collect_closure_def)
  have each: "list_all2 (\<lambda>n l. set l = (needs r)\<^sup>* `` {n} \<and> (\<forall>p \<in> set l. resolvable r p)) (rs_selected r) ls"
    using ls(1) unfolding map_result_Inr
    by (rule list.rel_mono_strong) (auto dest!: resolve_package_Inr)
  have "list_all2 (\<lambda>n l. set l = (needs r)\<^sup>* `` {n} \<and> (\<forall>p \<in> set l. resolvable r p)) ns ls \<Longrightarrow>
      \<Union> (set ` set ls) = (needs r)\<^sup>* `` set ns \<and> (\<forall>l \<in> set ls. \<forall>p \<in> set l. resolvable r p)" for ns ls
    by (induction ns ls rule: list_all2_induct) auto
  note this [OF each]
  then show ?thesis using ls(2) merge_results_spec [of ls] by auto
next
  case False
  then consider "rs_selected r = []" | n where "rs_selected r = [n]"
    by (cases "rs_selected r"; cases "tl (rs_selected r)") auto
  then show ?thesis
  proof cases
    case 1
    then show ?thesis using assms by (simp add: collect_closure_def)
  next
    case 2
    then obtain v where "resolve_package r n {} [] = Inr (v, plan)"
      using assms by (auto simp: collect_closure_def split: prod.splits)
    from resolve_package_Inr [OF this] 2 show ?thesis by simp
  qed
qed

lemma dependency_target_graph [simp]:
  "dependency_target (r\<lparr>rs_dep_graph := g\<rparr>) = dependency_target r"
proof -
  have "candidate_target (r\<lparr>rs_dep_graph := g\<rparr>) = candidate_target r"
    by (rule ext) (simp add: candidate_target_def)
  then show ?thesis by (intro ext) (simp add: dependency_target_def)
qed

lemma parsed_graph [simp]: "parsed (r\<lparr>rs_dep_graph := g\<rparr>) = parsed r"
  by (intro ext) (simp add: parsed_def)

lemma needs_graph [simp]: "needs (r\<lparr>rs_dep_graph := g\<rparr>) = needs r"
  by (simp add: needs_def)

definition graph_ok :: "resolver \<Rightarrow> bool" where
  "graph_ok r \<longleftrightarrow> (\<forall>p ds. map_of (rs_dep_graph r) p = Some ds \<longrightarrow> set ds = needs r `` {p})"

lemma dependency_edges_Inr:
  "dependency_edges r name raws acc = Inr ds \<Longrightarrow>
   set ds = set acc \<union> {n. \<exists>raw \<in> set raws. \<exists>dep. parsed r raw dep \<and> dependency_target r dep = Some (Available n)}"
  by (induction raws arbitrary: acc)
    (auto simp: parsed_def split: sum.splits option.splits dep_target.splits)

lemma graph_self [simp]: "\<exists>g. r = r\<lparr>rs_dep_graph := g\<rparr>"
  by (rule exI [of _ "rs_dep_graph r"]) simp

lemma record_dependency_edges_spec:
  "record_dependency_edges r names = (r', res) \<Longrightarrow> graph_ok r \<Longrightarrow>
   graph_ok r' \<and> (\<exists>g. r' = r\<lparr>rs_dep_graph := g\<rparr>) \<and>
   dom (map_of (rs_dep_graph r)) \<subseteq> dom (map_of (rs_dep_graph r')) \<and>
   (res = Inr () \<longrightarrow> set names \<inter> dom (available r) \<subseteq> dom (map_of (rs_dep_graph r')))"
proof (induction r names arbitrary: r' res rule: record_dependency_edges.induct)
  case (1 r)
  then show ?case by simp
next
  case (2 r name names)
  consider (seen) "map_of (rs_dep_graph r) name \<noteq> None"
    | (missing) "map_of (rs_dep_graph r) name = None" "available r name = None"
    | (new) pkg where "map_of (rs_dep_graph r) name = None" "available r name = Some pkg"
    by (cases "available r name") auto
  then show ?case
  proof cases
    case seen
    then show ?thesis using 2(1) [OF seen, of r' res] 2(4,5) by auto
  next
    case missing
    then show ?thesis using 2(2) [of r' res] 2(4,5) by auto
  next
    case new
    show ?thesis
    proof (cases "dependency_edges r name (dp_depends pkg) []")
      case (Inl e)
      then have "r' = r" "res = Inl e" using new 2(4) by auto
      then show ?thesis using 2(5) by simp
    next
      case (Inr ds)
      let ?r = "r\<lparr>rs_dep_graph := AList.update name ds (rs_dep_graph r)\<rparr>"
      have rec: "record_dependency_edges ?r names = (r', res)" using new Inr 2(4) by simp
      have "set ds = needs r `` {name}"
        using dependency_edges_Inr [OF Inr] new(2) by (auto simp: needs_def)
      then have "graph_ok ?r" using 2(5) by (auto simp: graph_ok_def update_conv')
      note IH = 2(3) [OF _ new(2) Inr rec this]
      have "dom (map_of (rs_dep_graph ?r)) = insert name (dom (map_of (rs_dep_graph r)))"
        by (simp add: update_conv' del: fun_upd_apply)
      with IH new(1) show ?thesis by (simp del: domIff) blast
    qed
  qed
qed

lemma projected_versions_lookup:
  "map_of (projected_versions r packages) n =
     (case (if n \<in> set packages then available r n else None) of
        Some pkg \<Rightarrow> Some (dp_version pkg) | None \<Rightarrow> installed r n)"
proof -
  let ?f = "\<lambda>name projected. case available r name of
      None \<Rightarrow> projected | Some pkg \<Rightarrow> AList.update name (dp_version pkg) projected"
  have "map_of (fold ?f packages acc) n =
      (case (if n \<in> set packages then available r n else None) of
        Some pkg \<Rightarrow> Some (dp_version pkg) | None \<Rightarrow> map_of acc n)" for acc
    by (induction packages arbitrary: acc) (auto simp: update_conv' split: option.splits)
  then show ?thesis by (simp add: projected_versions_def)
qed

lemma parse_case_Inr:
  "(case parse_dependency (rs_arch r) raw of Inl e \<Rightarrow> Inl (f e) | Inr dep \<Rightarrow> ensure (P dep) err) = Inr u
   \<longleftrightarrow> (\<exists>dep. parsed r raw dep \<and> P dep)"
  by (auto simp: parsed_def split: sum.splits)

lemma skip_case_Inr:
  "(case m of None \<Rightarrow> Inr () | Some x \<Rightarrow> f x) = Inr () \<longleftrightarrow> (\<forall>x. m = Some x \<longrightarrow> f x = Inr ())"
  by (cases m) auto

lemma validate_projected_Inr:
  "validate_projected_dependencies r packages = Inr u \<longleftrightarrow>
   (\<forall>p \<in> set packages. \<forall>pkg. available r p = Some pkg \<longrightarrow> (\<forall>raw \<in> set (dp_depends pkg).
     \<exists>dep. parsed r raw dep \<and>
       (\<exists>c \<in> set (dependency_candidates dep). candidate_ok (map_of (projected_versions r packages) (dep_name c)) c)))"
  unfolding validate_projected_dependencies_def Let_def for_result_Inr skip_case_Inr parse_case_Inr list_ex_iff
  ..

section \<open>What is installed afterwards\<close>

definition is_new :: "resolver \<Rightarrow> string \<Rightarrow> bool" where
  "is_new r n \<longleftrightarrow> available r n \<noteq> None \<and> installed r n = None"

definition is_upgrade :: "resolver \<Rightarrow> string \<Rightarrow> bool" where
  "is_upgrade r n \<longleftrightarrow> (case (available r n, installed r n) of
     (Some pkg, Some v) \<Rightarrow> compare_deb_versions v (dp_version pkg) = Less | _ \<Rightarrow> False)"

lemma plan_changes_spec:
  "rr_to_install (plan_changes r names acc) = rr_to_install acc @ filter (is_new r) names"
  "map fst (rr_to_upgrade (plan_changes r names acc)) = map fst (rr_to_upgrade acc) @ filter (is_upgrade r) names"
  "rr_download_size (plan_changes r names acc) = rr_download_size acc +
     sum_list (map (\<lambda>n. dp_size (the (available r n))) (filter (\<lambda>n. is_new r n \<or> is_upgrade r n) names))"
  "rr_to_remove (plan_changes r names acc) = rr_to_remove acc"
  by (induction names arbitrary: acc)
    (auto simp: is_new_def is_upgrade_def algebra_simps split: option.splits)

definition installed_after :: "resolver \<Rightarrow> resolution_result \<Rightarrow> string \<rightharpoonup> string" where
  "installed_after r res n =
     (if n \<in> set (rr_to_install res) \<union> fst ` set (rr_to_upgrade res)
      then map_option dp_version (available r n) else installed r n)"

lemma candidate_ok_equal:
  "compare_deb_versions v w = Equal \<Longrightarrow> candidate_ok (Some v) c = candidate_ok (Some w) c"
  using deb.equal_left [of v w] by (simp add: candidate_ok_def version_satisfies_def split: option.splits)

lemma is_new_graph [simp]: "is_new (r\<lparr>rs_dep_graph := g\<rparr>) = is_new r"
  by (rule ext) (simp add: is_new_def)

lemma is_upgrade_graph [simp]: "is_upgrade (r\<lparr>rs_dep_graph := g\<rparr>) = is_upgrade r"
  by (rule ext) (simp add: is_upgrade_def)

lemma projected_graph [simp]: "projected_versions (r\<lparr>rs_dep_graph := g\<rparr>) = projected_versions r"
  by (rule ext) (simp add: projected_versions_def)

definition closure :: "resolver \<Rightarrow> string set" where
  "closure r = (needs r)\<^sup>* `` set (rs_selected r)"

lemma filter_split_ex:
  "filter Q order = xs @ p # ys \<Longrightarrow> \<exists>us vs. order = us @ p # vs \<and> xs = filter Q us"
proof (induction order arbitrary: xs)
  case (Cons x order)
  show ?case
  proof (cases "Q x \<and> xs = []")
    case True
    then show ?thesis using Cons.prems by (intro exI [of _ "[]"] exI [of _ order]) auto
  next
    case False
    then obtain zs where "filter Q order = zs @ p # ys" "xs = (if Q x then x # zs else zs)"
      using Cons.prems by (cases xs) (auto split: if_splits)
    with Cons.IH [of zs] obtain us vs where "order = us @ p # vs" "zs = filter Q us" by blast
    then show ?thesis using \<open>xs = _\<close> by (intro exI [of _ "x # us"] exI [of _ vs]) auto
  qed
qed simp

lemma filter_split:
  assumes "filter Q order = xs @ p # ys"
  obtains us vs where "order = us @ p # vs" "xs = filter Q us"
  using filter_split_ex [OF assms] by blast

lemma dep_rel_needs:
  assumes "graph_ok r'" "map_of (rs_dep_graph r') p = Some ds" "d \<in> set packages"
  shows "(p, d) \<in> dep_rel (rs_dep_graph r') packages \<longleftrightarrow> (p, d) \<in> needs r'"
  using assms by (auto simp: dep_rel_iff graph_ok_def)

lemma dep_rel_sub_needs: "graph_ok r' \<Longrightarrow> dep_rel (rs_dep_graph r') packages \<subseteq> needs r'"
  by (auto simp: dep_rel_iff graph_ok_def)

text \<open>Everything a successful resolution guarantees, for the sorted closure.\<close>

lemma resolve_Inr:
  assumes "resolve r = (r', Inr res)" "graph_ok r"
  obtains g plan where "r' = r\<lparr>rs_dep_graph := g\<rparr>" "graph_ok r'" "set plan = closure r"
    "closure r \<subseteq> dom (map_of g)" "\<forall>p \<in> closure r. resolvable r p"
    "validate_projected_dependencies r' (topological_sort g plan) = Inr ()"
    "rr_to_install res = filter (is_new r) (topological_sort g plan)"
    "map fst (rr_to_upgrade res) = filter (is_upgrade r) (topological_sort g plan)"
    "rr_download_size res = sum_list (map (\<lambda>n. dp_size (the (available r n)))
       (filter (\<lambda>n. is_new r n \<or> is_upgrade r n) (topological_sort g plan)))"
    "rr_to_remove res = []"
proof -
  obtain plan where plan: "collect_closure r = Inr plan"
    using assms(1) by (auto simp: resolve_def split: sum.splits)
  obtain x where rec: "record_dependency_edges r plan = (r', x)"
    using assms(1) plan by (auto simp: resolve_def Let_def split: sum.splits prod.splits)
  have x: "x = Inr ()"
    using assms(1) plan rec by (auto simp: resolve_def split: sum.splits)
  note R = record_dependency_edges_spec [OF rec [unfolded x] assms(2)]
  then obtain g where g: "r' = r\<lparr>rs_dep_graph := g\<rparr>" by blast
  have P: "set plan = closure r" "\<forall>p \<in> closure r. resolvable r p"
    using collect_closure_Inr [OF plan] by (simp_all add: closure_def)
  have "closure r \<subseteq> dom (available r)" using P(2) by (auto simp: resolvable_def)
  then have dom: "closure r \<subseteq> dom (map_of g)" using R g P(1) by auto
  have v: "validate_projected_dependencies r' (topological_sort g plan) = Inr ()"
    and res: "res = plan_changes r' (topological_sort g plan)
      \<lparr>rr_to_install = [], rr_to_upgrade = [], rr_to_remove = [], rr_download_size = 0, rr_installed_size = 0\<rparr>"
    using assms(1) plan rec x g by (auto simp: resolve_def Let_def)
  show ?thesis
    by (rule that [OF g _ P(1) dom P(2) v]) (use R g res plan_changes_spec [of r'] in simp_all)
qed

lemma installed_after_projected:
  assumes install: "rr_to_install res = filter (is_new r) order"
    and upgrade: "map fst (rr_to_upgrade res) = filter (is_upgrade r) order"
    and newer: "\<And>n pkg v. n \<in> set order \<Longrightarrow> available r n = Some pkg \<Longrightarrow> installed r n = Some v \<Longrightarrow>
      compare_deb_versions v (dp_version pkg) \<noteq> Greater"
  shows "candidate_ok (map_of (projected_versions r order) n) c = candidate_ok (installed_after r res n) c"
proof -
  have changed: "n \<in> set (rr_to_install res) \<union> fst ` set (rr_to_upgrade res) \<longleftrightarrow>
      n \<in> set order \<and> (is_new r n \<or> is_upgrade r n)"
    using install arg_cong [OF upgrade, of set] by auto
  show ?thesis
  proof (cases "n \<in> set order")
    case True
    show ?thesis
    proof (cases "available r n")
      case None
      then show ?thesis using changed by (simp add: installed_after_def projected_versions_lookup is_new_def is_upgrade_def)
    next
      case (Some pkg)
      show ?thesis
      proof (cases "installed r n")
        case None
        then show ?thesis using changed True Some by (simp add: installed_after_def projected_versions_lookup is_new_def)
      next
        case (Some v)
        note i = \<open>installed r n = Some v\<close> and a = \<open>available r n = Some pkg\<close>
        consider "compare_deb_versions v (dp_version pkg) = Less" | "compare_deb_versions v (dp_version pkg) = Equal"
          using newer [OF True a i] by (cases "compare_deb_versions v (dp_version pkg)") auto
        then show ?thesis
          using changed True i a candidate_ok_equal [of v "dp_version pkg" c]
          by cases (simp_all add: installed_after_def projected_versions_lookup is_new_def is_upgrade_def)
      qed
    qed
  next
    case False
    then show ?thesis using changed by (simp add: installed_after_def projected_versions_lookup)
  qed
qed

section \<open>Reachable resolvers\<close>

text \<open>A resolver is created, and then packages are added and resolutions run in any order.\<close>

inductive reachable :: "resolver \<Rightarrow> bool" where
  reach_new: "resolver_new arch candidates installed_fast = Inr r \<Longrightarrow> reachable r"
| reach_add: "reachable r \<Longrightarrow> add_package name r = Inr r' \<Longrightarrow> reachable r'"
| reach_resolve: "reachable r \<Longrightarrow> resolve r = (r', outcome) \<Longrightarrow> reachable r'"

definition resolver_inv :: "resolver \<Rightarrow> bool" where
  "resolver_inv r \<longleftrightarrow> graph_ok r \<and> distinct (rs_selected r) \<and> set (rs_selected r) \<subseteq> dom (available r)"

lemma needs_selected [simp]: "needs (r\<lparr>rs_selected := x\<rparr>) = needs r"
proof -
  have "candidate_target (r\<lparr>rs_selected := x\<rparr>) = candidate_target r"
    by (rule ext) (simp add: candidate_target_def)
  then show ?thesis by (simp add: needs_def parsed_def dependency_target_def)
qed

lemma resolve_keeps_inv:
  assumes "resolve r = (r', outcome)" "resolver_inv r"
  shows "resolver_inv r'"
proof (cases "collect_closure r")
  case (Inl e)
  then show ?thesis using assms by (simp add: resolve_def)
next
  case (Inr plan)
  obtain r1 x where rec: "record_dependency_edges r plan = (r1, x)" by (cases "record_dependency_edges r plan")
  have "r' = r1" using assms(1) Inr rec by (auto simp: resolve_def Let_def split: sum.splits)
  then show ?thesis
    using record_dependency_edges_spec [OF rec] assms(2) by (auto simp: resolver_inv_def)
qed

lemma reachable_inv: "reachable r \<Longrightarrow> resolver_inv r"
proof (induction rule: reachable.induct)
  case (reach_new arch candidates installed_fast r)
  then show ?case by (auto simp: resolver_new_def resolver_inv_def graph_ok_def)
next
  case (reach_add r name r')
  then show ?case by (auto simp: add_package_def resolver_inv_def graph_ok_def split: if_splits)
next
  case (reach_resolve r r' outcome)
  then show ?case using resolve_keeps_inv by blast
qed

section \<open>Examples\<close>

definition example_package :: "string \<Rightarrow> string \<Rightarrow> string list \<Rightarrow> debian_package" where
  "example_package n v ds =
     \<lparr>dp_name = n, dp_version = v, dp_description = [], dp_section = [], dp_priority = [],
      dp_installed_size = 4, dp_maintainer = [], dp_architecture = ''amd64'', dp_depends = ds,
      dp_filename = [], dp_size = 2, dp_sha256 = [], dp_homepage = [], dp_component = [],
      dp_suite = [], dp_source_key = []\<rparr>"

definition example_resolver :: resolver where
  "example_resolver =
     \<lparr>rs_arch = ''x86_64'',
      rs_available =
        [(''app'', example_package ''app'' ''2.0'' [''mta | lib (>= 1.0~rc1)'', ''base'']),
         (''lib'', example_package ''lib'' ''1.0'' [''base (>= 1.1)'', ''app'']),
         (''base'', example_package ''base'' ''1.1'' [])],
      rs_installed = [(''base'', ''1.0'')],
      rs_selected = [''app''], rs_dep_graph = []\<rparr>"

definition example_resolution :: resolution_result where
  "example_resolution =
     \<lparr>rr_to_install = [''lib'', ''app''], rr_to_upgrade = [(''base'', ''1.0'', ''1.1'')], rr_to_remove = [],
      rr_download_size = 6, rr_installed_size = 12\<rparr>"

text \<open>The installed library is newer than the repository's, and the application needs the older one.\<close>

definition downgrade_resolver :: resolver where
  "downgrade_resolver =
     \<lparr>rs_arch = ''x86_64'',
      rs_available =
        [(''app'', example_package ''app'' ''1.0'' [''lib (<< 2)'']),
         (''lib'', example_package ''lib'' ''1.5'' [])],
      rs_installed = [(''lib'', ''2.1'')],
      rs_selected = [''app''], rs_dep_graph = []\<rparr>"

lemma example_runs: "snd (resolve example_resolver) = Inr example_resolution"
  by code_simp

lemma example_resolves: "resolve example_resolver = (fst (resolve example_resolver), Inr example_resolution)"
  using example_runs by (metis prod.collapse)

lemma example_graph_ok: "graph_ok example_resolver"
  by (simp add: graph_ok_def example_resolver_def)

section \<open>Properties\<close>

text \<open>
  C4: the closure walk succeeds exactly when every package reachable through chosen targets is in
  the repository with only parseable, satisfiable dependencies; and then it returns exactly the
  reachable packages, each once. It terminates on every repository, cyclic ones included.
\<close>

theorem resolve_package_computes_reachable:
  "is_ok (resolve_package r name {} []) = (\<forall>p. (name, p) \<in> (needs r)\<^sup>* \<longrightarrow> resolvable r p) \<and>
   (\<forall>visited plan. resolve_package r name {} [] = Inr (visited, plan) \<longrightarrow>
      distinct plan \<and> set plan = {p. (name, p) \<in> (needs r)\<^sup>*})"
proof (intro conjI allI impI)
  show "is_ok (resolve_package r name {} []) = (\<forall>p. (name, p) \<in> (needs r)\<^sup>* \<longrightarrow> resolvable r p)"
    unfolding resolve_package_ok_iff by auto
  fix visited plan
  assume "resolve_package r name {} [] = Inr (visited, plan)"
  from resolve_package_Inr [OF this] show "distinct plan" "set plan = {p. (name, p) \<in> (needs r)\<^sup>*}"
    by auto
qed

theorem resolve_package_computes_reachable_witness:
  "resolve_package example_resolver ''app'' {} []
     = Inr ({''app'', ''lib'', ''base''}, [''base'', ''lib'', ''app'']) \<and>
   {p. (''app'', p) \<in> (needs example_resolver)\<^sup>*} = {''app'', ''lib'', ''base''}"
proof -
  have run: "resolve_package example_resolver ''app'' {} []
      = Inr ({''app'', ''lib'', ''base''}, [''base'', ''lib'', ''app''])"
    by code_simp
  then show ?thesis
    using resolve_package_computes_reachable [of example_resolver "''app''"] by (auto simp: is_ok_def)
qed

text \<open>
  C1: when the recorded graph is consistent, as it is in every reachable resolver, and no package of
  the closure is installed in a version newer than the repository's, a successful resolution leaves
  every selected package installed, and every dependency of every package of the closure satisfied by
  what is installed after the plan is carried out.
\<close>

theorem resolve_satisfies_dependencies:
  assumes ok: "resolve r = (r', Inr res)" "graph_ok r"
    and newer: "\<And>n pkg v. n \<in> closure r \<Longrightarrow> available r n = Some pkg \<Longrightarrow> installed r n = Some v \<Longrightarrow>
      compare_deb_versions v (dp_version pkg) \<noteq> Greater"
  shows "(\<forall>n \<in> set (rs_selected r). installed_after r res n \<noteq> None) \<and>
    (\<forall>p \<in> closure r. \<exists>pkg. available r p = Some pkg \<and> (\<forall>raw \<in> set (dp_depends pkg).
       \<exists>dep c. parse_dependency (rs_arch r) raw = Inr dep \<and> c \<in> set (dependency_candidates dep) \<and>
         candidate_ok (installed_after r res (dep_name c)) c))"
proof (rule resolve_Inr [OF ok])
  fix g plan
  assume g: "r' = r\<lparr>rs_dep_graph := g\<rparr>" and plan: "set plan = closure r"
    and res: "\<forall>p \<in> closure r. resolvable r p"
    and v: "validate_projected_dependencies r' (topological_sort g plan) = Inr ()"
    and ti: "rr_to_install res = filter (is_new r) (topological_sort g plan)"
    and tu: "map fst (rr_to_upgrade res) = filter (is_upgrade r) (topological_sort g plan)"
  have eq: "candidate_ok (map_of (projected_versions r (topological_sort g plan)) n) c
      = candidate_ok (installed_after r res n) c" for n c
    by (rule installed_after_projected [OF ti tu]) (use newer plan in auto)
  have "\<forall>p \<in> closure r. \<exists>pkg. available r p = Some pkg \<and> (\<forall>raw \<in> set (dp_depends pkg).
       \<exists>dep c. parse_dependency (rs_arch r) raw = Inr dep \<and> c \<in> set (dependency_candidates dep) \<and>
         candidate_ok (installed_after r res (dep_name c)) c)"
    using v res plan unfolding validate_projected_Inr g
    by (fastforce simp: eq parsed_def resolvable_def)
  moreover have "installed_after r res n \<noteq> None" if "n \<in> set (rs_selected r)" for n
  proof -
    have "n \<in> closure r" using that by (auto simp: closure_def)
    then have "available r n \<noteq> None" "n \<in> set (topological_sort g plan)"
      using res plan by (auto simp: resolvable_def)
    then show ?thesis using ti by (auto simp: installed_after_def is_new_def)
  qed
  ultimately show ?thesis by blast
qed

theorem resolve_satisfies_dependencies_witness:
  "resolve example_resolver = (fst (resolve example_resolver), Inr example_resolution) \<and>
   graph_ok example_resolver \<and> installed_after example_resolver example_resolution ''app'' \<noteq> None"
proof -
  have c: "compare_deb_versions ''1.0'' ''1.1'' \<noteq> Greater" by code_simp
  have "compare_deb_versions v (dp_version pkg) \<noteq> Greater"
    if "available example_resolver n = Some pkg" "installed example_resolver n = Some v" for n pkg v
    using that c by (auto simp: example_resolver_def example_package_def split: if_splits)
  moreover have "''app'' \<in> set (rs_selected example_resolver)" by (simp add: example_resolver_def)
  ultimately show ?thesis
    using resolve_satisfies_dependencies [OF example_resolves example_graph_ok]
      example_resolves example_graph_ok by blast
qed

text \<open>
  C6: when the recorded graph is consistent, the plan of a successful resolution installs exactly the
  packages of the closure that are missing and upgrades exactly those installed in an older version,
  each once; and a new package stands before one of its new dependencies only when the dependency
  needs it in turn.
\<close>

theorem resolve_plan_is_exact_and_ordered:
  assumes ok: "resolve r = (r', Inr res)" "graph_ok r"
  shows "distinct (rr_to_install res) \<and>
    set (rr_to_install res) = {n \<in> closure r. installed r n = None} \<and>
    distinct (map fst (rr_to_upgrade res)) \<and>
    fst ` set (rr_to_upgrade res) = {n \<in> closure r. is_upgrade r n} \<and> rr_to_remove res = [] \<and>
    (\<forall>xs p ys d. rr_to_install res = xs @ p # ys \<longrightarrow> (p, d) \<in> needs r \<longrightarrow> d \<in> set (rr_to_install res) \<longrightarrow>
       d \<in> set xs \<or> (d, p) \<in> (needs r)\<^sup>*)"
proof (rule resolve_Inr [OF ok])
  fix g plan
  assume g: "r' = r\<lparr>rs_dep_graph := g\<rparr>" "graph_ok r'" and plan: "set plan = closure r"
    and dom: "closure r \<subseteq> dom (map_of g)" and res: "\<forall>p \<in> closure r. resolvable r p"
    and ti: "rr_to_install res = filter (is_new r) (topological_sort g plan)"
    and tu: "map fst (rr_to_upgrade res) = filter (is_upgrade r) (topological_sort g plan)"
    and rm: "rr_to_remove res = []"
  have av: "\<And>n. n \<in> closure r \<Longrightarrow> available r n \<noteq> None" using res by (auto simp: resolvable_def)
  have sub: "(dep_rel g plan)\<^sup>* \<subseteq> (needs r)\<^sup>*"
    using dep_rel_sub_needs [OF g(2), of plan] g(1) by (intro rtrancl_mono) simp
  have order: "d \<in> set xs \<or> (d, p) \<in> (needs r)\<^sup>*"
    if split: "rr_to_install res = xs @ p # ys" and d: "(p, d) \<in> needs r" "d \<in> set (rr_to_install res)" for xs p ys d
  proof (rule filter_split [OF split [unfolded ti]])
    fix us vs
    assume us: "topological_sort g plan = us @ p # vs" "xs = filter (is_new r) us"
    have p: "p \<in> closure r" using us(1) plan topological_sort_set [of g plan] by auto
    then obtain ds where "map_of g p = Some ds" using dom by auto
    then have "(p, d) \<in> dep_rel g plan"
      using dep_rel_needs [OF g(2), of p ds d plan] d ti g(1) by simp
    from topological_sort_order [OF us(1) this] d(2) ti us(2) sub show ?thesis by auto
  qed
  have "fst ` set (rr_to_upgrade res) = {n \<in> closure r. is_upgrade r n}"
    using arg_cong [OF tu, of set] plan by auto
  moreover have "set (rr_to_install res) = {n \<in> closure r. installed r n = None}"
    using ti plan av by (auto simp: is_new_def)
  ultimately show ?thesis
    using order ti tu rm topological_sort_distinct by simp
qed

theorem resolve_plan_is_exact_and_ordered_witness:
  "resolve example_resolver = (fst (resolve example_resolver), Inr example_resolution) \<and>
   {n \<in> closure example_resolver. installed example_resolver n = None} = {''lib'', ''app''}"
proof -
  have "set (rr_to_install example_resolution) =
      {n \<in> closure example_resolver. installed example_resolver n = None}"
    using resolve_plan_is_exact_and_ordered [OF example_resolves example_graph_ok] by blast
  then show ?thesis using example_resolves by (simp add: example_resolution_def)
qed

text \<open>
  C38: Every successful resolution of this kind leaves a dependency unsatisfied: a package of the
  closure depends, without alternatives, on a package whose installed version does not satisfy the
  dependency and is newer than the repository's. The repository version satisfies it and is what the
  resolver validates, but the plan, in which downgrades do not occur, keeps the installed version.
\<close>

theorem resolve_accepts_unapplied_downgrade:
  assumes "resolve r = (r', Inr res)" "graph_ok r" "p \<in> closure r" "available r p = Some pkg" "raw \<in> set (dp_depends pkg)"
    and "parse_dependency (rs_arch r) raw = Inr dep" "dep_alternatives dep = []"
    and "installed r (dep_name dep) = Some v" "\<not> candidate_ok (Some v) dep"
    and "available r (dep_name dep) = Some repo" "compare_deb_versions v (dp_version repo) = Greater"
  shows "dep_name dep \<in> closure r \<and> candidate_ok (Some (dp_version repo)) dep \<and>
    installed_after r res (dep_name dep) = Some v \<and> \<not> candidate_ok (installed_after r res (dep_name dep)) dep"
proof (rule resolve_Inr [OF assms(1,2)])
  fix g plan
  assume ok: "\<forall>p \<in> closure r. resolvable r p"
    and ti: "rr_to_install res = filter (is_new r) (topological_sort g plan)"
    and tu: "map fst (rr_to_upgrade res) = filter (is_upgrade r) (topological_sort g plan)"
  let ?n = "dep_name dep"
  have "dependency_target r dep \<noteq> None" using ok assms(3-6) by (force simp: resolvable_def parsed_def)
  then have target: "candidate_ok (Some (dp_version repo)) dep" "dependency_target r dep = Some (Available ?n)"
    using assms(7-10) by (auto simp: dependency_target_def dependency_candidates_def candidate_target_def split: if_splits)
  then have "(p, ?n) \<in> needs r" using assms(4-6) by (auto simp: needs_def parsed_def)
  then have "?n \<in> closure r" using assms(3) by (auto simp: closure_def intro: rtrancl_into_rtrancl)
  moreover have "?n \<notin> set (rr_to_install res)" using ti assms(8) by (simp add: is_new_def)
  moreover have "?n \<notin> fst ` set (rr_to_upgrade res)"
    using arg_cong [OF tu, of set] assms(8,10,11) by (simp add: is_upgrade_def)
  then have "installed_after r res ?n = Some v" using calculation(2) assms(8) by (simp add: installed_after_def)
  ultimately show ?thesis using target(1) assms(9) by simp
qed

theorem resolve_accepts_unapplied_downgrade_witness:
  "\<exists>r' res. resolve downgrade_resolver = (r', Inr res) \<and> rr_to_install res = [''app''] \<and>
     installed_after downgrade_resolver res ''lib'' = Some ''2.1''"
proof -
  let ?dep = "Dependency ''lib'' (Some \<lparr>vc_op = Lt, vc_version = ''2''\<rparr>) []"
  define res where "res = \<lparr>rr_to_install = [''app''], rr_to_upgrade = [], rr_to_remove = [], rr_download_size = 2, rr_installed_size = 4\<rparr>"
  have "snd (resolve downgrade_resolver) = Inr res" unfolding res_def by code_simp
  then have run: "resolve downgrade_resolver = (fst (resolve downgrade_resolver), Inr res)" by (metis prod.collapse)
  have graph: "graph_ok downgrade_resolver" by (simp add: graph_ok_def downgrade_resolver_def)
  have facts: "parse_dependency (rs_arch downgrade_resolver) ''lib (<< 2)'' = Inr ?dep"
    "\<not> candidate_ok (Some ''2.1'') ?dep" "compare_deb_versions ''2.1'' ''1.5'' = Greater" by code_simp+
  have "''app'' \<in> closure downgrade_resolver" by (auto simp: closure_def downgrade_resolver_def)
  from resolve_accepts_unapplied_downgrade [OF run graph this _ _ facts(1) _ _ facts(2)]
  have "installed_after downgrade_resolver res ''lib'' = Some ''2.1''"
    using facts(3) by (simp add: downgrade_resolver_def example_package_def)
  then show ?thesis using run by (intro exI [of _ "fst (resolve downgrade_resolver)"] exI [of _ res]) (simp add: res_def)
qed

text \<open>
  After any sequence of additions and resolutions, failed ones included, the recorded graph has
  exactly the dependencies the closure walk would follow, and every selected package is in the
  repository, once.
\<close>

theorem reachable_resolvers_are_consistent:
  assumes "reachable r"
  shows "distinct (rs_selected r) \<and> set (rs_selected r) \<subseteq> dom (available r) \<and>
    (\<forall>p ds. map_of (rs_dep_graph r) p = Some ds \<longrightarrow> set ds = needs r `` {p})"
  using reachable_inv [OF assms] by (auto simp: resolver_inv_def graph_ok_def)

theorem reachable_resolvers_are_consistent_witness:
  "\<exists>r. reachable r \<and> rs_selected r = [''a''] \<and> set (rs_selected r) \<subseteq> dom (available r)"
proof -
  let ?p = "example_package ''a'' ''1'' []"
  let ?r0 = "\<lparr>rs_arch = ''x86'', rs_available = [(''a'', ?p)], rs_installed = [], rs_selected = [], rs_dep_graph = []\<rparr>"
  have "resolver_new ''x86'' (Inr [?p]) (Inr []) = Inr ?r0"
    by (simp add: resolver_new_def example_package_def installed_versions_for_resolver_def)
  then have "reachable ?r0" by (rule reach_new)
  moreover have "add_package ''a'' ?r0 = Inr (?r0\<lparr>rs_selected := [''a'']\<rparr>)"
    by (simp add: add_package_def)
  ultimately have r: "reachable (?r0\<lparr>rs_selected := [''a'']\<rparr>)" by (rule reach_add)
  then show ?thesis
    using reachable_resolvers_are_consistent [OF r] by (intro exI [of _ "?r0\<lparr>rs_selected := [''a'']\<rparr>"]) simp
qed

end
