(* ===== verification/Input_Validation.thy ===== *)
theory Input_Validation
  imports Rust_Str
begin

text \<open>
  \<^verbatim>\<open>core/security/validation.rs\<close>: the checks every package name, version, image reference, relative
  path and local archive passes before it reaches a command line, a URL or the file system. The
  operations are modelled with their error values, in the order the code tests them. The file
  system is a parameter of \<open>validate_local_archive_file\<close>. The lemmas say what an accepted input
  looks like, and that a path built from it stays below the directory it is joined to.
\<close>

unbundle bit_operations_syntax

section \<open>Definitions\<close>

datatype validation_error =
    PackageNameEmpty
  | PackageNameTooLong nat
  | PackageNameStartsWithDash
  | PackageNameStartsWithDot
  | PackageNameInvalidChar char
  | PackageNamePathTraversal
  | PackageNameAbsolute
  | ImageRefEmpty
  | ImageRefTooLong nat
  | ImageRefMustStartAlphanumeric
  | ImageRefInvalidChar char
  | VersionEmpty
  | VersionTooLong nat
  | VersionPathComponent
  | VersionInvalidChar char
  | RuntimeVersionReserved
  | RuntimeVersionUnsafePath
  | PathEmpty
  | PathTooLong nat
  | PathNullByte
  | PathAbsolute
  | PathTraversal
  | PathDoubleSlash

definition MAX_PACKAGE_NAME_LENGTH :: nat where "MAX_PACKAGE_NAME_LENGTH = 255"
definition MAX_VERSION_LENGTH :: nat where "MAX_VERSION_LENGTH = 128"
definition MAX_RELATIVE_PATH_LENGTH :: nat where "MAX_RELATIVE_PATH_LENGTH = 4096"

definition is_safe_package_char :: "char \<Rightarrow> bool" where
  "is_safe_package_char c \<longleftrightarrow> is_ascii_alphanumeric c \<or> c \<in> set ''-_+.@/''"

text \<open>\<^verbatim>\<open>if let Some(c) = s.chars().find(|c| !ok(c)) { return Err(err(c)) }\<close>\<close>

definition reject_char ::
  "(char \<Rightarrow> bool) \<Rightarrow> (char \<Rightarrow> validation_error) \<Rightarrow> string \<Rightarrow> (validation_error, unit) result" where
  "reject_char ok err s = (case find (\<lambda>c. \<not> ok c) s of Some c \<Rightarrow> Inl (err c) | None \<Rightarrow> Inr ())"

definition validate_package_name :: "string \<Rightarrow> (validation_error, unit) result" where
  "validate_package_name name =
     rbind (ensure (name \<noteq> []) PackageNameEmpty) (\<lambda>_.
     rbind (ensure (str_len name \<le> MAX_PACKAGE_NAME_LENGTH)
       (PackageNameTooLong MAX_PACKAGE_NAME_LENGTH)) (\<lambda>_.
     rbind (ensure (\<not> starts_with_char CHR ''-'' name) PackageNameStartsWithDash) (\<lambda>_.
     rbind (ensure (\<not> starts_with_char CHR ''.'' name) PackageNameStartsWithDot) (\<lambda>_.
     rbind (reject_char is_safe_package_char PackageNameInvalidChar name) (\<lambda>_.
     rbind (ensure (\<not> str_contains ''..'' name) PackageNamePathTraversal) (\<lambda>_.
     ensure (\<not> starts_with_char CHR ''/'' name) PackageNameAbsolute))))))"

definition validate_version_shape :: "string \<Rightarrow> (validation_error, unit) result" where
  "validate_version_shape version =
     rbind (ensure (version \<noteq> []) VersionEmpty) (\<lambda>_.
     rbind (ensure (str_len version \<le> MAX_VERSION_LENGTH) (VersionTooLong MAX_VERSION_LENGTH)) (\<lambda>_.
     ensure (version \<noteq> ''.'' \<and> version \<noteq> ''..'') VersionPathComponent))"

definition validate_version :: "string \<Rightarrow> (validation_error, unit) result" where
  "validate_version version =
     rbind (validate_version_shape version) (\<lambda>_.
     reject_char (\<lambda>c. is_ascii_alphanumeric c \<or> c \<in> set ''.-+:~'') VersionInvalidChar version)"

definition validate_debian_package_spec :: "string \<Rightarrow> (validation_error, unit) result" where
  "validate_debian_package_spec spec =
     (case split_once CHR ''='' spec of
        None \<Rightarrow> validate_package_name spec
      | Some (name, version) \<Rightarrow>
          rbind (validate_package_name name) (\<lambda>_.
          rbind (ensure (\<not> str_contains ''='' version) (VersionInvalidChar CHR ''='')) (\<lambda>_.
          validate_version version)))"

definition validate_debian_package_specs :: "string list \<Rightarrow> (validation_error, unit) result" where
  "validate_debian_package_specs specs = for_result validate_debian_package_spec specs"

definition validate_package_names :: "string list \<Rightarrow> (validation_error, unit) result" where
  "validate_package_names names = for_result validate_package_name names"

definition validate_image_ref :: "string \<Rightarrow> (validation_error, unit) result" where
  "validate_image_ref img =
     rbind (ensure (img \<noteq> []) ImageRefEmpty) (\<lambda>_.
     rbind (ensure (str_len img \<le> 256) (ImageRefTooLong 256)) (\<lambda>_.
     rbind (reject_char (\<lambda>c. is_ascii_alphanumeric c \<or> c \<in> set ''._-/:@'') ImageRefInvalidChar img) (\<lambda>_.
     rbind (ensure (case img of [] \<Rightarrow> False | c # _ \<Rightarrow> is_ascii_alphanumeric c)
       ImageRefMustStartAlphanumeric) (\<lambda>_.
     ensure (\<not> str_contains ''..'' img) (ImageRefInvalidChar CHR ''.'')))))"

definition is_local_package_file :: "string \<Rightarrow> bool" where
  "is_local_package_file name \<longleftrightarrow>
     (if \<not> starts_with_char CHR ''/'' name then False
      else if \<not> list_ex (\<lambda>ext. suffix ext name)
           [''.pkg.tar.zst'', ''.pkg.tar.xz'', ''.pkg.tar.gz'', ''.pkg.tar.bz2'', ''.pkg.tar'']
        then False
      else if str_contains ''..'' name then False
      else True)"

text \<open>
  \<^verbatim>\<open>Path::components\<close>, \<^verbatim>\<open>Path::file_name\<close>, \<^verbatim>\<open>Path::extension\<close> and \<^verbatim>\<open>Path::parent\<close> of the standard
  library on Unix. Repeated separators and \<^verbatim>\<open>.\<close> components vanish (the leading \<^verbatim>\<open>./\<close> the library
  keeps is no file name either). \<open>path_parent\<close> is for canonical paths, the only ones it is used on.
\<close>

definition path_components :: "string \<Rightarrow> string list" where
  "path_components p = filter (\<lambda>c. c \<noteq> [] \<and> c \<noteq> ''.'') (split_on (\<lambda>c. c = CHR ''/'') p)"

definition path_file_name :: "string \<Rightarrow> string option" where
  "path_file_name p =
     (let cs = path_components p
      in if cs = [] \<or> last cs = ''..'' then None else Some (last cs))"

definition path_extension :: "string \<Rightarrow> string option" where
  "path_extension p =
     (case path_file_name p of
        None \<Rightarrow> None
      | Some f \<Rightarrow> (case rsplit_once CHR ''.'' f of
          None \<Rightarrow> None
        | Some (stem, ext) \<Rightarrow> if stem = [] then None else Some ext))"

definition path_parent :: "string \<Rightarrow> string option" where
  "path_parent p =
     (case rsplit_once CHR ''/'' p of
        None \<Rightarrow> if p = [] then None else Some []
      | Some (d, f) \<Rightarrow> if d = [] then (if f = [] then None else Some ''/'') else Some d)"

definition is_local_debian_package_file :: "string \<Rightarrow> bool" where
  "is_local_debian_package_file name \<longleftrightarrow>
     (case path_extension name of
        None \<Rightarrow> False
      | Some e \<Rightarrow> eq_ignore_ascii_case e ''deb'' \<or> eq_ignore_ascii_case e ''ddeb'')
     \<and> \<not> starts_with_char CHR ''-'' name
     \<and> \<not> str_contains ''..'' name
     \<and> \<not> str_contains [CHR 0x00] name"

definition validate_package_name_or_file :: "string \<Rightarrow> (validation_error, unit) result" where
  "validate_package_name_or_file name =
     (if is_local_package_file name then Inr () else validate_package_name name)"

definition validate_debian_package_name_or_file :: "string \<Rightarrow> (validation_error, unit) result" where
  "validate_debian_package_name_or_file name =
     (if is_local_debian_package_file name then Inr () else validate_debian_package_specs [name])"

definition validate_debian_package_names_or_files :: "string list \<Rightarrow> (validation_error, unit) result" where
  "validate_debian_package_names_or_files names = for_result validate_debian_package_name_or_file names"

definition validate_package_names_or_files :: "string list \<Rightarrow> (validation_error, unit) result" where
  "validate_package_names_or_files names = for_result validate_package_name_or_file names"

definition validate_runtime_version :: "string \<Rightarrow> (validation_error, unit) result" where
  "validate_runtime_version version =
     rbind (validate_version_shape version) (\<lambda>_.
     rbind (ensure (\<not> eq_ignore_ascii_case version ''current'') RuntimeVersionReserved) (\<lambda>_.
     rbind (ensure (\<not> (str_contains '':'' version \<or> str_contains ''~'' version))
       RuntimeVersionUnsafePath) (\<lambda>_.
     reject_char (\<lambda>c. is_ascii_alphanumeric c \<or> c \<in> set ''.-+_'') VersionInvalidChar version)))"

definition validate_relative_path :: "string \<Rightarrow> (validation_error, unit) result" where
  "validate_relative_path path =
     rbind (ensure (path \<noteq> []) PathEmpty) (\<lambda>_.
     rbind (ensure (str_len path \<le> MAX_RELATIVE_PATH_LENGTH) (PathTooLong MAX_RELATIVE_PATH_LENGTH)) (\<lambda>_.
     rbind (ensure (\<not> str_contains [CHR 0x00] path) PathNullByte) (\<lambda>_.
     rbind (ensure (\<not> starts_with_char CHR ''/'' path) PathAbsolute) (\<lambda>_.
     rbind (ensure (\<not> str_contains ''..'' path) PathTraversal) (\<lambda>_.
     ensure (\<not> str_contains ''//'' path) PathDoubleSlash)))))"

section \<open>Local archives\<close>

text \<open>
  What \<^verbatim>\<open>std::fs\<close> answers: \<open>fs_lstat\<close> does not follow a symbolic link, \<open>fs_stat\<close> does. The error
  values of the calls are abstract.
\<close>

record file_metadata =
  fm_symlink :: bool
  fm_file :: bool
  fm_uid :: nat
  fm_mode :: "32 word"

record 'e file_system =
  fs_lstat :: "string \<Rightarrow> ('e, file_metadata) result"
  fs_stat :: "string \<Rightarrow> ('e, file_metadata) result"
  fs_canonicalize :: "string \<Rightarrow> ('e, string) result"
  fs_invoking_uid :: "('e, nat) result"

datatype 'e archive_error =
    UnsupportedArchive
  | ArchiveIo 'e
  | ArchiveSymlink string
  | ArchiveNotRegular string
  | ArchiveUntrustedOwner
  | ArchiveWritable
  | ArchiveNoParent
  | DirectoryUntrustedOwner
  | DirectoryWritable

definition io :: "('e, 'a) result \<Rightarrow> ('e archive_error, 'a) result" where
  "io r = (case r of Inl e \<Rightarrow> Inl (ArchiveIo e) | Inr a \<Rightarrow> Inr a)"

definition validate_local_archive_file ::
  "'e file_system \<Rightarrow> string \<Rightarrow> bool \<Rightarrow> ('e archive_error, string) result" where
  "validate_local_archive_file fs path supported =
     rbind (ensure supported UnsupportedArchive) (\<lambda>_.
     rbind (io (fs_lstat fs path)) (\<lambda>link_metadata.
     rbind (ensure (\<not> fm_symlink link_metadata) (ArchiveSymlink path)) (\<lambda>_.
     rbind (io (fs_canonicalize fs path)) (\<lambda>canonical.
     rbind (io (fs_stat fs canonical)) (\<lambda>metadata.
     rbind (ensure (fm_file metadata) (ArchiveNotRegular canonical)) (\<lambda>_.
     rbind (io (fs_invoking_uid fs)) (\<lambda>invoking_uid.
     let owner_allowed = (\<lambda>uid. uid = 0 \<or> uid = invoking_uid) in
     rbind (ensure (owner_allowed (fm_uid metadata)) ArchiveUntrustedOwner) (\<lambda>_.
     rbind (ensure (fm_mode metadata AND 18 = 0) ArchiveWritable) (\<lambda>_.
     rbind (case path_parent canonical of None \<Rightarrow> Inl ArchiveNoParent | Some p \<Rightarrow> Inr p) (\<lambda>parent.
     rbind (io (fs_stat fs parent)) (\<lambda>parent_metadata.
     rbind (ensure (owner_allowed (fm_uid parent_metadata)) DirectoryUntrustedOwner) (\<lambda>_.
     rbind (ensure (fm_mode parent_metadata AND 18 = 0) DirectoryWritable) (\<lambda>_.
     Inr canonical)))))))))))))"

definition validate_local_package_file :: "'e file_system \<Rightarrow> string \<Rightarrow> ('e archive_error, string) result" where
  "validate_local_package_file fs path =
     validate_local_archive_file fs path (is_local_package_file path)"

definition validate_local_debian_package_file ::
  "'e file_system \<Rightarrow> string \<Rightarrow> ('e archive_error, string) result" where
  "validate_local_debian_package_file fs path =
     validate_local_archive_file fs path (is_local_debian_package_file path)"

section \<open>What an accepted input looks like\<close>

lemma reject_char_Inr [simp]: "reject_char ok err s = Inr u \<longleftrightarrow> (\<forall>c \<in> set s. ok c)"
  by (auto simp: reject_char_def find_None_iff find_Some_iff split: option.splits)

lemma validate_package_name_ok:
  "validate_package_name name = Inr u \<longleftrightarrow>
     name \<noteq> [] \<and> str_len name \<le> 255 \<and> (\<forall>c \<in> set name. is_safe_package_char c) \<and>
     hd name \<notin> set ''-./'' \<and> \<not> sublist ''..'' name"
  by (cases name) (auto simp: validate_package_name_def MAX_PACKAGE_NAME_LENGTH_def)

lemma validate_version_shape_ok:
  "validate_version_shape v = Inr u \<longleftrightarrow> v \<noteq> [] \<and> str_len v \<le> 128 \<and> v \<noteq> ''.'' \<and> v \<noteq> ''..''"
  by (auto simp: validate_version_shape_def MAX_VERSION_LENGTH_def)

lemma validate_version_ok:
  "validate_version v = Inr u \<longleftrightarrow>
     v \<noteq> [] \<and> str_len v \<le> 128 \<and> v \<noteq> ''.'' \<and> v \<noteq> ''..'' \<and>
     (\<forall>c \<in> set v. is_ascii_alphanumeric c \<or> c \<in> set ''.-+:~'')"
  by (auto simp: validate_version_def validate_version_shape_ok)

lemma validate_runtime_version_ok:
  "validate_runtime_version v = Inr u \<longleftrightarrow>
     v \<noteq> [] \<and> str_len v \<le> 128 \<and> v \<noteq> ''.'' \<and> v \<noteq> ''..'' \<and>
     \<not> eq_ignore_ascii_case v ''current'' \<and>
     (\<forall>c \<in> set v. is_ascii_alphanumeric c \<or> c \<in> set ''.-+_'')"
proof -
  have "\<not> is_ascii_alphanumeric CHR '':''" "\<not> is_ascii_alphanumeric CHR ''~''"
    by code_simp+
  then show ?thesis
    by (auto simp: validate_runtime_version_def validate_version_shape_ok)
qed

lemma validate_relative_path_ok:
  "validate_relative_path p = Inr u \<longleftrightarrow>
     p \<noteq> [] \<and> str_len p \<le> 4096 \<and> CHR 0x00 \<notin> set p \<and> hd p \<noteq> CHR ''/'' \<and>
     \<not> sublist ''..'' p \<and> \<not> sublist ''//'' p"
  by (cases p) (auto simp: validate_relative_path_def MAX_RELATIVE_PATH_LENGTH_def)

section \<open>Joining an accepted path to a directory\<close>

text \<open>
  The reference meaning of \<^verbatim>\<open>base.join(p)\<close> for a directory given by its components: an absolute
  path starts over at the root, empty and \<^verbatim>\<open>.\<close> components stay, \<^verbatim>\<open>..\<close> moves to the parent.
\<close>

fun walk :: "string list \<Rightarrow> string list \<Rightarrow> string list" where
  "walk dir [] = dir"
| "walk dir (c # cs) =
     walk (if c = [] \<or> c = ''.'' then dir else if c = ''..'' then butlast dir else dir @ [c]) cs"

definition join_path :: "string list \<Rightarrow> string \<Rightarrow> string list" where
  "join_path base p =
     walk (if starts_with_char CHR ''/'' p then [] else base) (split_on (\<lambda>c. c = CHR ''/'') p)"

lemma walk_no_parent:
  "''..'' \<notin> set cs \<Longrightarrow> walk dir cs = dir @ filter (\<lambda>c. c \<noteq> [] \<and> c \<noteq> ''.'') cs"
  by (induction cs arbitrary: dir) auto

lemma split_on_hd_prefix: "split_on P s = p # ps \<Longrightarrow> prefix p s"
proof (induction s arbitrary: p ps)
  case (Cons c s)
  obtain q qs where "split_on P s = q # qs" by (cases "split_on P s") simp_all
  with Cons show ?case by (auto split: if_splits)
qed simp

lemma split_on_sublist: "p \<in> set (split_on P s) \<Longrightarrow> sublist p s"
proof (induction s arbitrary: p)
  case (Cons c s)
  obtain q qs where q: "split_on P s = q # qs" by (cases "split_on P s") simp_all
  show ?case
  proof (cases "p = c # q")
    case True
    then show ?thesis using split_on_hd_prefix [OF q] by (simp add: prefix_imp_sublist)
  next
    case False
    then have "p = [] \<or> p \<in> set (split_on P s)" using Cons.prems q by (auto split: if_splits)
    then show ?thesis using Cons.IH [of p] by (auto simp: sublist_Cons_right)
  qed
qed simp

lemma split_on_none: "\<forall>c \<in> set s. \<not> P c \<Longrightarrow> split_on P s = [s]"
  by (induction s) auto

lemma join_path_confined:
  assumes "\<not> sublist ''..'' p" "\<not> starts_with_char CHR ''/'' p"
  shows "join_path base p = base @ path_components p \<and> ''..'' \<notin> set (path_components p)"
proof -
  have "''..'' \<notin> set (split_on (\<lambda>c. c = CHR ''/'') p)"
    using assms(1) split_on_sublist by blast
  then show ?thesis
    using assms(2) by (simp add: join_path_def walk_no_parent path_components_def)
qed

lemma not_starts_with: "s \<noteq> [] \<Longrightarrow> hd s \<noteq> c \<Longrightarrow> \<not> starts_with_char c s"
  by (cases s) auto

section \<open>Characters that matter to a shell\<close>

definition shell_special :: string where
  "shell_special = '' !#$%&*,:;<=>?^`{|}~()[]'' @ [CHR 0x22, CHR 0x27, CHR 0x5C, CHR 0x0A, CHR 0x09, CHR 0x00]"

lemma shell_special_unsafe: "list_all (\<lambda>c. \<not> is_safe_package_char c) shell_special"
  by code_simp

lemma safe_not_special: "is_safe_package_char c \<Longrightarrow> c \<notin> set shell_special"
  using shell_special_unsafe by (auto simp: list_all_iff)

lemma bit_18: "bit (18 :: 32 word) n \<longleftrightarrow> n = 1 \<or> n = 4"
proof -
  have "(18 :: 32 word) = push_bit 1 1 OR push_bit 4 1" by simp
  then show ?thesis by (auto simp only: bit_or_iff bit_push_bit_iff) (auto simp: bit_1_iff)
qed

lemma io_Inr [simp]: "io r = Inr a \<longleftrightarrow> r = Inr a"
  by (auto simp: io_def split: sum.splits)

lemma ok_or_Inr: "(case m of None \<Rightarrow> Inl e | Some p \<Rightarrow> Inr p) = Inr a \<longleftrightarrow> m = Some a"
  by (auto split: option.splits)

lemma mode_18: "(m :: 32 word) AND 18 = 0 \<longleftrightarrow> \<not> bit m 1 \<and> \<not> bit m 4"
proof -
  have "m AND 18 = 0 \<longleftrightarrow> (\<forall>n. \<not> (bit m n \<and> bit (18 :: 32 word) n))"
    by (simp add: bit_eq_iff [of "m AND 18"] bit_and_iff)
  then show ?thesis unfolding bit_18 by auto
qed

section \<open>Properties\<close>

text \<open>
  C27: every package name a batch check accepts is inert where it is used: not empty, at most 255
  bytes, free of shell metacharacters, white space and control bytes, never an option, and joined
  to any directory it stays below that directory with no parent component.
\<close>

theorem accepted_package_names_are_inert:
  assumes "validate_package_names names = Inr ()" "name \<in> set names"
  shows "name \<noteq> [] \<and> str_len name \<le> 255 \<and> set name \<inter> set shell_special = {} \<and>
    hd name \<noteq> CHR ''-'' \<and>
    join_path base name = base @ path_components name \<and> ''..'' \<notin> set (path_components name)"
proof -
  have "validate_package_name name = Inr ()"
    using assms by (auto simp: validate_package_names_def for_result_Inr)
  then have ok: "name \<noteq> []" "str_len name \<le> 255" "\<forall>c \<in> set name. is_safe_package_char c"
      "hd name \<notin> set ''-./''" "\<not> sublist ''..'' name"
    unfolding validate_package_name_ok by blast+
  then have "join_path base name = base @ path_components name \<and> ''..'' \<notin> set (path_components name)"
    by (intro join_path_confined not_starts_with) auto
  then show ?thesis using ok safe_not_special by auto
qed

theorem accepted_package_names_are_inert_witness:
  "validate_package_names [''gcc-libs'', ''core/g++''] = Inr () \<and>
   join_path [''srv''] ''core/g++'' = [''srv'', ''core'', ''g++'']"
proof -
  have ok: "validate_package_names [''gcc-libs'', ''core/g++''] = Inr ()" by code_simp
  have "path_components ''core/g++'' = [''core'', ''g++'']" by code_simp
  then show ?thesis
    using ok accepted_package_names_are_inert [OF ok, of "''core/g++''" "[''srv'']"] by simp
qed

text \<open>
  A relative path the check accepts, joined to a directory, resolves below that directory,
  component by component; it has no NUL byte.
\<close>

theorem accepted_relative_path_is_confined:
  assumes "validate_relative_path p = Inr ()"
  shows "join_path base p = base @ path_components p \<and> ''..'' \<notin> set (path_components p) \<and>
    CHR 0x00 \<notin> set p"
proof -
  have "p \<noteq> []" "hd p \<noteq> CHR ''/''" "\<not> sublist ''..'' p" "CHR 0x00 \<notin> set p"
    using assms unfolding validate_relative_path_ok by blast+
  then show ?thesis using join_path_confined not_starts_with by blast
qed

theorem accepted_relative_path_is_confined_witness:
  "validate_relative_path ''bin/./omg'' = Inr () \<and>
   join_path [''opt'', ''omg''] ''bin/./omg'' = [''opt'', ''omg'', ''bin'', ''omg'']"
proof -
  have ok: "validate_relative_path ''bin/./omg'' = Inr ()" by code_simp
  have "path_components ''bin/./omg'' = [''bin'', ''omg'']" by code_simp
  then show ?thesis
    using ok accepted_relative_path_is_confined [OF ok, of "[''opt'', ''omg'']"] by simp
qed

text \<open>
  An accepted runtime version names exactly one directory below the versions directory, and
  never the reserved \<^verbatim>\<open>current\<close> link in any letter case.
\<close>

theorem accepted_runtime_version_is_one_component:
  assumes "validate_runtime_version v = Inr ()"
  shows "join_path base v = base @ [v] \<and> to_ascii_lowercase v \<noteq> ''current''"
proof -
  have v: "v \<noteq> []" "v \<noteq> ''.''" "v \<noteq> ''..''" "\<not> eq_ignore_ascii_case v ''current''"
      "\<forall>c \<in> set v. is_ascii_alphanumeric c \<or> c \<in> set ''.-+_''"
    using assms unfolding validate_runtime_version_ok by blast+
  have "\<not> is_ascii_alphanumeric CHR ''/''" by code_simp
  then have "CHR ''/'' \<notin> set v" using v(5) by auto
  then have "split_on (\<lambda>c. c = CHR ''/'') v = [v]" "\<not> starts_with_char CHR ''/'' v"
    by (auto intro!: split_on_none simp: starts_with_char_iff)
  moreover have "to_ascii_lowercase ''current'' = ''current''" by code_simp
  ultimately show ?thesis
    using v by (simp add: join_path_def eq_ignore_ascii_case_def)
qed

theorem accepted_runtime_version_is_one_component_witness:
  "validate_runtime_version ''20.11.1'' = Inr () \<and>
   join_path [''versions'', ''node''] ''20.11.1'' = [''versions'', ''node'', ''20.11.1'']"
proof -
  have ok: "validate_runtime_version ''20.11.1'' = Inr ()" by code_simp
  then show ?thesis
    using accepted_runtime_version_is_one_component [OF ok, of "[''versions'', ''node'']"] by simp
qed

text \<open>
  A Debian package argument is accepted exactly when it is a local archive path, a valid
  package name, or a valid name and a valid version around one equals sign.
\<close>

theorem debian_argument_grammar:
  "validate_debian_package_name_or_file arg = Inr () \<longleftrightarrow>
     is_local_debian_package_file arg \<or> validate_package_name arg = Inr () \<or>
     (\<exists>n v. arg = n @ ''='' @ v \<and> validate_package_name n = Inr () \<and> validate_version v = Inr ())"
  (is "_ \<longleftrightarrow> _ \<or> ?name arg \<or> (\<exists>n v. ?pin n v)")
proof -
  have eq: "\<not> is_safe_package_char CHR ''=''" "\<not> is_ascii_alphanumeric CHR ''=''" by code_simp+
  then have n: "?name x \<Longrightarrow> CHR ''='' \<notin> set x" for x
    by (auto simp: validate_package_name_ok)
  have v: "validate_version x = Inr () \<Longrightarrow> CHR ''='' \<notin> set x" for x
    using eq by (auto simp: validate_version_ok)
  have "validate_debian_package_spec arg = Inr () \<longleftrightarrow> ?name arg \<or> (\<exists>n v. ?pin n v)"
  proof (cases "split_once CHR ''='' arg")
    case None
    then have "CHR ''='' \<notin> set arg" by (simp add: split_once_None)
    then show ?thesis by (auto simp: validate_debian_package_spec_def None)
  next
    case (Some p)
    obtain a b where p: "p = (a, b)" by (cases p)
    with Some have ab: "arg = a @ CHR ''='' # b" "CHR ''='' \<notin> set a"
      by (simp_all add: split_once_Some)
    have uniq: "?pin x y \<Longrightarrow> x = a \<and> y = b" for x y
      using Some p n [of x] split_once_Some [of "CHR ''=''" arg x y] by auto
    have "\<not> ?name arg" using n [of arg] ab by auto
    moreover have "validate_debian_package_spec arg = Inr () \<longleftrightarrow> ?pin a b"
      using Some p ab v [of b] by (auto simp: validate_debian_package_spec_def)
    ultimately show ?thesis using uniq by blast
  qed
  then show ?thesis
    by (simp add: validate_debian_package_name_or_file_def validate_debian_package_specs_def)
qed

text \<open>
  An archive the ownership check returns was no symbolic link when inspected, is a regular
  file, and both it and its directory belong to root or the invoking user and are writable by
  neither group nor others (mode bits 4 and 1 are clear).
\<close>

theorem accepted_archive_is_trusted:
  assumes "validate_local_package_file fs path = Inr canonical"
  shows "is_local_package_file path \<and>
    (\<exists>link file dir parent uid.
      fs_lstat fs path = Inr link \<and> \<not> fm_symlink link \<and>
      fs_canonicalize fs path = Inr canonical \<and>
      fs_stat fs canonical = Inr file \<and> fm_file file \<and>
      path_parent canonical = Some parent \<and> fs_stat fs parent = Inr dir \<and>
      fs_invoking_uid fs = Inr uid \<and> {fm_uid file, fm_uid dir} \<subseteq> {0, uid} \<and>
      \<not> bit (fm_mode file) 1 \<and> \<not> bit (fm_mode file) 4 \<and>
      \<not> bit (fm_mode dir) 1 \<and> \<not> bit (fm_mode dir) 4)"
  using assms unfolding validate_local_package_file_def validate_local_archive_file_def
  by (auto simp: Let_def mode_18 ok_or_Inr)

definition example_fs :: "nat file_system" where
  "example_fs =
     \<lparr>fs_lstat = (\<lambda>p. Inr \<lparr>fm_symlink = False, fm_file = True, fm_uid = 1000, fm_mode = 0x81A4\<rparr>),
      fs_stat = (\<lambda>p. Inr \<lparr>fm_symlink = False, fm_file = p \<noteq> ''/var/cache'', fm_uid = 1000, fm_mode = 0x1ED\<rparr>),
      fs_canonicalize = (\<lambda>p. Inr p),
      fs_invoking_uid = Inr 1000\<rparr>"

theorem accepted_archive_is_trusted_witness:
  "validate_local_package_file example_fs ''/var/cache/a.pkg.tar.zst'' = Inr ''/var/cache/a.pkg.tar.zst'' \<and>
   is_local_package_file ''/var/cache/a.pkg.tar.zst''"
proof -
  have ok: "validate_local_package_file example_fs ''/var/cache/a.pkg.tar.zst''
      = Inr ''/var/cache/a.pkg.tar.zst''"
    by code_simp
  then show ?thesis using accepted_archive_is_trusted [OF ok] by blast
qed

end
