(* ===== verification/Spdx_License.thy ===== *)
theory Spdx_License
  imports Rust_Str
begin

text \<open>
  The license expressions of \<^verbatim>\<open>core/security/policy.rs\<close>: tokenizer, recursive-descent parser,
  allowlist, advisory classification, and the combination of several license entries. The parser's
  \<^verbatim>\<open>tokens\<close> and \<^verbatim>\<open>pos\<close> are modelled by the tokens that remain: \<^verbatim>\<open>pos += 1\<close> drops one, and
  \<^verbatim>\<open>self.pos > start\<close> compares lengths.
\<close>

section \<open>Tokens\<close>

datatype spdx_token = TId string | TAnd | TOr | TWith | TOpen | TClose

definition MAX_LICENSE_BYTES :: nat where "MAX_LICENSE_BYTES = 4096"
definition MAX_LICENSE_TOKENS :: nat where "MAX_LICENSE_TOKENS = 256"
definition MAX_LICENSE_NESTING :: nat where "MAX_LICENSE_NESTING = 32"

definition reference_part :: "string \<Rightarrow> bool" where
  "reference_part part \<longleftrightarrow> part \<noteq> [] \<and> list_all (\<lambda>c. is_ascii_alphanumeric c \<or> c \<in> set ''.-'') part"

definition spdx_identifier_valid :: "string \<Rightarrow> bool" where
  "spdx_identifier_valid ident =
     (case split_once CHR '':'' ident of
        Some (document, license) \<Rightarrow>
          (case strip_prefix ''documentref-'' document of None \<Rightarrow> False | Some p \<Rightarrow> reference_part p) \<and>
          (case strip_prefix ''licenseref-'' license of None \<Rightarrow> False | Some p \<Rightarrow> reference_part p)
      | None \<Rightarrow>
          let base = (case strip_suffix ''+'' ident of None \<Rightarrow> ident | Some b \<Rightarrow> b) in
          base \<noteq> [] \<and> list_all (\<lambda>c. is_ascii_alphanumeric c \<or> c \<in> set ''.-'') base)"

definition license_word_char :: "char \<Rightarrow> bool" where
  "license_word_char c \<longleftrightarrow> is_ascii_alphanumeric c \<or> c \<in> set ''.-+:''"

definition license_char :: "char \<Rightarrow> bool" where
  "license_char c \<longleftrightarrow> is_ascii_alphanumeric c \<or> is_ascii_whitespace c \<or> c \<in> set ''.-+:()''"

text \<open>The parenthesis check; \<open>None\<close> is the early return.\<close>

fun nesting_scan :: "nat \<Rightarrow> string \<Rightarrow> nat option" where
  "nesting_scan n [] = Some n"
| "nesting_scan n (c # s) =
     (if c = CHR ''('' then (if n + 1 > MAX_LICENSE_NESTING then None else nesting_scan (n + 1) s)
      else if c = CHR '')'' then (if n = 0 then None else nesting_scan (n - 1) s)
      else nesting_scan n s)"

definition push_word :: "spdx_token list \<Rightarrow> string \<Rightarrow> spdx_token list" where
  "push_word tokens word =
     (if word = [] then tokens
      else if eq_ignore_ascii_case word ''AND'' then tokens @ [TAnd]
      else if eq_ignore_ascii_case word ''OR'' then tokens @ [TOr]
      else if eq_ignore_ascii_case word ''WITH'' then tokens @ [TWith]
      else tokens @ [TId (to_ascii_lowercase word)])"

fun token_scan :: "spdx_token list \<Rightarrow> string \<Rightarrow> string \<Rightarrow> spdx_token list" where
  "token_scan tokens word [] = push_word tokens word"
| "token_scan tokens word (c # s) =
     (if c = CHR ''('' then token_scan (push_word tokens word @ [TOpen]) [] s
      else if c = CHR '')'' then token_scan (push_word tokens word @ [TClose]) [] s
      else if license_word_char c then token_scan tokens (word @ [c]) s
      else token_scan (push_word tokens word) [] s)"

definition token_valid :: "spdx_token \<Rightarrow> bool" where
  "token_valid t = (case t of TId ident \<Rightarrow> spdx_identifier_valid ident | _ \<Rightarrow> True)"

definition spdx_tokenize :: "string \<Rightarrow> spdx_token list option" where
  "spdx_tokenize license =
     (if str_len license > MAX_LICENSE_BYTES \<or> list_ex (\<lambda>c. \<not> license_char c) license then None
      else if nesting_scan 0 license \<noteq> Some 0 then None
      else let tokens = token_scan [] [] license in
        if length tokens > MAX_LICENSE_TOKENS \<or> list_ex (\<lambda>t. \<not> token_valid t) tokens then None
        else Some tokens)"

lemma spdx_tokenize_code [code]:
  "spdx_tokenize license =
     (if int (str_len license) > 4096 \<or> list_ex (\<lambda>c. \<not> license_char c) license then None
      else if nesting_scan 0 license \<noteq> Some 0 then None
      else let tokens = token_scan [] [] license in
        if int (length tokens) > 256 \<or> list_ex (\<lambda>t. \<not> token_valid t) tokens then None
        else Some tokens)"
  by (simp add: spdx_tokenize_def MAX_LICENSE_BYTES_def MAX_LICENSE_TOKENS_def)

section \<open>The parser\<close>

datatype spdx_expr =
    ExprId string
  | ExprWith string
  | ExprAnd spdx_expr spdx_expr
  | ExprOr spdx_expr spdx_expr

function parse_or :: "spdx_token list \<Rightarrow> (spdx_expr \<times> spdx_token list) option"
  and parse_or_loop :: "spdx_expr \<Rightarrow> spdx_token list \<Rightarrow> (spdx_expr \<times> spdx_token list) option"
  and parse_and :: "spdx_token list \<Rightarrow> (spdx_expr \<times> spdx_token list) option"
  and parse_and_loop :: "spdx_expr \<Rightarrow> spdx_token list \<Rightarrow> (spdx_expr \<times> spdx_token list) option"
  and parse_atom :: "spdx_token list \<Rightarrow> (spdx_expr \<times> spdx_token list) option" where
  "parse_or ts = (case parse_and ts of None \<Rightarrow> None | Some (e, r) \<Rightarrow> parse_or_loop e r)"
| "parse_or_loop e ts =
     (case ts of
        TOr # r \<Rightarrow> (case parse_and r of
            None \<Rightarrow> None | Some (right, r') \<Rightarrow> parse_or_loop (ExprOr e right) r')
      | _ \<Rightarrow> Some (e, ts))"
| "parse_and ts =
     (case parse_atom ts of
        None \<Rightarrow> None
      | Some (e, r) \<Rightarrow> if length r < length ts then parse_and_loop e r else None)"
| "parse_and_loop e ts =
     (case ts of
        TAnd # r \<Rightarrow> (case parse_atom r of
            None \<Rightarrow> None
          | Some (right, r') \<Rightarrow>
              if length r' < length ts then parse_and_loop (ExprAnd e right) r' else None)
      | TId _ # _ \<Rightarrow> (case parse_atom ts of
            None \<Rightarrow> None
          | Some (right, r') \<Rightarrow>
              if length r' < length ts then parse_and_loop (ExprOr e right) r' else None)
      | TOpen # _ \<Rightarrow> (case parse_atom ts of
            None \<Rightarrow> None
          | Some (right, r') \<Rightarrow>
              if length r' < length ts then parse_and_loop (ExprOr e right) r' else None)
      | _ \<Rightarrow> Some (e, ts))"
| "parse_atom ts =
     (case ts of
        TOpen # r \<Rightarrow> (case parse_or r of
            Some (e, TClose # r') \<Rightarrow> Some (e, r')
          | _ \<Rightarrow> None)
      | TId ident # TWith # r \<Rightarrow> (case r of TId _ # r' \<Rightarrow> Some (ExprWith ident, r') | _ \<Rightarrow> None)
      | TId ident # r \<Rightarrow> Some (ExprId ident, r)
      | _ \<Rightarrow> None)"
  by pat_completeness auto

text \<open>Parsing a conjunction consumes at least one token, so both loops make progress.\<close>

lemma parse_and_shorter_dom:
  "parse_or_parse_or_loop_parse_and_parse_and_loop_parse_atom_dom (Inl (Inl ts)) \<Longrightarrow> True"
  "parse_or_parse_or_loop_parse_and_parse_and_loop_parse_atom_dom (Inl (Inr (e1, ts1))) \<Longrightarrow> True"
  "parse_or_parse_or_loop_parse_and_parse_and_loop_parse_atom_dom (Inr (Inl ts2)) \<Longrightarrow>
     \<forall>x r. parse_and ts2 = Some (x, r) \<longrightarrow> length r < length ts2"
  "parse_or_parse_or_loop_parse_and_parse_and_loop_parse_atom_dom (Inr (Inr (Inl (e3, ts3)))) \<Longrightarrow>
     \<forall>x r. parse_and_loop e3 ts3 = Some (x, r) \<longrightarrow> length r \<le> length ts3"
  "parse_or_parse_or_loop_parse_and_parse_and_loop_parse_atom_dom (Inr (Inr (Inr ts4))) \<Longrightarrow> True"
proof (induction ts and e1 ts1 and ts2 and e3 ts3 and ts4
    rule: parse_or_parse_or_loop_parse_and_parse_and_loop_parse_atom.pinduct)
  case (3 ts)
  then show ?case
    by (fastforce simp: parse_and.psimps split: option.splits if_splits)
next
  case (4 e ts)
  show ?case
  proof (intro allI impI)
    fix x r
    assume *: "parse_and_loop e ts = Some (x, r)"
    note step = * [unfolded parse_and_loop.psimps [OF 4(1)]]
    show "length r \<le> length ts"
      using step 4(3,5,7)
      by (auto split: list.splits spdx_token.splits option.splits if_splits)
        (meson less_imp_le_nat le_trans)+
  qed
qed simp_all

termination parse_or
proof (relation "measure (case_sum (case_sum (\<lambda>ts. 3 * length ts + 2) (\<lambda>(e, ts). 3 * length ts + 1))
    (case_sum (\<lambda>ts. 3 * length ts + 1)
      (case_sum (\<lambda>(e, ts). 3 * length ts + 1) (\<lambda>ts. 3 * length ts))))")
qed (auto dest!: parse_and_shorter_dom(3) [rule_format])

declare parse_or.simps [simp del] parse_or_loop.simps [simp del] parse_and.simps [simp del]
  parse_and_loop.simps [simp del] parse_atom.simps [simp del]

definition parse_expression :: "string \<Rightarrow> spdx_expr option" where
  "parse_expression license =
     (case spdx_tokenize license of
        None \<Rightarrow> None
      | Some tokens \<Rightarrow> (case parse_or tokens of
          Some (e, []) \<Rightarrow> Some e
        | _ \<Rightarrow> None))"

section \<open>The allowlist\<close>

definition spdx_id_allowed :: "string \<Rightarrow> string list \<Rightarrow> bool" where
  "spdx_id_allowed ident allowed = list_ex (\<lambda>a.
     eq_ignore_ascii_case ident a \<or>
     (case strip_suffix ''+'' ident of None \<Rightarrow> False | Some base \<Rightarrow> eq_ignore_ascii_case base a) \<or>
     (case strip_suffix ''+'' a of None \<Rightarrow> False | Some base \<Rightarrow> eq_ignore_ascii_case ident base)) allowed"

fun spdx_expr_allowed :: "spdx_expr \<Rightarrow> string list \<Rightarrow> bool" where
  "spdx_expr_allowed (ExprId ident) allowed = spdx_id_allowed ident allowed"
| "spdx_expr_allowed (ExprWith ident) allowed = spdx_id_allowed ident allowed"
| "spdx_expr_allowed (ExprAnd l r) allowed = (spdx_expr_allowed l allowed \<and> spdx_expr_allowed r allowed)"
| "spdx_expr_allowed (ExprOr l r) allowed = (spdx_expr_allowed l allowed \<or> spdx_expr_allowed r allowed)"

definition license_matches_allowlist :: "string \<Rightarrow> string list \<Rightarrow> bool" where
  "license_matches_allowlist license allowed =
     (case parse_expression license of None \<Rightarrow> False | Some e \<Rightarrow> spdx_expr_allowed e allowed)"

text \<open>The advisory tokens of \<^verbatim>\<open>spdx_license_tokens\<close>.\<close>

definition spdx_license_tokens :: "string \<Rightarrow> string list" where
  "spdx_license_tokens license =
     map to_ascii_lowercase
       (filter (\<lambda>t. \<not> list_ex (eq_ignore_ascii_case t) [''AND'', ''OR'', ''WITH'', ''TO''])
         (filter (\<lambda>t. t \<noteq> [])
           (split_on (\<lambda>c. \<not> (is_ascii_alphanumeric c \<or> c \<in> set ''.-+'')) license)))"

section \<open>Classification\<close>

datatype license_classification = Unknown | Proprietary | Permissive | Copyleft | StrongCopyleft

fun class_rank :: "license_classification \<Rightarrow> nat" where
  "class_rank Unknown = 0"
| "class_rank Proprietary = 1"
| "class_rank Permissive = 2"
| "class_rank Copyleft = 3"
| "class_rank StrongCopyleft = 4"

text \<open>The derived order of the enum: the order of its constructors.\<close>

lemma class_rank_inject: "class_rank a = class_rank b \<longleftrightarrow> a = b"
  by (cases a; cases b) simp_all

instantiation license_classification :: linorder
begin

definition less_eq_license_classification :: "license_classification \<Rightarrow> license_classification \<Rightarrow> bool" where
  "less_eq_license_classification a b \<longleftrightarrow> class_rank a \<le> class_rank b"

definition less_license_classification :: "license_classification \<Rightarrow> license_classification \<Rightarrow> bool" where
  "less_license_classification a b \<longleftrightarrow> class_rank a < class_rank b"

instance
  by standard
    (auto simp: less_eq_license_classification_def less_license_classification_def class_rank_inject [symmetric])

end

record license_assessment =
  la_category :: license_classification
  la_unresolved_review :: bool

definition strong_copyleft_ids :: "string list" where
  "strong_copyleft_ids =
     [''agpl'', ''agpl1'', ''agpl3'', ''agpl-1.0'', ''agpl-1.0-only'', ''agpl-1.0-or-later'',
      ''agpl-3.0'', ''agpl-3.0-only'', ''agpl-3.0-or-later'']"

definition copyleft_ids :: "string list" where
  "copyleft_ids =
     [''gpl'', ''gpl1'', ''gpl2'', ''gpl3'', ''lgpl'', ''lgpl2'', ''lgpl3'', ''lgpl2.1'', ''gpl-1.0'',
      ''gpl-1.0-only'', ''gpl-1.0-or-later'', ''gpl-2.0'', ''gpl-2.0-only'', ''gpl-2.0-or-later'',
      ''gpl-3.0'', ''gpl-3.0-only'', ''gpl-3.0-or-later'', ''lgpl-2.0'', ''lgpl-2.0-only'',
      ''lgpl-2.0-or-later'', ''lgpl-2.1'', ''lgpl-2.1-only'', ''lgpl-2.1-or-later'', ''lgpl-3.0'',
      ''lgpl-3.0-only'', ''lgpl-3.0-or-later'', ''mpl'', ''mpl-1.0'', ''mpl-1.1'', ''mpl-2.0'',
      ''mpl-2.0-no-copyleft-exception'']"

definition permissive_ids :: "string list" where
  "permissive_ids =
     [''mit'', ''mit-0'', ''isc'', ''unlicense'', ''cc0'', ''cc0-1.0'', ''0bsd'', ''bsd'',
      ''bsd-2-clause'', ''bsd-3-clause'', ''bsd-4-clause'', ''apache'', ''apache-1.0'',
      ''apache-1.1'', ''apache-2.0'']"

definition classify_license_id :: "string \<Rightarrow> license_classification" where
  "classify_license_id ident =
     (let base = (case strip_suffix ''+'' ident of None \<Rightarrow> ident | Some b \<Rightarrow> b) in
      if base \<in> set strong_copyleft_ids then StrongCopyleft
      else if base \<in> set copyleft_ids then Copyleft
      else if base \<in> set permissive_ids then Permissive
      else if base \<in> set [''proprietary'', ''commercial''] then Proprietary
      else Unknown)"

fun assess :: "spdx_expr \<Rightarrow> license_assessment" where
  "assess (ExprId ident) =
     (let category = classify_license_id ident in
      \<lparr>la_category = category, la_unresolved_review = (category = Unknown)\<rparr>)"
| "assess (ExprWith ident) =
     \<lparr>la_category = classify_license_id ident, la_unresolved_review = True\<rparr>"
| "assess (ExprAnd l r) =
     \<lparr>la_category = max (la_category (assess l)) (la_category (assess r)),
      la_unresolved_review = (la_unresolved_review (assess l) \<or> la_unresolved_review (assess r))\<rparr>"
| "assess (ExprOr l r) =
     \<lparr>la_category = max (la_category (assess l)) (la_category (assess r)),
      la_unresolved_review = (la_unresolved_review (assess l) \<or> la_unresolved_review (assess r))\<rparr>"

definition assess_license_expression :: "string \<Rightarrow> license_assessment" where
  "assess_license_expression license =
     (case parse_expression license of
        None \<Rightarrow> \<lparr>la_category = Unknown, la_unresolved_review = True\<rparr>
      | Some e \<Rightarrow> assess e)"

definition classify_license_expression :: "string \<Rightarrow> license_classification" where
  "classify_license_expression license = la_category (assess_license_expression license)"

section \<open>Several license entries\<close>

text \<open>The checked additions cannot overflow: every length is bounded by the address space.\<close>

fun combine_scan :: "string \<Rightarrow> string list \<Rightarrow> string option" where
  "combine_scan expression [] = Some expression"
| "combine_scan expression (license # rest) =
     (let separator = (if expression = [] then [] else '' AND '') in
      if str_len expression + str_len separator + str_len license + 2 > MAX_LICENSE_BYTES then None
      else combine_scan (expression @ separator @ ''('' @ license @ '')'') rest)"

lemma combine_scan_code [code]:
  "combine_scan expression [] = Some expression"
  "combine_scan expression (license # rest) =
     (let separator = (if expression = [] then [] else '' AND '') in
      if int (str_len expression + str_len separator + str_len license + 2) > 4096 then None
      else combine_scan (expression @ separator @ ''('' @ license @ '')'') rest)"
  by (simp_all add: MAX_LICENSE_BYTES_def)

definition combined_license_expression :: "string list \<Rightarrow> string option" where
  "combined_license_expression licenses =
     (case combine_scan [] licenses of
        None \<Rightarrow> None
      | Some expression \<Rightarrow> if expression = [] then None else Some expression)"

section \<open>The parser reads exactly one expression\<close>

lemmas parse_induct = parse_or_parse_or_loop_parse_and_parse_and_loop_parse_atom.induct

lemma parse_atom_open: "parse_atom (TOpen # rest) = Some (x, r) \<longleftrightarrow> parse_or rest = Some (x, TClose # r)"
  by (auto simp: parse_atom.simps [of "TOpen # rest"] split: option.splits list.splits spdx_token.splits)

text \<open>A closing parenthesis ends an expression: what parses before it parses in front of it.\<close>

lemma parse_extend:
  "parse_or ts = Some (x, r) \<Longrightarrow> parse_or (ts @ TClose # w) = Some (x, r @ TClose # w)"
  "parse_or_loop e1 ts1 = Some (x, r) \<Longrightarrow> parse_or_loop e1 (ts1 @ TClose # w) = Some (x, r @ TClose # w)"
  "parse_and ts2 = Some (x, r) \<Longrightarrow> parse_and (ts2 @ TClose # w) = Some (x, r @ TClose # w)"
  "parse_and_loop e3 ts3 = Some (x, r) \<Longrightarrow> parse_and_loop e3 (ts3 @ TClose # w) = Some (x, r @ TClose # w)"
  "parse_atom ts4 = Some (x, r) \<Longrightarrow> parse_atom (ts4 @ TClose # w) = Some (x, r @ TClose # w)"
proof (induction ts and e1 ts1 and ts2 and e3 ts3 and ts4 arbitrary: x r and x r and x r and x r and x r rule: parse_induct)
  case (1 ts)
  then show ?case
    by (auto simp: parse_or.simps [of ts] parse_or.simps [of "ts @ TClose # w"] split: option.splits)
next
  case (2 e ts)
  then show ?case
    by (auto simp: parse_or_loop.simps [of e ts] parse_or_loop.simps [of e "ts @ TClose # w"]
        split: list.splits spdx_token.splits option.splits)
next
  case (3 ts)
  then show ?case
    by (auto simp: parse_and.simps [of ts] parse_and.simps [of "ts @ TClose # w"] split: option.splits if_splits)
next
  case (4 e ts)
  then show ?case
    by (auto simp: parse_and_loop.simps [of e ts] parse_and_loop.simps [of e "ts @ TClose # w"]
        split: list.splits spdx_token.splits option.splits if_splits)
next
  case (5 ts)
  show ?case
  proof (cases "\<exists>rest. ts = TOpen # rest")
    case True
    then obtain rest where ts: "ts = TOpen # rest" by blast
    then have "parse_or rest = Some (x, TClose # r)" using 5(2) by (simp add: parse_atom_open)
    from 5(1) [OF ts refl this] show ?thesis using ts by (simp add: parse_atom_open)
  next
    case False
    then show ?thesis
      using 5(2) by (auto simp: parse_atom.simps [of ts] parse_atom.simps [of "ts @ TClose # w"]
        split: list.splits spdx_token.splits option.splits)
  qed
qed

lemma parse_or_loop_Some:
  assumes "parse_or_loop e ts = Some (x, r)"
  obtains (more) t right r' where "ts = TOr # t" "parse_and t = Some (right, r')"
      "parse_or_loop (ExprOr e right) r' = Some (x, r)"
    | (stop) "x = e" "r = ts"
  using assms by (auto simp: parse_or_loop.simps [of e ts] split: list.splits spdx_token.splits option.splits)

lemma parse_and_loop_Some:
  assumes "parse_and_loop e ts = Some (x, r)"
  obtains (more) t right r' where "ts = TAnd # t" "parse_atom t = Some (right, r')" "length r' < length ts"
      "parse_and_loop (ExprAnd e right) r' = Some (x, r)"
    | (word) t i right r' where "ts = TId i # t" "parse_atom ts = Some (right, r')" "length r' < length ts"
      "parse_and_loop (ExprOr e right) r' = Some (x, r)"
    | (group) t right r' where "ts = TOpen # t" "parse_atom ts = Some (right, r')" "length r' < length ts"
      "parse_and_loop (ExprOr e right) r' = Some (x, r)"
    | (stop) "x = e" "r = ts"
  using assms
  by (auto simp: parse_and_loop.simps [of e ts] split: list.splits spdx_token.splits option.splits if_splits)

fun leaves :: "spdx_expr \<Rightarrow> string list" where
  "leaves (ExprId i) = [i]"
| "leaves (ExprWith i) = [i]"
| "leaves (ExprAnd l r) = leaves l @ leaves r"
| "leaves (ExprOr l r) = leaves l @ leaves r"

text \<open>Every identifier of the tree is a token, and no token is used twice.\<close>

definition token_ids :: "spdx_token list \<Rightarrow> string set" where
  "token_ids ts = {i. TId i \<in> set ts}"

lemma token_ids_Cons [simp]:
  "token_ids [] = {}"
  "token_ids (TId i # ts) = insert i (token_ids ts)"
  "token_ids (TAnd # ts) = token_ids ts" "token_ids (TOr # ts) = token_ids ts"
  "token_ids (TWith # ts) = token_ids ts" "token_ids (TOpen # ts) = token_ids ts"
  "token_ids (TClose # ts) = token_ids ts"
  by (auto simp: token_ids_def)

lemma parse_leaves:
  "parse_or ts = Some (x, r) \<Longrightarrow> length (leaves x) + length r \<le> length ts \<and>
     set (leaves x) \<union> token_ids r \<subseteq> token_ids ts"
  "parse_or_loop e1 ts1 = Some (x, r) \<Longrightarrow> length (leaves x) + length r \<le> length (leaves e1) + length ts1 \<and>
     set (leaves x) \<union> token_ids r \<subseteq> set (leaves e1) \<union> token_ids ts1"
  "parse_and ts2 = Some (x, r) \<Longrightarrow> length (leaves x) + length r \<le> length ts2 \<and>
     set (leaves x) \<union> token_ids r \<subseteq> token_ids ts2"
  "parse_and_loop e3 ts3 = Some (x, r) \<Longrightarrow> length (leaves x) + length r \<le> length (leaves e3) + length ts3 \<and>
     set (leaves x) \<union> token_ids r \<subseteq> set (leaves e3) \<union> token_ids ts3"
  "parse_atom ts4 = Some (x, r) \<Longrightarrow> length (leaves x) + length r \<le> length ts4 \<and>
     set (leaves x) \<union> token_ids r \<subseteq> token_ids ts4"
proof (induction ts and e1 ts1 and ts2 and e3 ts3 and ts4 arbitrary: x r and x r and x r and x r and x r rule: parse_induct)
  case (1 ts)
  then show ?case
    by (simp add: parse_or.simps [of ts] split: option.splits prod.splits) fastforce
next
  case (2 e ts)
  from 2(3) show ?case
  proof (cases rule: parse_or_loop_Some)
    case (more t right r')
    from 2(1) [OF more(1) refl more(2)] 2(2) [OF more(1) refl more(2) refl more(3)] more(1)
    show ?thesis by auto
  qed auto
next
  case (3 ts)
  then show ?case
    by (simp add: parse_and.simps [of ts] split: option.splits if_splits prod.splits) fastforce
next
  case (4 e ts)
  from 4(7) show ?case
  proof (cases rule: parse_and_loop_Some)
    case (more t right r')
    from 4(3) [OF more(1) refl more(2)] 4(4) [OF more(1) refl more(2) refl more(3,4)] more(1)
    show ?thesis by auto
  next
    case (word t i right r')
    from 4(1) [OF word(1) refl word(2)] 4(2) [OF word(1) refl word(2) refl word(3,4)]
    show ?thesis by auto
  next
    case (group t right r')
    from 4(5) [OF group(1) refl group(2)] 4(6) [OF group(1) refl group(2) refl group(3,4)]
    show ?thesis by auto
  qed auto
next
  case (5 ts)
  show ?case
  proof (cases "\<exists>rest. ts = TOpen # rest")
    case True
    then obtain rest where ts: "ts = TOpen # rest" by blast
    then have "parse_or rest = Some (x, TClose # r)" using 5(2) by (simp add: parse_atom_open)
    from 5(1) [OF ts refl this] show ?thesis using ts by simp
  next
    case False
    then show ?thesis
      using 5(2) by (auto simp: parse_atom.simps [of ts] split: list.splits spdx_token.splits option.splits)
  qed
qed

section \<open>Tokens of a combined expression\<close>

lemma push_word_acc: "push_word ts w = ts @ push_word [] w"
  by (simp add: push_word_def)

lemma token_scan_acc: "token_scan ts w s = ts @ token_scan [] w s"
proof (induction s arbitrary: ts w)
  case Nil
  then show ?case using push_word_acc [of ts w] by simp
next
  case (Cons c s)
  have "token_scan (push_word ts w @ us) [] s = ts @ token_scan (push_word [] w @ us) [] s" for us
    using Cons.IH [of "push_word ts w @ us" "[]"] Cons.IH [of "push_word [] w @ us" "[]"]
      push_word_acc [of ts w] by simp
  from this [of "[TOpen]"] this [of "[TClose]"] this [of "[]"] Cons.IH [of ts "w @ [c]"]
  show ?case by simp
qed

lemma token_scan_close:
  "token_scan ts w (l @ CHR '')'' # rest) = token_scan ts w l @ TClose # token_scan [] [] rest"
proof (induction l arbitrary: ts w)
  case Nil
  then show ?case using token_scan_acc [of "push_word ts w @ [TClose]" "[]" rest] by simp
qed simp_all

lemma token_scan_group:
  "token_scan [] [] (CHR ''('' # l @ CHR '')'' # rest) = TOpen # token_scan [] [] l @ TClose # token_scan [] [] rest"
  using token_scan_acc [of "[TOpen]" "[]" l] by (simp add: token_scan_close push_word_def)

lemma token_scan_and: "token_scan [] [] ('' AND '' @ rest) = TAnd # token_scan [] [] rest"
proof -
  have "\<not> license_word_char CHR '' ''" "license_word_char CHR ''A''" "license_word_char CHR ''N''"
      "license_word_char CHR ''D''" "push_word [] ''AND'' = [TAnd]"
    by code_simp+
  then show ?thesis using token_scan_acc [of "[TAnd]" "[]" rest] by (simp add: push_word_def)
qed

text \<open>What the combination adds after the first entry.\<close>

fun and_groups :: "string list \<Rightarrow> spdx_token list" where
  "and_groups [] = []"
| "and_groups (l # ls) = TAnd # TOpen # token_scan [] [] l @ TClose # and_groups ls"

lemma combine_scan_tokens:
  "combine_scan (x @ '')'') ls = Some ex \<Longrightarrow>
   token_scan [] [] ex = token_scan [] [] (x @ '')'') @ and_groups ls"
proof (induction ls arbitrary: x)
  case (Cons l ls)
  have rec: "combine_scan ((x @ '')'' @ '' AND ('' @ l) @ '')'') ls = Some ex"
    using Cons.prems by (auto simp: Let_def split: if_splits)
  have "token_scan [] [] (x @ CHR '')'' # ('' AND '' @ CHR ''('' # l @ CHR '')'' # [])) =
      token_scan [] [] x @ TClose # TAnd # TOpen # token_scan [] [] l @ TClose # token_scan [] [] []"
    unfolding token_scan_close token_scan_and token_scan_group ..
  moreover have "token_scan [] [] (x @ '')'') = token_scan [] [] x @ [TClose]"
    using token_scan_close [of "[]" "[]" x "[]"] by (simp add: push_word_def)
  ultimately show ?case
    using Cons.IH [OF rec] by (simp add: push_word_def)
qed simp

lemma combined_tokens:
  assumes "combined_license_expression (l # ls) = Some ex"
  shows "token_scan [] [] ex = TOpen # token_scan [] [] l @ TClose # and_groups ls"
proof -
  have "combine_scan ((CHR ''('' # l) @ '')'') ls = Some ex"
    using assms by (auto simp: combined_license_expression_def Let_def split: option.splits if_splits)
  from combine_scan_tokens [OF this] show ?thesis
    using token_scan_group [of l "[]"] by (simp add: push_word_def)
qed

lemma parse_expression_tokens:
  "parse_expression l = Some e \<Longrightarrow> parse_or (token_scan [] [] l) = Some (e, [])"
  by (auto simp: parse_expression_def spdx_tokenize_def Let_def
      split: option.splits if_splits list.splits)

lemma parse_group:
  assumes "parse_expression l = Some e"
  shows "parse_atom (TOpen # token_scan [] [] l @ TClose # w) = Some (e, w)"
  using parse_extend(1) [OF parse_expression_tokens [OF assms], of w] by (simp add: parse_atom_open)

lemma parse_and_groups:
  "list_all2 (\<lambda>l e. parse_expression l = Some e) ls es \<Longrightarrow>
   parse_and_loop e (and_groups ls) = Some (foldl ExprAnd e es, [])"
proof (induction ls es arbitrary: e rule: list_all2_induct)
  case Nil
  then show ?case by (simp add: parse_and_loop.simps)
next
  case (Cons l ls e1 es)
  then show ?case
    by (simp add: parse_and_loop.simps [of e "TAnd # _"] parse_group)
qed

lemma parse_groups:
  assumes "parse_expression l = Some e" "list_all2 (\<lambda>l e. parse_expression l = Some e) ls es"
  shows "parse_and (TOpen # token_scan [] [] l @ TClose # and_groups ls) = Some (foldl ExprAnd e es, [])"
  by (simp add: parse_and.simps parse_group [OF assms(1)] parse_and_groups [OF assms(2)])

lemma combined_parses:
  assumes "combined_license_expression (l # ls) = Some ex" "spdx_tokenize ex \<noteq> None"
    "parse_expression l = Some e" "list_all2 (\<lambda>l e. parse_expression l = Some e) ls es"
  shows "parse_expression ex = Some (foldl ExprAnd e es)"
proof -
  have toks: "spdx_tokenize ex = Some (TOpen # token_scan [] [] l @ TClose # and_groups ls)"
    using assms(2) combined_tokens [OF assms(1)]
    by (auto simp: spdx_tokenize_def Let_def split: if_splits)
  have "parse_or (TOpen # token_scan [] [] l @ TClose # and_groups ls) = Some (foldl ExprAnd e es, [])"
    by (simp add: parse_or.simps parse_or_loop.simps parse_groups [OF assms(3,4)])
  then show ?thesis using toks by (simp add: parse_expression_def)
qed

lemma foldl_and_allowed:
  "spdx_expr_allowed (foldl ExprAnd e es) allowed \<longleftrightarrow>
   spdx_expr_allowed e allowed \<and> (\<forall>x \<in> set es. spdx_expr_allowed x allowed)"
  by (induction es arbitrary: e) auto

lemma token_scan_or: "token_scan [] [] ('' OR ('' @ rest) = TOr # TOpen # token_scan [] [] rest"
proof -
  have "\<not> license_word_char CHR '' ''" "license_word_char CHR ''O''" "license_word_char CHR ''R''" "push_word [] ''OR'' = [TOr]"
    by code_simp+
  then show ?thesis using token_scan_acc [of "[TOr, TOpen]" "[]" rest] by (simp add: push_word_def)
qed

lemma nesting_scan_append:
  "nesting_scan n (a @ b) = (case nesting_scan n a of None \<Rightarrow> None | Some m \<Rightarrow> nesting_scan m b)"
  by (induction a arbitrary: n) auto

text \<open>An entry that closes the parenthesis put around it and opens another one.\<close>

definition escaping_entry :: "string \<Rightarrow> string \<Rightarrow> string" where
  "escaping_entry x y = x @ '') OR ('' @ y"

lemma escaping_entry_malformed: "parse_expression x \<noteq> None \<Longrightarrow> parse_expression (escaping_entry x y) = None"
proof -
  assume "parse_expression x \<noteq> None"
  then have "nesting_scan 0 x = Some 0"
    by (auto simp: parse_expression_def spdx_tokenize_def Let_def split: option.splits if_splits)
  then have "nesting_scan 0 (escaping_entry x y) = None" by (simp add: escaping_entry_def nesting_scan_append)
  then show ?thesis by (simp add: parse_expression_def spdx_tokenize_def)
qed

lemma escaping_parses:
  assumes "combined_license_expression (escaping_entry x y # ls) = Some ex" "spdx_tokenize ex \<noteq> None"
    "parse_expression x = Some e" "parse_expression y = Some f" "list_all2 (\<lambda>l e. parse_expression l = Some e) ls es"
  shows "parse_expression ex = Some (ExprOr e (foldl ExprAnd f es))"
proof -
  let ?g = "TOpen # token_scan [] [] y @ TClose # and_groups ls"
  have "token_scan [] [] (escaping_entry x y) = token_scan [] [] x @ TClose # TOr # TOpen # token_scan [] [] y"
    using token_scan_close [of "[]" "[]" x "'' OR ('' @ y"] unfolding token_scan_or by (simp add: escaping_entry_def)
  then have toks: "spdx_tokenize ex = Some (TOpen # token_scan [] [] x @ TClose # TOr # ?g)"
    using assms(2) combined_tokens [OF assms(1)] by (auto simp: spdx_tokenize_def Let_def split: if_splits)
  have "parse_and (TOpen # token_scan [] [] x @ TClose # TOr # ?g) = Some (e, TOr # ?g)"
    by (simp add: parse_and.simps parse_group [OF assms(3)] parse_and_loop.simps)
  then have "parse_or (TOpen # token_scan [] [] x @ TClose # TOr # ?g) = Some (ExprOr e (foldl ExprAnd f es), [])"
    using parse_groups [OF assms(4,5)] by (simp add: parse_or.simps parse_or_loop.simps)
  then show ?thesis using toks by (simp add: parse_expression_def)
qed

section \<open>The meaning of an expression\<close>

text \<open>The ways to resolve the alternatives of an expression, each a set of identifiers to comply with.\<close>

fun choices :: "spdx_expr \<Rightarrow> string set set" where
  "choices (ExprId i) = {{i}}"
| "choices (ExprWith i) = {{i}}"
| "choices (ExprAnd l r) = {A \<union> B |A B. A \<in> choices l \<and> B \<in> choices r}"
| "choices (ExprOr l r) = choices l \<union> choices r"

lemma allowed_choices:
  "spdx_expr_allowed e allowed \<longleftrightarrow> (\<exists>A \<in> choices e. \<forall>i \<in> A. spdx_id_allowed i allowed)"
proof (induction e)
  case (ExprAnd l r)
  show ?case
  proof
    assume "spdx_expr_allowed (ExprAnd l r) allowed"
    then obtain A B where "A \<in> choices l" "B \<in> choices r" "\<forall>i \<in> A \<union> B. spdx_id_allowed i allowed"
      using ExprAnd by auto
    then show "\<exists>A \<in> choices (ExprAnd l r). \<forall>i \<in> A. spdx_id_allowed i allowed" by auto
  qed (use ExprAnd in auto)
qed auto

lemma leaves_nonempty: "leaves e \<noteq> []"
  by (induction e) auto

lemma assess_category: "la_category (assess e) = Max (classify_license_id ` set (leaves e))"
proof (induction e)
  case (ExprAnd l r)
  then show ?case by (simp add: image_Un Max_Un leaves_nonempty)
next
  case (ExprOr l r)
  then show ?case by (simp add: image_Un Max_Un leaves_nonempty)
qed (simp_all add: Let_def)

lemma assess_review: "\<not> la_unresolved_review (assess e) \<Longrightarrow> i \<in> set (leaves e) \<Longrightarrow> classify_license_id i \<noteq> Unknown"
  by (induction e) (auto simp: Let_def)

section \<open>Properties\<close>

text \<open>
  C19: separate license entries are cumulative: when every entry is a well-formed expression of its
  own and the combination stays within the tokenizer's limits, the combined expression satisfies
  an allowlist exactly when every entry does, whatever alternatives the entries contain.
\<close>

theorem combined_license_is_conjunction:
  assumes comb: "combined_license_expression licenses = Some ex" and tok: "spdx_tokenize ex \<noteq> None"
    and each: "\<And>l. l \<in> set licenses \<Longrightarrow> parse_expression l \<noteq> None"
  shows "license_matches_allowlist ex allowed \<longleftrightarrow> (\<forall>l \<in> set licenses. license_matches_allowlist l allowed)"
proof (cases licenses)
  case Nil
  then show ?thesis using comb by (simp add: combined_license_expression_def)
next
  case (Cons l ls)
  let ?es = "map (\<lambda>l. the (parse_expression l)) ls"
  obtain e where e: "parse_expression l = Some e" using each [of l] Cons by auto
  have es: "list_all2 (\<lambda>l e. parse_expression l = Some e) ls ?es"
    using each Cons by (auto simp: list_all2_map2 list_all2_same)
  have "parse_expression ex = Some (foldl ExprAnd e ?es)"
    using combined_parses [OF _ tok e es] comb Cons by simp
  moreover have "license_matches_allowlist l' allowed \<longleftrightarrow> spdx_expr_allowed (the (parse_expression l')) allowed"
    if "l' \<in> set licenses" for l'
    using each [OF that] by (auto simp: license_matches_allowlist_def)
  ultimately show ?thesis
    using e Cons by (auto simp: license_matches_allowlist_def foldl_and_allowed)
qed

theorem combined_license_is_conjunction_witness:
  "combined_license_expression [''MIT OR GPL-2.0'', ''Apache-2.0''] = Some ''(MIT OR GPL-2.0) AND (Apache-2.0)'' \<and>
   license_matches_allowlist ''(MIT OR GPL-2.0) AND (Apache-2.0)'' [''MIT'', ''apache-2.0'']"
proof -
  have run: "combined_license_expression [''MIT OR GPL-2.0'', ''Apache-2.0''] = Some ''(MIT OR GPL-2.0) AND (Apache-2.0)''"
    "spdx_tokenize ''(MIT OR GPL-2.0) AND (Apache-2.0)'' \<noteq> None"
    "parse_expression ''MIT OR GPL-2.0'' \<noteq> None" "parse_expression ''Apache-2.0'' \<noteq> None"
    "license_matches_allowlist ''MIT OR GPL-2.0'' [''MIT'', ''apache-2.0'']"
    "license_matches_allowlist ''Apache-2.0'' [''MIT'', ''apache-2.0'']"
    by code_simp+
  show ?thesis
    using combined_license_is_conjunction [OF run(1,2), of "[''MIT'', ''apache-2.0'']"] run by auto
qed

text \<open>
  C39: without that well-formedness an entry can escape its parentheses. An entry of the form
  \<^verbatim>\<open>x) OR (y\<close>, for any well-formed \<^verbatim>\<open>x\<close> and \<^verbatim>\<open>y\<close>, is malformed on its own, but in first place it turns the
  conjunction into an alternative: where the combination is within the tokenizer's limits and the
  other entries are well formed, it matches an allowlist as soon as \<^verbatim>\<open>x\<close> does, whatever the others say.
\<close>

theorem unbalanced_entry_escapes_conjunction:
  assumes "combined_license_expression (escaping_entry x y # ls) = Some ex" "spdx_tokenize ex \<noteq> None"
    and "parse_expression x \<noteq> None" "parse_expression y \<noteq> None" "\<And>l. l \<in> set ls \<Longrightarrow> parse_expression l \<noteq> None"
  shows "\<not> license_matches_allowlist (escaping_entry x y) allowed \<and>
    (license_matches_allowlist ex allowed \<longleftrightarrow>
      license_matches_allowlist x allowed \<or>
      license_matches_allowlist y allowed \<and> (\<forall>l \<in> set ls. license_matches_allowlist l allowed))"
proof -
  let ?es = "map (\<lambda>l. the (parse_expression l)) ls"
  obtain e f where e: "parse_expression x = Some e" "parse_expression y = Some f" using assms(3,4) by blast
  have "list_all2 (\<lambda>l e. parse_expression l = Some e) ls ?es" using assms(5) by (auto simp: list_all2_map2 list_all2_same)
  then have "parse_expression ex = Some (ExprOr e (foldl ExprAnd f ?es))" by (rule escaping_parses [OF assms(1,2) e])
  moreover have "license_matches_allowlist l allowed \<longleftrightarrow> spdx_expr_allowed (the (parse_expression l)) allowed" if "l \<in> set ls" for l
    using assms(5) [OF that] by (auto simp: license_matches_allowlist_def)
  ultimately show ?thesis
    using e escaping_entry_malformed [OF assms(3)] by (auto simp: license_matches_allowlist_def foldl_and_allowed)
qed

theorem unbalanced_entry_escapes_conjunction_witness:
  "combined_license_expression [escaping_entry ''MIT'' ''MIT'', ''GPL-3.0''] = Some ''(MIT) OR (MIT) AND (GPL-3.0)'' \<and>
   license_matches_allowlist ''(MIT) OR (MIT) AND (GPL-3.0)'' [''MIT''] \<and> \<not> license_matches_allowlist ''GPL-3.0'' [''MIT'']"
proof -
  have run: "combined_license_expression [escaping_entry ''MIT'' ''MIT'', ''GPL-3.0''] = Some ''(MIT) OR (MIT) AND (GPL-3.0)''"
    "spdx_tokenize ''(MIT) OR (MIT) AND (GPL-3.0)'' \<noteq> None" "parse_expression ''MIT'' \<noteq> None" "parse_expression ''GPL-3.0'' \<noteq> None"
    "license_matches_allowlist ''MIT'' [''MIT'']" "\<not> license_matches_allowlist ''GPL-3.0'' [''MIT'']"
    by code_simp+
  then show ?thesis using unbalanced_entry_escapes_conjunction [OF run(1,2,3,3), of "[''MIT'']"] by auto
qed

text \<open>
  A license matches an allowlist exactly when it parses and some way of resolving its
  alternatives leaves only allowed identifiers; malformed input never matches.
\<close>

theorem allowlist_resolves_alternatives:
  "license_matches_allowlist license allowed \<longleftrightarrow>
     (\<exists>e. parse_expression license = Some e \<and> (\<exists>A \<in> choices e. \<forall>i \<in> A. spdx_id_allowed i allowed))"
  by (auto simp: license_matches_allowlist_def allowed_choices split: option.splits)

theorem allowlist_resolves_alternatives_witness:
  "\<not> license_matches_allowlist ''GPL-3.0 AND MIT'' [''MIT''] \<and>
   (\<exists>e. parse_expression ''MIT OR GPL-3.0'' = Some e \<and> (\<exists>A \<in> choices e. \<forall>i \<in> A. spdx_id_allowed i [''MIT'']))"
proof -
  have "\<not> license_matches_allowlist ''GPL-3.0 AND MIT'' [''MIT'']"
    "license_matches_allowlist ''MIT OR GPL-3.0'' [''MIT'']"
    by code_simp+
  then show ?thesis by (simp only: allowlist_resolves_alternatives [symmetric] simp_thms)
qed

text \<open>
  An accepted expression is bounded: at most 4096 bytes of text and at most 256 identifiers in
  the tree, each a valid identifier, which bounds the recursion of every later walk of the tree.
\<close>

theorem parsed_expressions_are_bounded:
  assumes "parse_expression license = Some e"
  shows "str_len license \<le> 4096 \<and> length (leaves e) \<le> 256 \<and> (\<forall>i \<in> set (leaves e). spdx_identifier_valid i)"
proof -
  obtain ts where ts: "spdx_tokenize license = Some ts" "parse_or ts = Some (e, [])"
    using assms by (auto simp: parse_expression_def split: option.splits list.splits)
  have "str_len license \<le> 4096" "length ts \<le> 256" "\<forall>t \<in> set ts. token_valid t"
    using ts(1) by (auto simp: spdx_tokenize_def Let_def MAX_LICENSE_BYTES_def MAX_LICENSE_TOKENS_def
        list_ex_iff split: if_splits)
  then show ?thesis
    using parse_leaves(1) [OF ts(2)] by (force simp: token_ids_def token_valid_def)
qed

theorem parsed_expressions_are_bounded_witness:
  "parse_expression ''(MIT OR BSD) AND GPL-2.0+'' =
     Some (ExprAnd (ExprOr (ExprId ''mit'') (ExprId ''bsd'')) (ExprId ''gpl-2.0+'')) \<and>
   length (leaves (ExprAnd (ExprOr (ExprId ''mit'') (ExprId ''bsd'')) (ExprId ''gpl-2.0+''))) \<le> 256"
proof -
  have run: "parse_expression ''(MIT OR BSD) AND GPL-2.0+'' =
      Some (ExprAnd (ExprOr (ExprId ''mit'') (ExprId ''bsd'')) (ExprId ''gpl-2.0+''))"
    by code_simp
  then show ?thesis
    by (rule conjI [OF _ conjunct1 [OF conjunct2 [OF parsed_expressions_are_bounded [OF run]]]])
qed

text \<open>
  The advisory category of a parsed expression is the strongest family among its identifiers,
  however they are combined, and no review is pending only if every identifier was recognized.
\<close>

theorem classification_never_hides_a_family:
  assumes "parse_expression license = Some e" "i \<in> set (leaves e)"
  shows "classify_license_id i \<le> classify_license_expression license \<and>
    (\<not> la_unresolved_review (assess_license_expression license) \<longrightarrow> classify_license_id i \<noteq> Unknown)"
  using assms assess_review [of e i]
  by (simp add: classify_license_expression_def assess_license_expression_def assess_category)

theorem classification_never_hides_a_family_witness:
  "parse_expression ''MIT OR AGPL-3.0'' = Some (ExprOr (ExprId ''mit'') (ExprId ''agpl-3.0'')) \<and>
   classify_license_id ''agpl-3.0'' \<le> classify_license_expression ''MIT OR AGPL-3.0''"
proof -
  have run: "parse_expression ''MIT OR AGPL-3.0'' = Some (ExprOr (ExprId ''mit'') (ExprId ''agpl-3.0''))"
    by code_simp
  have "''agpl-3.0'' \<in> set (leaves (ExprOr (ExprId ''mit'') (ExprId ''agpl-3.0'')))" by simp
  from conjunct1 [OF classification_never_hides_a_family [OF run this]] show ?thesis by (rule conjI [OF run])
qed

end
