(* ===== verification/Security_Policy.thy ===== *)
theory Security_Policy
  imports Spdx_License
begin

text \<open>
  \<^verbatim>\<open>core/security/policy.rs\<close>: loading the policy file, the hand-over of the policy to an elevated
  child, grades, the check of one package and of a prepared transaction. The file system, the TOML
  and JSON parsers, the hexadecimal coding and the vulnerability source are parameters, collected
  in \<open>policy_env\<close> and in the \<open>scan\<close> argument. \<^verbatim>\<open>INHERITED_POLICY\<close>, a cell that is set once, is
  threaded as an option.
\<close>

section \<open>Data\<close>

datatype security_grade = Risk | Community | Verified | Locked

fun grade_rank :: "security_grade \<Rightarrow> nat" where
  "grade_rank Risk = 0"
| "grade_rank Community = 1"
| "grade_rank Verified = 2"
| "grade_rank Locked = 3"

lemma grade_rank_inject: "grade_rank a = grade_rank b \<longleftrightarrow> a = b"
  by (cases a; cases b) simp_all

instantiation security_grade :: linorder
begin

definition less_eq_security_grade :: "security_grade \<Rightarrow> security_grade \<Rightarrow> bool" where
  "less_eq_security_grade a b \<longleftrightarrow> grade_rank a \<le> grade_rank b"

definition less_security_grade :: "security_grade \<Rightarrow> security_grade \<Rightarrow> bool" where
  "less_security_grade a b \<longleftrightarrow> grade_rank a < grade_rank b"

instance
  by standard
    (auto simp: less_eq_security_grade_def less_security_grade_def grade_rank_inject [symmetric])

end

record security_policy =
  sp_minimum_grade :: security_grade
  sp_allow_aur :: bool
  sp_require_pgp :: bool
  sp_allowed_licenses :: "string list"
  sp_banned_packages :: "string list"

definition default_policy :: security_policy where
  "default_policy =
     \<lparr>sp_minimum_grade = Community, sp_allow_aur = True, sp_require_pgp = False,
      sp_allowed_licenses = [], sp_banned_packages = []\<rparr>"

datatype io_error = IoNotFound | IoInvalidData string | IoOther string

datatype policy_error =
    LegacySecurityConfig string
  | PolicyRead string io_error
  | PolicyParse string string
  | GradeTooLow string security_grade security_grade
  | Banned string
  | AurDisabled string
  | PgpRequired string
  | LicenseNotAllowed string string
  | LicenseUnknown string

datatype toml_value = TomlTable "(string \<times> toml_value) list" | TomlScalar string

text \<open>An opened file: its metadata and the result of reading up to one byte past the limit.\<close>

record policy_file =
  pf_is_file :: bool
  pf_len :: nat
  pf_read :: "(io_error, string) result"

record policy_env =
  pe_open :: "string \<Rightarrow> (io_error, policy_file) result"
  pe_exists :: "string \<Rightarrow> bool"
  pe_parse_policy :: "string \<Rightarrow> (string, security_policy) result"
  pe_parse_table :: "string \<Rightarrow> (string, (string \<times> toml_value) list) result"
  pe_config_dir :: string
  pe_is_root :: bool
  pe_to_json :: "security_policy \<Rightarrow> (string, 8 word list) result"
  pe_from_json :: "8 word list \<Rightarrow> (string, security_policy) result"
  pe_hex_encode :: "8 word list \<Rightarrow> string"
  pe_hex_decode :: "string \<Rightarrow> (string, 8 word list) result"

section \<open>Loading\<close>

definition MAX_POLICY_BYTES :: int where "MAX_POLICY_BYTES = 1024 * 1024"

definition map_err :: "('e \<Rightarrow> 'f) \<Rightarrow> ('e, 'a) result \<Rightarrow> ('f, 'a) result" where
  "map_err f r = (case r of Inl e \<Rightarrow> Inl (f e) | Inr a \<Rightarrow> Inr a)"

lemma map_err_eq [simp]:
  "map_err f r = Inr a \<longleftrightarrow> r = Inr a"
  "map_err f r = Inl e \<longleftrightarrow> (\<exists>e'. r = Inl e' \<and> e = f e')"
  by (auto simp: map_err_def split: sum.splits)

definition read_policy_file :: "policy_env \<Rightarrow> string \<Rightarrow> (io_error, string) result" where
  "read_policy_file env path =
     rbind (pe_open env path) (\<lambda>file.
     rbind (ensure (pf_is_file file) (IoInvalidData ''Security policy must be a regular file'')) (\<lambda>_.
     rbind (ensure (int (pf_len file) \<le> MAX_POLICY_BYTES)
       (IoInvalidData ''Security policy exceeds 1 MiB limit'')) (\<lambda>_.
     rbind (pf_read file) (\<lambda>content.
     rbind (ensure (int (str_len content) \<le> MAX_POLICY_BYTES)
       (IoInvalidData ''Security policy exceeds 1 MiB limit'')) (\<lambda>_.
     Inr content)))))"

definition policy_load :: "policy_env \<Rightarrow> string \<Rightarrow> (policy_error, security_policy) result" where
  "policy_load env path =
     rbind (map_err (PolicyRead path) (read_policy_file env path)) (\<lambda>content.
     map_err (PolicyParse path) (pe_parse_policy env content))"

definition validate_legacy_security_config ::
  "(string \<times> toml_value) list \<Rightarrow> string \<Rightarrow> (policy_error, unit) result" where
  "validate_legacy_security_config table path =
     (case map_of table ''security'' of
        Some security \<Rightarrow>
          if security \<noteq> TomlTable [] then Inl (LegacySecurityConfig path) else Inr ()
      | None \<Rightarrow> Inr ())"

definition reject_legacy_security_file :: "policy_env \<Rightarrow> string \<Rightarrow> (policy_error, unit) result" where
  "reject_legacy_security_file env path =
     (case read_policy_file env path of
        Inr content \<Rightarrow>
          rbind (map_err (PolicyParse path) (pe_parse_table env content)) (\<lambda>table.
          validate_legacy_security_config table path)
      | Inl IoNotFound \<Rightarrow> Inr ()
      | Inl source \<Rightarrow> Inl (PolicyRead path source))"

text \<open>\<^verbatim>\<open>Path::join\<close> of a file name and \<^verbatim>\<open>Path::with_file_name\<close>.\<close>

definition path_join :: "string \<Rightarrow> string \<Rightarrow> string" where
  "path_join dir f = dir @ ''/'' @ f"

definition with_file_name :: "string \<Rightarrow> string \<Rightarrow> string" where
  "with_file_name path f =
     (case rsplit_once CHR ''/'' path of None \<Rightarrow> f | Some (dir, _) \<Rightarrow> dir @ ''/'' @ f)"

definition load_optional :: "policy_env \<Rightarrow> string \<Rightarrow> (policy_error, security_policy) result" where
  "load_optional env path =
     rbind (reject_legacy_security_file env (with_file_name path ''config.toml'')) (\<lambda>_.
     (case policy_load env path of
        Inr policy \<Rightarrow> Inr policy
      | Inl (PolicyRead _ IoNotFound) \<Rightarrow> Inr default_policy
      | Inl e \<Rightarrow> Inl e))"

definition policy_path :: "policy_env \<Rightarrow> string" where
  "policy_path env = path_join (pe_config_dir env) ''policy.toml''"

definition load_default ::
  "policy_env \<Rightarrow> security_policy option \<Rightarrow> (policy_error, security_policy) result" where
  "load_default env inherited =
     (case inherited of Some policy \<Rightarrow> Inr policy | None \<Rightarrow> load_optional env (policy_path env))"

definition explicit_policy_exists :: "policy_env \<Rightarrow> security_policy option \<Rightarrow> bool" where
  "explicit_policy_exists env inherited \<longleftrightarrow> inherited \<noteq> None \<or> pe_exists env (policy_path env)"

section \<open>The hand-over to an elevated child\<close>

datatype handoff_error =
    NotElevated
  | MissingMarker
  | HandoffTooLong
  | HandoffDecode string
  | HandoffLoad policy_error
  | HandoffMismatch
  | HandoffDuplicate
  | HandoffPolicyTooLong
  | NoPlanSupport string

definition POLICY_MARKER :: string where "POLICY_MARKER = ''__omg_policy=''"

definition validate_inherited_policy :: "policy_env \<Rightarrow> security_policy \<Rightarrow> (handoff_error, unit) result" where
  "validate_inherited_policy env policy =
     rbind (map_err HandoffLoad (load_optional env (policy_path env))) (\<lambda>trusted.
     ensure (policy = trusted) HandoffMismatch)"

text \<open>The result carries the new value of the cell.\<close>

definition inherit_policy ::
  "policy_env \<Rightarrow> security_policy option \<Rightarrow> string \<Rightarrow> (handoff_error, security_policy option) result" where
  "inherit_policy env inherited argument =
     rbind (ensure (pe_is_root env) NotElevated) (\<lambda>_.
     rbind (case strip_prefix POLICY_MARKER argument of None \<Rightarrow> Inl MissingMarker | Some e \<Rightarrow> Inr e) (\<lambda>encoded.
     rbind (ensure (int (str_len encoded) \<le> 65536) HandoffTooLong) (\<lambda>_.
     rbind (map_err HandoffDecode (pe_hex_decode env encoded)) (\<lambda>bytes.
     rbind (map_err HandoffDecode (pe_from_json env bytes)) (\<lambda>policy.
     rbind (validate_inherited_policy env policy) (\<lambda>_.
     (case inherited of Some _ \<Rightarrow> Inl HandoffDuplicate | None \<Rightarrow> Inr (Some policy))))))))"

definition policy_handoff ::
  "policy_env \<Rightarrow> security_policy option \<Rightarrow> (handoff_error, string option) result" where
  "policy_handoff env inherited =
     (if \<not> explicit_policy_exists env inherited then Inr None
      else
        rbind (map_err HandoffLoad (load_default env inherited)) (\<lambda>policy.
        rbind (map_err HandoffDecode (pe_to_json env policy)) (\<lambda>bytes.
        rbind (ensure (int (length bytes) \<le> 32768) HandoffPolicyTooLong) (\<lambda>_.
        Inr (Some (POLICY_MARKER @ pe_hex_encode env bytes))))))"

definition require_native_plan_support ::
  "policy_env \<Rightarrow> security_policy option \<Rightarrow> string \<Rightarrow> (handoff_error, unit) result" where
  "require_native_plan_support env inherited backend =
     rbind (map_err HandoffLoad (load_default env inherited)) (\<lambda>policy.
     ensure (\<not> explicit_policy_exists env inherited \<and> policy = default_policy) (NoPlanSupport backend))"

section \<open>Checking packages\<close>

text \<open>\<open>scan name version\<close> is the vulnerability source: an error, or the vulnerabilities found.\<close>

definition assign_grade ::
  "(string \<Rightarrow> string \<Rightarrow> ('e, 'v list) result) \<Rightarrow> string \<Rightarrow> string \<Rightarrow> bool \<Rightarrow> ('e, security_grade) result" where
  "assign_grade scan name version is_official =
     rbind (scan name version) (\<lambda>vulnerabilities.
     if vulnerabilities \<noteq> [] then Inr Risk
     else if is_official then Inr Verified
     else Inr Community)"

definition check_package ::
  "security_policy \<Rightarrow> string \<Rightarrow> bool \<Rightarrow> string option \<Rightarrow> security_grade \<Rightarrow> (policy_error, unit) result" where
  "check_package policy name is_aur license grade =
     rbind (ensure (\<not> grade < sp_minimum_grade policy)
       (GradeTooLow name grade (sp_minimum_grade policy))) (\<lambda>_.
     rbind (ensure (\<not> list_ex (\<lambda>banned. banned = name) (sp_banned_packages policy)) (Banned name)) (\<lambda>_.
     rbind (ensure (\<not> (is_aur \<and> \<not> sp_allow_aur policy)) (AurDisabled name)) (\<lambda>_.
     rbind (ensure (\<not> (sp_require_pgp policy \<and> grade < Verified)) (PgpRequired name)) (\<lambda>_.
     if sp_allowed_licenses policy \<noteq> [] then
       (case license of
          Some lic \<Rightarrow> if license_matches_allowlist lic (sp_allowed_licenses policy) then Inr ()
            else Inl (LicenseNotAllowed name lic)
        | None \<Rightarrow> Inl (LicenseUnknown name))
     else Inr ()))))"

definition check_source :: "security_policy \<Rightarrow> string \<Rightarrow> bool \<Rightarrow> string option \<Rightarrow> (policy_error, unit) result" where
  "check_source policy name is_aur license =
     check_package policy name is_aur license (if is_aur then Community else Verified)"

type_synonym prepared_package = "string \<times> string \<times> bool \<times> string option"

datatype 'e prepared_error = PreparedPolicy policy_error | PreparedScan 'e | PreparedWorker string

definition check_prepared_with_source ::
  "security_policy \<Rightarrow> prepared_package list \<Rightarrow> (string \<Rightarrow> string \<Rightarrow> ('e, 'v list) result) \<Rightarrow>
   ('e prepared_error, unit) result" where
  "check_prepared_with_source policy packages scan =
     for_result (\<lambda>(name, version, community, license).
       rbind (map_err PreparedPolicy (check_source policy name community license)) (\<lambda>_.
       rbind (map_err PreparedScan (assign_grade scan name version (\<not> community))) (\<lambda>grade.
       map_err PreparedPolicy (check_package policy name community license grade)))) packages"

text \<open>\<open>worker\<close> is the start of the worker thread and of its runtime.\<close>

definition check_prepared_packages ::
  "policy_env \<Rightarrow> security_policy option \<Rightarrow> (string, unit) result \<Rightarrow>
   (string \<Rightarrow> string \<Rightarrow> ('e, 'v list) result) \<Rightarrow> prepared_package list \<Rightarrow> ('e prepared_error, unit) result" where
  "check_prepared_packages env inherited worker scan packages =
     rbind (map_err PreparedPolicy (load_default env inherited)) (\<lambda>policy.
     if \<not> explicit_policy_exists env inherited then
       for_result (\<lambda>(name, _, community, license).
         map_err PreparedPolicy (check_source policy name community license)) packages
     else
       rbind (map_err PreparedWorker worker) (\<lambda>_.
       check_prepared_with_source policy packages scan))"

section \<open>Lemmas\<close>

lemma grade_less_simps [simp]:
  "Risk < Verified" "Community < Verified" "\<not> Verified < Verified" "\<not> Locked < Verified" "Risk \<le> g"
  by (simp_all add: less_security_grade_def less_eq_security_grade_def)

lemma grade_le_simps [simp]: "g \<le> Risk \<longleftrightarrow> g = Risk" "\<not> Verified \<le> Risk"
  by (cases g) (simp_all add: less_eq_security_grade_def)

lemma check_package_ok:
  "check_package policy name is_aur license grade = Inr u \<longleftrightarrow>
     sp_minimum_grade policy \<le> grade \<and> name \<notin> set (sp_banned_packages policy) \<and>
     (is_aur \<longrightarrow> sp_allow_aur policy) \<and> (sp_require_pgp policy \<longrightarrow> Verified \<le> grade) \<and>
     (sp_allowed_licenses policy \<noteq> [] \<longrightarrow>
        (\<exists>lic. license = Some lic \<and> license_matches_allowlist lic (sp_allowed_licenses policy)))"
  by (auto simp: check_package_def list_ex_iff not_less split: option.splits if_splits)

lemma assign_grade_ok:
  "assign_grade scan name version official = Inr g \<longleftrightarrow>
     (\<exists>vs. scan name version = Inr vs \<and>
       g = (if vs \<noteq> [] then Risk else if official then Verified else Community))"
  by (auto simp: assign_grade_def)

lemma read_policy_file_ok:
  "read_policy_file env path = Inr content \<longleftrightarrow>
     (\<exists>file. pe_open env path = Inr file \<and> pf_is_file file \<and> int (pf_len file) \<le> 1048576 \<and>
       pf_read file = Inr content \<and> int (str_len content) \<le> 1048576)"
  by (auto simp: read_policy_file_def MAX_POLICY_BYTES_def)

lemma load_optional_ok:
  "load_optional env path = Inr p \<longleftrightarrow>
     reject_legacy_security_file env (with_file_name path ''config.toml'') = Inr () \<and>
     (policy_load env path = Inr p \<or>
      p = default_policy \<and> (\<exists>q. policy_load env path = Inl (PolicyRead q IoNotFound)))"
  by (auto simp: load_optional_def split: sum.splits policy_error.splits io_error.splits)

lemma check_prepared_with_source_ok:
  "check_prepared_with_source policy packages scan = Inr u \<longleftrightarrow>
     (\<forall>(name, version, community, license) \<in> set packages.
        check_source policy name community license = Inr () \<and>
        (\<exists>g. assign_grade scan name version (\<not> community) = Inr g \<and>
          check_package policy name community license g = Inr ()))"
  by (auto simp: check_prepared_with_source_def for_result_Inr)

section \<open>Properties\<close>

text \<open>
  C21: when an explicit policy is in force, a prepared transaction passes only if the policy loads and
  every package of it was scanned, is not banned, respects the AUR switch and the license
  allowlist, and is free of known vulnerabilities unless the policy asks for no more than the
  lowest grade and no signature.
\<close>

theorem prepared_transaction_is_vetted:
  assumes "check_prepared_packages env inherited worker scan packages = Inr ()"
    and "explicit_policy_exists env inherited"
    and "(name, version, community, license) \<in> set packages"
  shows "\<exists>policy vulnerabilities. load_default env inherited = Inr policy \<and>
    scan name version = Inr vulnerabilities \<and>
    (vulnerabilities = [] \<or> sp_minimum_grade policy = Risk \<and> \<not> sp_require_pgp policy) \<and>
    name \<notin> set (sp_banned_packages policy) \<and> (community \<longrightarrow> sp_allow_aur policy) \<and>
    (sp_allowed_licenses policy \<noteq> [] \<longrightarrow>
      (\<exists>lic. license = Some lic \<and> license_matches_allowlist lic (sp_allowed_licenses policy)))"
proof -
  obtain policy where p: "load_default env inherited = Inr policy"
      "check_prepared_with_source policy packages scan = Inr ()"
    using assms(1,2) by (auto simp: check_prepared_packages_def)
  obtain g where g: "assign_grade scan name version (\<not> community) = Inr g"
      "check_package policy name community license g = Inr ()"
    using p(2) assms(3) by (fastforce simp: check_prepared_with_source_ok)
  obtain vs where vs: "scan name version = Inr vs"
      "g = (if vs \<noteq> [] then Risk else if \<not> community then Verified else Community)"
    using g(1) by (auto simp: assign_grade_ok)
  have "sp_minimum_grade policy = Risk \<and> \<not> sp_require_pgp policy" if "vs \<noteq> []"
    using g(2) vs(2) that by (auto simp: check_package_ok)
  then show ?thesis using p(1) vs(1) g(2) by (auto simp: check_package_ok)
qed

text \<open>
  C31: the argument an elevated child receives cannot change the policy it enforces: an accepted
  hand-over leaves the child with exactly the policy it would load from its own trusted file.
\<close>

theorem inherited_policy_is_the_trusted_one:
  assumes "inherit_policy env inherited argument = Inr inherited'"
  shows "inherited = None \<and> pe_is_root env \<and>
    load_default env inherited' = load_optional env (policy_path env) \<and>
    (\<exists>policy. load_default env inherited' = Inr policy)"
  using assms
  by (auto simp: inherit_policy_def validate_inherited_policy_def load_default_def split: option.splits)

text \<open>
  C34: the hand-over is complete: with a coding of the policy that reads back, whatever a parent hands
  over from its policy file is accepted by an elevated child that sees the same file, and the two
  size limits agree.
\<close>

theorem policy_handoff_round_trip:
  assumes handoff: "policy_handoff parent None = Inr (Some argument)"
    and same: "load_optional child (policy_path child) = load_optional parent (policy_path parent)"
    and root: "pe_is_root child"
    and json: "\<And>p b. pe_to_json parent p = Inr b \<Longrightarrow> pe_from_json child b = Inr p"
    and hex: "\<And>b. pe_hex_decode child (pe_hex_encode parent b) = Inr b"
    and hex_len: "\<And>b. str_len (pe_hex_encode parent b) = 2 * length b"
  shows "\<exists>policy. load_default parent None = Inr policy \<and> inherit_policy child None argument = Inr (Some policy)"
proof -
  obtain policy bytes where p: "load_optional parent (policy_path parent) = Inr policy"
      "pe_to_json parent policy = Inr bytes" "int (length bytes) \<le> 32768"
      "argument = POLICY_MARKER @ pe_hex_encode parent bytes"
    using handoff by (auto simp: policy_handoff_def load_default_def split: if_splits)
  have "strip_prefix POLICY_MARKER argument = Some (pe_hex_encode parent bytes)"
    using p(4) by (simp add: strip_prefix_Some)
  then have "inherit_policy child None argument = Inr (Some policy)"
    using p(1-3) root hex hex_len json [OF p(2)] same
    by (simp add: inherit_policy_def validate_inherited_policy_def)
  then show ?thesis using p(1) by (simp add: load_default_def)
qed

text \<open>
  Loading fails closed: a policy other than the built-in default comes from a regular file of at
  most one mebibyte that parsed, the default is used only when that file is absent, and a
  populated legacy section in the sibling configuration is never ignored.
\<close>

theorem load_optional_fails_closed:
  assumes "load_optional env path = Inr policy"
  shows "((\<exists>file content. pe_open env path = Inr file \<and> pf_is_file file \<and> pf_read file = Inr content \<and>
       int (str_len content) \<le> 1048576 \<and> pe_parse_policy env content = Inr policy) \<or>
     policy = default_policy \<and> pe_open env path = Inl IoNotFound \<or>
     policy = default_policy \<and> (\<exists>file. pe_open env path = Inr file \<and> pf_read file = Inl IoNotFound)) \<and>
    (\<forall>content table v. read_policy_file env (with_file_name path ''config.toml'') = Inr content \<longrightarrow>
       pe_parse_table env content = Inr table \<longrightarrow> map_of table ''security'' = Some v \<longrightarrow> v = TomlTable [])"
proof (intro conjI allI impI)
  show "(\<exists>file content. pe_open env path = Inr file \<and> pf_is_file file \<and> pf_read file = Inr content \<and>
       int (str_len content) \<le> 1048576 \<and> pe_parse_policy env content = Inr policy) \<or>
     policy = default_policy \<and> pe_open env path = Inl IoNotFound \<or>
     policy = default_policy \<and> (\<exists>file. pe_open env path = Inr file \<and> pf_read file = Inl IoNotFound)"
    using assms by (auto simp: load_optional_ok policy_load_def read_policy_file_ok)
      (auto simp: read_policy_file_def rbind_eq_Inl)
next
  fix content table v
  assume "read_policy_file env (with_file_name path ''config.toml'') = Inr content"
    "pe_parse_table env content = Inr table" "map_of table ''security'' = Some v"
  then show "v = TomlTable []"
    using assms by (auto simp: load_optional_ok reject_legacy_security_file_def
        validate_legacy_security_config_def split: if_splits)
qed

section \<open>Witnesses\<close>

definition example_policy :: security_policy where
  "example_policy = default_policy\<lparr>sp_allowed_licenses := [''MIT''], sp_banned_packages := [''evil'']\<rparr>"

text \<open>A coding of a byte by two letters, and its inverse.\<close>

definition letter_pair :: "8 word \<Rightarrow> string" where
  "letter_pair w = [char_of (unat w div 16 + 65), char_of (unat w mod 16 + 65)]"

fun letters_decode :: "string \<Rightarrow> 8 word list" where
  "letters_decode (a # b # s) = word_of_nat ((code_of a - 65) * 16 + (code_of b - 65)) # letters_decode s"
| "letters_decode s = []"

definition letters_encode :: "8 word list \<Rightarrow> string" where
  "letters_encode b = concat (map letter_pair b)"

lemma byte_bound: "unat (w :: 8 word) < 256"
  by (rule order_less_le_trans [OF unsigned_less]) simp

lemma letters_codes:
  "code_of (char_of (unat (w :: 8 word) div 16 + 65)) = unat w div 16 + 65"
  "code_of (char_of (unat w mod 16 + 65)) = unat w mod 16 + 65"
proof -
  have "unat w div 16 < 16" "unat w mod 16 < 16" using byte_bound [of w] by simp_all
  then show "code_of (char_of (unat w div 16 + 65)) = unat w div 16 + 65"
    "code_of (char_of (unat w mod 16 + 65)) = unat w mod 16 + 65"
    by simp_all
qed

lemma letters_round_trip: "letters_decode (letters_encode b) = b"
proof (induction b)
  case (Cons w b)
  have "unat w div 16 * 16 + unat w mod 16 = unat w" by (rule div_mult_mod_eq)
  then show ?case using Cons by (simp add: letters_encode_def letter_pair_def letters_codes)
qed (simp add: letters_encode_def)

lemma letters_length: "str_len (letters_encode b) = 2 * length b"
proof (induction b)
  case (Cons w b)
  have "unat w div 16 + 65 < 128" "unat w mod 16 + 65 < 128" using byte_bound [of w] by simp_all
  then show ?case
    using Cons by (simp add: letters_encode_def letter_pair_def str_len_def as_bytes_def utf8_char_def letters_codes)
qed (simp add: letters_encode_def str_len_def as_bytes_def)

definition example_env :: policy_env where
  "example_env =
     \<lparr>pe_open = (\<lambda>p. if p = ''/etc/omg/policy.toml''
         then Inr \<lparr>pf_is_file = True, pf_len = 3, pf_read = Inr ''abc''\<rparr> else Inl IoNotFound),
      pe_exists = (\<lambda>p. p = ''/etc/omg/policy.toml''),
      pe_parse_policy = (\<lambda>_. Inr example_policy),
      pe_parse_table = (\<lambda>_. Inr []),
      pe_config_dir = ''/etc/omg'', pe_is_root = True,
      pe_to_json = (\<lambda>p. if p = example_policy then Inr [1] else Inl ''unsupported''),
      pe_from_json = (\<lambda>b. if b = [1] then Inr example_policy else Inl ''unsupported''),
      pe_hex_encode = letters_encode,
      pe_hex_decode = (\<lambda>s. Inr (letters_decode s))\<rparr>"

lemma example_loads: "load_optional example_env (policy_path example_env) = Inr example_policy"
  by code_simp

theorem prepared_transaction_is_vetted_witness:
  "check_prepared_packages example_env None (Inr ()) (\<lambda>_ _. Inr [] :: (string, string list) result)
     [(''tool'', ''1.0'', False, Some ''MIT'')] = Inr () \<and>
   ''tool'' \<notin> set (sp_banned_packages example_policy)"
proof -
  have run: "check_prepared_packages example_env None (Inr ()) (\<lambda>_ _. Inr [] :: (string, string list) result)
      [(''tool'', ''1.0'', False, Some ''MIT'')] = Inr ()"
    "explicit_policy_exists example_env None"
    by code_simp+
  have "\<exists>policy. load_default example_env None = Inr policy \<and> ''tool'' \<notin> set (sp_banned_packages policy)"
    using prepared_transaction_is_vetted [OF run, of "''tool''" "''1.0''" False "Some ''MIT''"] by auto
  then show ?thesis using run example_loads by (simp add: load_default_def)
qed

theorem inherited_policy_is_the_trusted_one_witness:
  "inherit_policy example_env None ''__omg_policy=AB'' = Inr (Some example_policy) \<and>
   load_default example_env (Some example_policy) = load_optional example_env (policy_path example_env)"
proof -
  have run: "inherit_policy example_env None ''__omg_policy=AB'' = Inr (Some example_policy)" by code_simp
  from inherited_policy_is_the_trusted_one [OF run] run show ?thesis by simp
qed

theorem load_optional_fails_closed_witness:
  "load_optional example_env (policy_path example_env) = Inr example_policy \<and>
   (\<exists>file content. pe_open example_env (policy_path example_env) = Inr file \<and> pf_read file = Inr content \<and>
      pe_parse_policy example_env content = Inr example_policy)"
proof -
  have "example_policy \<noteq> default_policy" by (simp add: example_policy_def default_policy_def)
  then show ?thesis using load_optional_fails_closed [OF example_loads] example_loads by blast
qed

theorem policy_handoff_round_trip_witness:
  "policy_handoff example_env None = Inr (Some ''__omg_policy=AB'') \<and>
   inherit_policy example_env None ''__omg_policy=AB'' = Inr (Some example_policy)"
proof -
  have run: "policy_handoff example_env None = Inr (Some ''__omg_policy=AB'')" by code_simp
  have "\<exists>policy. load_default example_env None = Inr policy \<and>
      inherit_policy example_env None ''__omg_policy=AB'' = Inr (Some policy)"
    by (rule policy_handoff_round_trip [OF run refl])
      (auto simp: example_env_def letters_round_trip letters_length split: if_splits)
  then show ?thesis using run example_loads by (simp add: load_default_def)
qed

end
