(* ===== verification/Audit_Entry.thy ===== *)
theory Audit_Entry
  imports Rust_Str
begin

text \<open>
  The entries of the audit log, \<^verbatim>\<open>core/security/audit.rs\<close>: event types, the preimage of the chain
  hash in both encodings, verification of one entry, and the preparation of the fields. SHA-256
  followed by hexadecimal coding is a parameter \<open>digest\<close>, a function from bytes to text. The
  metadata of an entry, a JSON value, is represented by its rendering.
\<close>

section \<open>Definitions\<close>

datatype audit_event_type =
    PackageInstall | PackageRemove | PackageUpgrade | PackageDowngrade
  | SecurityAudit | VulnerabilityDetected | SignatureVerified | SignatureFailed | PolicyViolation
  | PolicyChanged | ConfigChanged
  | DaemonStarted | DaemonStopped
  | SbomGenerated | SbomExported

text \<open>The derived \<^verbatim>\<open>Debug\<close> rendering, which the preimage uses.\<close>

fun event_debug :: "audit_event_type \<Rightarrow> string" where
  "event_debug PackageInstall = ''PackageInstall''"
| "event_debug PackageRemove = ''PackageRemove''"
| "event_debug PackageUpgrade = ''PackageUpgrade''"
| "event_debug PackageDowngrade = ''PackageDowngrade''"
| "event_debug SecurityAudit = ''SecurityAudit''"
| "event_debug VulnerabilityDetected = ''VulnerabilityDetected''"
| "event_debug SignatureVerified = ''SignatureVerified''"
| "event_debug SignatureFailed = ''SignatureFailed''"
| "event_debug PolicyViolation = ''PolicyViolation''"
| "event_debug PolicyChanged = ''PolicyChanged''"
| "event_debug ConfigChanged = ''ConfigChanged''"
| "event_debug DaemonStarted = ''DaemonStarted''"
| "event_debug DaemonStopped = ''DaemonStopped''"
| "event_debug SbomGenerated = ''SbomGenerated''"
| "event_debug SbomExported = ''SbomExported''"

datatype audit_severity = SevDebug | SevInfo | SevWarning | SevError | SevCritical

fun severity_debug :: "audit_severity \<Rightarrow> string" where
  "severity_debug SevDebug = ''Debug''"
| "severity_debug SevInfo = ''Info''"
| "severity_debug SevWarning = ''Warning''"
| "severity_debug SevError = ''Error''"
| "severity_debug SevCritical = ''Critical''"

fun severity_rank :: "audit_severity \<Rightarrow> nat" where
  "severity_rank SevDebug = 0"
| "severity_rank SevInfo = 1"
| "severity_rank SevWarning = 2"
| "severity_rank SevError = 3"
| "severity_rank SevCritical = 4"

record audit_entry =
  ae_id :: string
  ae_timestamp :: string
  ae_event_type :: audit_event_type
  ae_severity :: audit_severity
  ae_user :: string
  ae_resource :: string
  ae_description :: string
  ae_metadata :: "string option"
  ae_prev_hash :: string
  ae_hash_version :: nat
  ae_hash :: "string option"

definition HASH_VERSION_LEGACY :: nat where "HASH_VERSION_LEGACY = 0"
definition HASH_VERSION_LENGTH_PREFIXED :: nat where "HASH_VERSION_LENGTH_PREFIXED = 1"
definition MAX_AUDIT_FIELD_BYTES :: nat where "MAX_AUDIT_FIELD_BYTES = 4096"

text \<open>\<^verbatim>\<open>u64::to_be_bytes\<close> of a length; a length of \<open>2 ^ 64\<close> or more saturates.\<close>

fun be_digits :: "nat \<Rightarrow> nat \<Rightarrow> nat list" where
  "be_digits 0 n = []"
| "be_digits (Suc k) n = be_digits k (n div 256) @ [n mod 256]"

definition be_bytes :: "nat \<Rightarrow> nat list" where
  "be_bytes n = be_digits 8 n"

definition length_prefixed :: "nat list \<Rightarrow> nat list" where
  "length_prefixed bytes =
     be_bytes (if int (length bytes) < 2 ^ 64 then length bytes else 2 ^ 64 - 1) @ bytes"

definition legacy_preimage :: "audit_entry \<Rightarrow> nat list" where
  "legacy_preimage e =
     as_bytes (ae_id e) @ as_bytes (ae_timestamp e) @ as_bytes (event_debug (ae_event_type e)) @
     as_bytes (severity_debug (ae_severity e)) @ as_bytes (ae_user e) @ as_bytes (ae_resource e) @
     as_bytes (ae_description e) @
     (case ae_metadata e of None \<Rightarrow> [] | Some m \<Rightarrow> as_bytes m) @
     as_bytes (ae_prev_hash e)"

definition metadata_text :: "audit_entry \<Rightarrow> string" where
  "metadata_text e = (case ae_metadata e of None \<Rightarrow> [] | Some m \<Rightarrow> m)"

definition prefixed_preimage :: "audit_entry \<Rightarrow> nat list" where
  "prefixed_preimage e =
     [255, ae_hash_version e] @
     length_prefixed (as_bytes (ae_id e)) @
     length_prefixed (as_bytes (ae_timestamp e)) @
     length_prefixed (as_bytes (event_debug (ae_event_type e))) @
     length_prefixed (as_bytes (severity_debug (ae_severity e))) @
     length_prefixed (as_bytes (ae_user e)) @
     length_prefixed (as_bytes (ae_resource e)) @
     length_prefixed (as_bytes (ae_description e)) @
     length_prefixed (as_bytes (metadata_text e)) @
     length_prefixed (as_bytes (ae_prev_hash e))"

definition preimage :: "audit_entry \<Rightarrow> nat list" where
  "preimage e =
     (if ae_hash_version e = HASH_VERSION_LEGACY then legacy_preimage e else prefixed_preimage e)"

definition compute_hash :: "(nat list \<Rightarrow> string) \<Rightarrow> audit_entry \<Rightarrow> string" where
  "compute_hash digest e = digest (preimage e)"

definition verify :: "(nat list \<Rightarrow> string) \<Rightarrow> audit_entry \<Rightarrow> bool" where
  "verify digest e =
     (if ae_hash_version e > HASH_VERSION_LENGTH_PREFIXED then False
      else (case ae_hash e of Some h \<Rightarrow> compute_hash digest e = h | None \<Rightarrow> False))"

section \<open>Preparation of the fields\<close>

text \<open>\<^verbatim>\<open>str::is_char_boundary\<close>, and the slice up to a byte index.\<close>

definition is_char_boundary :: "string \<Rightarrow> nat \<Rightarrow> bool" where
  "is_char_boundary s i = list_ex (\<lambda>k. str_len (take k s) = i) [0..<length s + 1]"

fun str_prefix :: "nat \<Rightarrow> string \<Rightarrow> string" where
  "str_prefix n [] = []"
| "str_prefix n (c # s) =
     (if length (utf8_char c) \<le> n then c # str_prefix (n - length (utf8_char c)) s else [])"

fun floor_boundary :: "string \<Rightarrow> nat \<Rightarrow> nat" where
  "floor_boundary s 0 = 0"
| "floor_boundary s (Suc e) = (if is_char_boundary s (Suc e) then Suc e else floor_boundary s e)"

definition bounded_audit_field :: "string \<Rightarrow> string" where
  "bounded_audit_field value =
     (if str_len value \<le> MAX_AUDIT_FIELD_BYTES then value
      else str_prefix (floor_boundary value MAX_AUDIT_FIELD_BYTES) value)"

definition hex_digit :: "nat \<Rightarrow> char" where
  "hex_digit n = char_of (if n < 10 then 48 + n else 87 + n)"

fun hex_string :: "nat \<Rightarrow> string" where
  "hex_string n = (if n < 16 then [hex_digit n] else hex_string (n div 16) @ [hex_digit (n mod 16)])"

declare hex_string.simps [simp del]

definition tracing_safe_char :: "char \<Rightarrow> string" where
  "tracing_safe_char c =
     (if c = CHR 0x0A then [CHR 0x5C, CHR ''n'']
      else if c = CHR 0x0D then [CHR 0x5C, CHR ''r'']
      else if c = CHR 0x09 then [CHR 0x5C, CHR ''t'']
      else if is_control c then [CHR 0x5C, CHR ''u'', CHR 0x7B] @ hex_string (code_of c) @ [CHR 0x7D]
      else [c])"

definition tracing_safe_audit_text :: "string \<Rightarrow> string" where
  "tracing_safe_audit_text value = concat (map tracing_safe_char value)"

section \<open>The preimage is injective\<close>

lemma event_debug_inject [simp]: "event_debug a = event_debug b \<longleftrightarrow> a = b"
  by (cases a; cases b) simp_all

lemma severity_debug_inject [simp]: "severity_debug a = severity_debug b \<longleftrightarrow> a = b"
  by (cases a; cases b) simp_all

lemma be_digits_length [simp]: "length (be_digits k n) = k"
  by (induction k arbitrary: n) simp_all

lemma be_digits_inject:
  "n < 256 ^ k \<Longrightarrow> m < 256 ^ k \<Longrightarrow> be_digits k n = be_digits k m \<Longrightarrow> n = m"
proof (induction k arbitrary: n m)
  case (Suc k)
  have eq: "be_digits k (n div 256) = be_digits k (m div 256)" "n mod 256 = m mod 256"
    using Suc.prems(3) by simp_all
  have "n div 256 < 256 ^ k" "m div 256 < 256 ^ k"
    using Suc.prems(1,2) by (simp_all add: less_mult_imp_div_less mult.commute)
  from Suc.IH [OF this eq(1)] eq(2) show ?case by (metis div_mult_mod_eq)
qed simp

lemma be_bytes_length [simp]: "length (be_bytes n) = 8"
  by (simp add: be_bytes_def)

lemma be_bytes_inject: "n < 2 ^ 64 \<Longrightarrow> m < 2 ^ 64 \<Longrightarrow> be_bytes n = be_bytes m \<Longrightarrow> n = m"
  using be_digits_inject [of n 8 m] by (simp add: be_bytes_def)

abbreviation fits :: "nat list \<Rightarrow> bool" where
  "fits bytes \<equiv> int (length bytes) < 2 ^ 64"

lemma length_prefixed_inject:
  assumes "fits a" "fits b" "length_prefixed a @ xs = length_prefixed b @ ys"
  shows "a = b \<and> xs = ys"
proof -
  have lt: "length a < 2 ^ 64" "length b < 2 ^ 64" using assms(1,2) by simp_all
  have eq: "be_bytes (length a) @ (a @ xs) = be_bytes (length b) @ (b @ ys)"
    using assms by (simp add: length_prefixed_def)
  then have "be_bytes (length a) = be_bytes (length b)" and rest: "a @ xs = b @ ys"
    by (auto simp: append_eq_append_conv)
  with lt have "length a = length b" by (intro be_bytes_inject)
  with rest show ?thesis by simp
qed

text \<open>
  An entry whose fields have a length a 64-bit machine can address, and whose metadata, if any, has
  a rendering that is not empty, as every JSON value has.
\<close>

definition representable :: "audit_entry \<Rightarrow> bool" where
  "representable e \<longleftrightarrow>
     fits (as_bytes (ae_id e)) \<and> fits (as_bytes (ae_timestamp e)) \<and> fits (as_bytes (ae_user e)) \<and>
     fits (as_bytes (ae_resource e)) \<and> fits (as_bytes (ae_description e)) \<and>
     fits (as_bytes (metadata_text e)) \<and> fits (as_bytes (ae_prev_hash e)) \<and> ae_metadata e \<noteq> Some []"

lemma event_debug_fits: "fits (as_bytes (event_debug t))"
  by (cases t) (simp_all add: as_bytes_def utf8_char_def code_of_def)

lemma severity_debug_fits: "fits (as_bytes (severity_debug s))"
  by (cases s) (simp_all add: as_bytes_def utf8_char_def code_of_def)

lemma metadata_text_inject:
  "ae_metadata a \<noteq> Some [] \<Longrightarrow> ae_metadata b \<noteq> Some [] \<Longrightarrow> metadata_text a = metadata_text b \<Longrightarrow>
   ae_metadata a = ae_metadata b"
  by (auto simp: metadata_text_def split: option.splits)

lemma prefixed_list_inject:
  "length fs = length gs \<Longrightarrow> list_all fits fs \<Longrightarrow> list_all fits gs \<Longrightarrow>
   concat (map length_prefixed fs) = concat (map length_prefixed gs) \<Longrightarrow> fs = gs"
proof (induction fs gs rule: list_induct2)
  case (Cons f fs g gs)
  have "f = g \<and> concat (map length_prefixed fs) = concat (map length_prefixed gs)"
    by (rule length_prefixed_inject) (use Cons.prems in simp_all)
  then show ?case using Cons by simp
qed simp

definition hashed_fields :: "audit_entry \<Rightarrow> nat list list" where
  "hashed_fields e =
     map as_bytes [ae_id e, ae_timestamp e, event_debug (ae_event_type e), severity_debug (ae_severity e),
       ae_user e, ae_resource e, ae_description e, metadata_text e, ae_prev_hash e]"

lemma prefixed_preimage_fields:
  "prefixed_preimage e = 255 # ae_hash_version e # concat (map length_prefixed (hashed_fields e))"
  by (simp add: prefixed_preimage_def hashed_fields_def)

lemma prefixed_preimage_inject:
  assumes "representable a" "representable b" "prefixed_preimage a = prefixed_preimage b"
  shows "a\<lparr>ae_hash := None\<rparr> = b\<lparr>ae_hash := None\<rparr>"
proof -
  have fit: "list_all fits (hashed_fields e)" if "representable e" for e
    using that event_debug_fits severity_debug_fits by (simp add: representable_def hashed_fields_def)
  have v: "ae_hash_version a = ae_hash_version b"
    and eq: "concat (map length_prefixed (hashed_fields a)) = concat (map length_prefixed (hashed_fields b))"
    using assms(3) by (simp_all add: prefixed_preimage_fields)
  have "hashed_fields a = hashed_fields b"
    by (rule prefixed_list_inject [OF _ fit [OF assms(1)] fit [OF assms(2)] eq]) (simp add: hashed_fields_def)
  then show ?thesis
    using v metadata_text_inject [of a b] assms(1,2)
    by (simp add: hashed_fields_def representable_def)
qed

lemma as_bytes_not_255: "255 \<notin> set (as_bytes s)"
proof -
  have "255 \<notin> set (utf8_char c)" for c
  proof -
    have "code_of c div 64 < 4" using code_of_less [of c] by (intro less_mult_imp_div_less) simp
    then show ?thesis by (auto simp: utf8_char_def)
  qed
  then show ?thesis by (auto simp: as_bytes_def)
qed

lemma legacy_preimage_not_255: "255 \<notin> set (legacy_preimage e)"
  using as_bytes_not_255 by (auto simp: legacy_preimage_def split: option.splits)

lemma preimage_separated:
  assumes "ae_hash_version a = 0" "ae_hash_version b \<noteq> 0"
  shows "preimage a \<noteq> preimage b"
proof -
  have "255 \<in> set (preimage b)" using assms(2)
    by (simp add: preimage_def HASH_VERSION_LEGACY_def prefixed_preimage_fields)
  then show ?thesis
    using assms(1) legacy_preimage_not_255 [of a] by (auto simp: preimage_def HASH_VERSION_LEGACY_def)
qed

section \<open>Fields fit the log\<close>

lemma str_len_Cons: "str_len (c # s) = length (utf8_char c) + str_len s"
  by (simp add: str_len_def as_bytes_def)

lemma str_prefix_bound: "str_len (str_prefix n s) \<le> n"
  by (induction n s rule: str_prefix.induct) (auto simp: str_len_Cons str_len_def as_bytes_def)

lemma str_prefix_prefix: "prefix (str_prefix n s) s"
  by (induction n s rule: str_prefix.induct) auto

lemma floor_boundary_le: "floor_boundary s n \<le> n"
  by (induction n) auto

lemma hex_string_safe: "c \<in> set (hex_string n) \<Longrightarrow> \<not> is_control c"
proof (induction n rule: hex_string.induct)
  case (1 n)
  have "\<not> is_control (hex_digit k)" if "k < 16" for k
    using that by (simp add: hex_digit_def is_control_def)
  with 1 show ?case by (subst (asm) hex_string.simps) (auto split: if_splits)
qed

lemma tracing_safe_char_safe: "d \<in> set (tracing_safe_char c) \<Longrightarrow> \<not> is_control d"
proof -
  have k: "\<not> is_control (CHR 0x5C)" "\<not> is_control (CHR ''n'')" "\<not> is_control (CHR ''r'')"
    "\<not> is_control (CHR ''t'')" "\<not> is_control (CHR ''u'')" "\<not> is_control (CHR 0x7B)" "\<not> is_control (CHR 0x7D)"
    by code_simp+
  show "d \<in> set (tracing_safe_char c) \<Longrightarrow> \<not> is_control d"
    using k hex_string_safe by (auto simp: tracing_safe_char_def split: if_splits)
qed

section \<open>Properties\<close>

text \<open>
  The current preimage binds every field and every field boundary: two representable entries with
  the same preimage agree in everything but the stored hash; and no entry of the legacy encoding
  shares its preimage with one of the current encoding.
\<close>

theorem preimage_binds_all_fields:
  assumes "representable a" "representable b" "ae_hash_version a \<noteq> 0" "preimage a = preimage b"
  shows "a\<lparr>ae_hash := None\<rparr> = b\<lparr>ae_hash := None\<rparr>"
proof -
  have "ae_hash_version b \<noteq> 0" using preimage_separated [of b a] assms(3,4) by metis
  then show ?thesis
    using prefixed_preimage_inject [OF assms(1,2)] assms(3,4) by (simp add: preimage_def HASH_VERSION_LEGACY_def)
qed

definition example_entry :: audit_entry where
  "example_entry =
     \<lparr>ae_id = ''1'', ae_timestamp = ''t'', ae_event_type = PackageInstall, ae_severity = SevInfo, ae_user = ''u'',
      ae_resource = ''ab'', ae_description = [], ae_metadata = None, ae_prev_hash = ''genesis'',
      ae_hash_version = 1, ae_hash = None\<rparr>"

theorem preimage_binds_all_fields_witness:
  "representable example_entry \<and> representable (example_entry\<lparr>ae_hash := Some ''h''\<rparr>) \<and>
   preimage example_entry = preimage (example_entry\<lparr>ae_hash := Some ''h''\<rparr>) \<and>
   example_entry\<lparr>ae_hash := None\<rparr> = example_entry\<lparr>ae_hash := Some ''h'', ae_hash := None\<rparr>"
proof -
  have r: "representable example_entry" "representable (example_entry\<lparr>ae_hash := Some ''h''\<rparr>)"
    "ae_hash_version example_entry \<noteq> 0"
    by code_simp+
  have p: "preimage example_entry = preimage (example_entry\<lparr>ae_hash := Some ''h''\<rparr>)"
    by (simp add: preimage_def legacy_preimage_def prefixed_preimage_def metadata_text_def)
  from preimage_binds_all_fields [OF r p] r p show ?thesis by simp
qed

lemma bounded_field_bound: "str_len (bounded_audit_field v) \<le> 4096"
proof -
  have "str_len (str_prefix (floor_boundary v 4096) v) \<le> 4096"
    using str_prefix_bound [of "floor_boundary v 4096" v] floor_boundary_le [of v 4096] by linarith
  then show ?thesis by (simp add: bounded_audit_field_def MAX_AUDIT_FIELD_BYTES_def)
qed

lemma bounded_field_prefix: "prefix (bounded_audit_field v) v"
  by (simp add: bounded_audit_field_def str_prefix_prefix)

text \<open>
  What reaches the log and the console is bounded and inert: a field is a prefix of what the
  caller gave of at most 4096 bytes, unchanged when it fits, and the text shown on a console has no
  control character with which a caller could forge or repaint a record.
\<close>

theorem audit_fields_are_bounded_and_inert:
  "str_len (bounded_audit_field v) \<le> 4096 \<and> prefix (bounded_audit_field v) v \<and>
   (str_len v \<le> 4096 \<longrightarrow> bounded_audit_field v = v) \<and>
   (\<forall>c \<in> set (tracing_safe_audit_text v). \<not> is_control c)"
  using bounded_field_bound bounded_field_prefix tracing_safe_char_safe
  by (auto simp: tracing_safe_audit_text_def bounded_audit_field_def MAX_AUDIT_FIELD_BYTES_def)

theorem audit_fields_are_bounded_and_inert_witness:
  "str_len ''ok'' \<le> 4096 \<and> bounded_audit_field ''ok'' = ''ok'' \<and>
   \<not> is_control (hd (tracing_safe_audit_text [CHR 0x1B]))"
proof -
  have "str_len ''ok'' = 2" "hd (tracing_safe_audit_text [CHR 0x1B]) \<in> set (tracing_safe_audit_text [CHR 0x1B])"
    by code_simp+
  then show ?thesis
    using audit_fields_are_bounded_and_inert [of "''ok''"] audit_fields_are_bounded_and_inert [of "[CHR 0x1B]"] by auto
qed

end
