(* ===== verification/Io_Monad.thy ===== *)
theory Io_Monad
  imports Omg_Prelude
begin

text \<open>
  Sequences of calls that may fail and change a state: a computation with errors of type \<open>'e\<close> on a
  state \<open>'s\<close>. What was done before an error stays done. The collection \<open>io_run\<close> rewrites
  computations that succeed; \<open>abind_cases\<close> splits a sequence whatever its outcome.
\<close>

named_theorems io_run \<open>successful sequences of calls\<close>

type_synonym ('e, 's, 'a) io = "'s \<Rightarrow> ('e, 'a) result \<times> 's"

definition aret :: "'a \<Rightarrow> ('e, 's, 'a) io" where
  "aret a = (\<lambda>s. (Inr a, s))"

definition araise :: "'e \<Rightarrow> ('e, 's, 'a) io" where
  "araise e = (\<lambda>s. (Inl e, s))"

definition abind :: "('e, 's, 'a) io \<Rightarrow> ('a \<Rightarrow> ('e, 's, 'b) io) \<Rightarrow> ('e, 's, 'b) io" where
  "abind m f = (\<lambda>s. case m s of (Inl e, s') \<Rightarrow> (Inl e, s') | (Inr a, s') \<Rightarrow> f a s')"

definition alift :: "('e, 'a) result \<Rightarrow> ('e, 's, 'a) io" where
  "alift r = (\<lambda>s. (r, s))"

definition aread :: "('s \<Rightarrow> ('e, 'a) result) \<Rightarrow> ('e, 's, 'a) io" where
  "aread f = (\<lambda>s. (f s, s))"

definition amodify :: "('s \<Rightarrow> 's) \<Rightarrow> ('e, 's, unit) io" where
  "amodify f = (\<lambda>s. (Inr (), f s))"

lemma abind_Inr [io_run]:
  "abind m f s = (Inr b, s') \<longleftrightarrow> (\<exists>a t. m s = (Inr a, t) \<and> f a t = (Inr b, s'))"
  by (auto simp: abind_def split: prod.splits sum.splits)

lemma aret_Inr [io_run]: "aret a s = (Inr b, s') \<longleftrightarrow> b = a \<and> s' = s"
  by (auto simp: aret_def)

lemma araise_Inr [io_run]: "araise e s = (Inr b, s') \<longleftrightarrow> False"
  by (simp add: araise_def)

lemma alift_Inr [io_run]: "alift r s = (Inr b, s') \<longleftrightarrow> r = Inr b \<and> s' = s"
  by (auto simp: alift_def)

lemma aread_Inr [io_run]: "aread f s = (Inr b, s') \<longleftrightarrow> f s = Inr b \<and> s' = s"
  by (auto simp: aread_def)

lemma amodify_Inr [io_run]: "amodify f s = (Inr b, s') \<longleftrightarrow> s' = f s"
  by (auto simp: amodify_def)

lemma abind_cases:
  assumes "abind m f s = (r, s')"
  obtains (stop) e where "m s = (Inl e, s')" "r = Inl e" | (go) a t where "m s = (Inr a, t)" "f a t = (r, s')"
  using assms by (auto simp: abind_def split: prod.splits sum.splits)

end
