(* ===== verification/Audit_Log.thy ===== *)
theory Audit_Log
  imports Audit_Entry Io_Monad
begin

text \<open>
  The audit log itself, \<^verbatim>\<open>core/security/audit.rs\<close>: reading the last hash, appending under the lock,
  rotation, verification of the chain, recovery from a corrupt log, and the bounded queue in front
  of the writer.

  A directory maps paths to files, a file is a byte string (one \<^typ>\<open>char\<close> per byte). The JSON coding
  of entries, the UTF-8 check, the digest and the failures of system calls are fields of
  \<open>audit_world\<close>: \<open>aw_fault w op = Some m\<close> makes the call \<open>op\<close> fail, and a failing write leaves the
  first \<open>aw_partial w\<close> bytes behind. The clock, the random identifier and the user name are arguments.
  The locks serialize cooperating processes, so an operation runs on the directory without
  interference; that is also what the code relies on.
\<close>

section \<open>Files and failures\<close>

text \<open>
  What a path can name: a regular file; a symbolic link, with whether its target exists; another
  file that opens but is not regular.
\<close>

datatype audit_file = RegularFile string | SymbolicLink bool | SpecialFile

type_synonym audit_dir = "string \<rightharpoonup> audit_file"

datatype audit_io = AioNotFound | AioInvalidInput | AioInvalidData | AioLoop | AioFault string

text \<open>
  The variants of \<^verbatim>\<open>AuditError\<close>, and \<open>AuditNeverReturns\<close> for a call that loops for ever.
\<close>

datatype audit_error =
    AuditCreateDir string audit_io
  | AuditOpen string audit_io
  | AuditRead string audit_io
  | AuditWrite string audit_io
  | AuditSerialize
  | AuditCorruptLine string nat
  | AuditMissingHash string nat
  | AuditLoggerPoisoned
  | AuditEntryInvariant
  | AuditUnlock string audit_io
  | AuditNeverReturns

datatype audit_op =
    OpCreateDir string | OpLock string | OpUnlock string | OpOpenRead string | OpOpen string | OpStat string | OpRead string
  | OpNewline string | OpWrite string | OpFlush string | OpSync string | OpRemove string | OpRename string

record audit_world =
  aw_digest :: "nat list \<Rightarrow> string"
  aw_to_json :: "audit_entry \<Rightarrow> string option"
  aw_from_json :: "string \<Rightarrow> audit_entry option"
  aw_utf8 :: "string \<Rightarrow> bool"
  aw_fault :: "audit_op \<Rightarrow> string option"
  aw_partial :: nat
  aw_data_dir :: string

record audit_logger =
  al_log_path :: string
  al_last_hash :: string
  al_max_bytes :: nat
  al_max_archives :: nat

definition is_not_found :: "audit_error \<Rightarrow> bool" where
  "is_not_found e =
     (case e of
        AuditCreateDir _ s \<Rightarrow> s = AioNotFound | AuditOpen _ s \<Rightarrow> s = AioNotFound
      | AuditRead _ s \<Rightarrow> s = AioNotFound | AuditWrite _ s \<Rightarrow> s = AioNotFound | _ \<Rightarrow> False)"

definition io_call :: "audit_world \<Rightarrow> audit_op \<Rightarrow> (audit_io \<Rightarrow> audit_error) \<Rightarrow> (audit_error, unit) result" where
  "io_call w op err = (case aw_fault w op of None \<Rightarrow> Inr () | Some m \<Rightarrow> Inl (err (AioFault m)))"

abbreviation NL :: char where "NL \<equiv> CHR 0x0A"

section \<open>Paths\<close>

fun show_nat :: "nat \<Rightarrow> string" where
  "show_nat n = (if n < 10 then [char_of (48 + n)] else show_nat (n div 10) @ [char_of (48 + n mod 10)])"

declare show_nat.simps [simp del]

definition rotated_path :: "string \<Rightarrow> nat \<Rightarrow> string" where
  "rotated_path path index = path @ ''.'' @ show_nat index"

definition replace_extension :: "string \<Rightarrow> string \<Rightarrow> string" where
  "replace_extension f ext =
     (case rsplit_once CHR ''.'' f of
        Some (stem, _) \<Rightarrow> if stem = [] then f @ ''.'' @ ext else stem @ ''.'' @ ext
      | None \<Rightarrow> f @ ''.'' @ ext)"

definition split_dir :: "string \<Rightarrow> string \<times> string" where
  "split_dir path =
     (case rsplit_once CHR ''/'' path of None \<Rightarrow> ([], path) | Some (dir, f) \<Rightarrow> (dir @ ''/'', f))"

definition lock_path :: "string \<Rightarrow> string" where
  "lock_path path = (let (dir, f) = split_dir path in dir @ replace_extension f ''lock'')"

definition incomplete_marker :: "string \<Rightarrow> string" where
  "incomplete_marker path = fst (split_dir path) @ ''incomplete''"

section \<open>Reading\<close>

definition MAX_AUDIT_ENTRY_BYTES :: int where "MAX_AUDIT_ENTRY_BYTES = 128 * 1024"

definition open_read_file :: "audit_world \<Rightarrow> audit_dir \<Rightarrow> string \<Rightarrow> (audit_error, string) result" where
  "open_read_file w d path =
     rbind (io_call w (OpOpenRead path) (AuditOpen path)) (\<lambda>_.
     case d path of
       None \<Rightarrow> Inl (AuditOpen path AioNotFound)
     | Some (SymbolicLink _) \<Rightarrow> Inl (AuditOpen path AioLoop)
     | Some SpecialFile \<Rightarrow> Inl (AuditOpen path AioInvalidInput)
     | Some (RegularFile content) \<Rightarrow> Inr content)"

definition strip_line_end :: "string \<Rightarrow> string" where
  "strip_line_end tail = rev (dropWhile (\<lambda>b. b = NL \<or> b = CHR 0x0D) (rev tail))"

definition last_entry_hash ::
  "audit_world \<Rightarrow> string \<Rightarrow> string \<Rightarrow> nat \<Rightarrow> (audit_error, string) result" where
  "last_entry_hash w path line line_number =
     rbind (ensure (aw_utf8 w line) (AuditRead path AioInvalidData)) (\<lambda>_.
     case aw_from_json w line of
       None \<Rightarrow> Inl (AuditCorruptLine path line_number)
     | Some entry \<Rightarrow> (case ae_hash entry of
         Some h \<Rightarrow> Inr h | None \<Rightarrow> Inl (AuditMissingHash path line_number)))"

definition get_last_hash :: "audit_world \<Rightarrow> audit_dir \<Rightarrow> string \<Rightarrow> (audit_error, string) result" where
  "get_last_hash w d path =
     (case open_read_file w d path of
        Inl (AuditOpen p AioNotFound) \<Rightarrow> Inr ''genesis''
      | Inl e \<Rightarrow> Inl e
      | Inr content \<Rightarrow>
          rbind (io_call w (OpStat path) (AuditRead path)) (\<lambda>_.
          if content = [] then Inr ''genesis''
          else
            let tail_start = nat (int (length content) - (MAX_AUDIT_ENTRY_BYTES + 2)) in
            rbind (io_call w (OpRead path) (AuditRead path)) (\<lambda>_.
            let tail = strip_line_end (drop tail_start content) in
            if tail = [] then Inr ''genesis''
            else (case rsplit_once NL tail of
                None \<Rightarrow>
                  if tail_start > 0 then Inl (AuditRead path AioInvalidData)
                  else last_entry_hash w path tail 1
              | Some (before, line) \<Rightarrow>
                  last_entry_hash w path line
                    (if tail_start = 0 then length (filter (\<lambda>b. b = NL) before) + 2 else 0)))))"

section \<open>Sequences of calls\<close>

text \<open>
  The state of a computation: the directory alone, or a logger and the directory.
\<close>

type_synonym 'a on_dir = "(audit_error, audit_dir, 'a) io"
type_synonym 'a on_logger = "(audit_error, audit_logger \<times> audit_dir, 'a) io"

definition lift_dir :: "'a on_dir \<Rightarrow> 'a on_logger" where
  "lift_dir m = (\<lambda>(l, d). let (r, d') = m d in (r, (l, d')))"

definition aset_hash :: "string \<Rightarrow> unit on_logger" where
  "aset_hash h = amodify (\<lambda>(l, d). (l\<lparr>al_last_hash := h\<rparr>, d))"

section \<open>Locks and other files\<close>

text \<open>\<^verbatim>\<open>create(true)\<close>: an absent file appears empty; anything but a regular file is refused.\<close>

definition open_create :: "audit_world \<Rightarrow> string \<Rightarrow> string on_dir" where
  "open_create w path =
     abind (alift (io_call w (OpOpen path) (AuditOpen path))) (\<lambda>_. \<lambda>d.
       case d path of
         None \<Rightarrow> (Inr [], d(path \<mapsto> RegularFile []))
       | Some (SymbolicLink _) \<Rightarrow> (Inl (AuditOpen path AioLoop), d)
       | Some SpecialFile \<Rightarrow> (Inl (AuditOpen path AioInvalidInput), d)
       | Some (RegularFile content) \<Rightarrow> (Inr content, d))"

definition acquire_lock :: "audit_world \<Rightarrow> string \<Rightarrow> unit on_dir" where
  "acquire_lock w path =
     abind (open_create w (lock_path path)) (\<lambda>_.
     alift (io_call w (OpLock (lock_path path)) (AuditOpen (lock_path path))))"

text \<open>The lock is released after the operation; an error of the operation wins over one of the release.\<close>

definition releasing :: "audit_world \<Rightarrow> string \<Rightarrow> string \<Rightarrow> (audit_error, 's, 'a) io \<Rightarrow> (audit_error, 's, 'a) io" where
  "releasing w path unlock_name operation =
     abind operation (\<lambda>a.
     abind (alift (io_call w (OpUnlock (lock_path path)) (AuditUnlock unlock_name))) (\<lambda>_.
     aret a))"

definition with_audit_read_lock :: "audit_world \<Rightarrow> string \<Rightarrow> 'a on_dir \<Rightarrow> 'a on_dir" where
  "with_audit_read_lock w path operation =
     abind (acquire_lock w path) (\<lambda>_. releasing w path (lock_path path) operation)"

section \<open>Rotation\<close>

definition rename_file :: "audit_world \<Rightarrow> string \<Rightarrow> string \<Rightarrow> string \<Rightarrow> unit on_dir" where
  "rename_file w from_path to_path name =
     abind (alift (io_call w (OpRename from_path) (AuditWrite name))) (\<lambda>_. \<lambda>d.
       case d from_path of
         None \<Rightarrow> (Inl (AuditWrite name AioNotFound), d)
       | Some f \<Rightarrow> (Inr (), d(from_path := None, to_path := Some f)))"

definition remove_file :: "audit_world \<Rightarrow> string \<Rightarrow> unit on_dir" where
  "remove_file w path =
     abind (alift (io_call w (OpRemove path) (AuditWrite path))) (\<lambda>_. \<lambda>d.
       case d path of
         None \<Rightarrow> (Inl (AuditWrite path AioNotFound), d)
       | Some f \<Rightarrow> (Inr (), d(path := None)))"

definition unless_missing :: "unit on_dir \<Rightarrow> unit on_dir" where
  "unless_missing m = (\<lambda>d.
     case m d of
       (Inl e, d') \<Rightarrow> if is_not_found e then (Inr (), d') else (Inl e, d')
     | (Inr u, d') \<Rightarrow> (Inr u, d'))"

text \<open>\<^verbatim>\<open>for index in (1..max_archives).rev()\<close>\<close>

fun shift_archives :: "audit_world \<Rightarrow> string \<Rightarrow> nat \<Rightarrow> unit on_dir" where
  "shift_archives w path 0 = aret ()"
| "shift_archives w path (Suc index) =
     abind (unless_missing (rename_file w (rotated_path path (Suc index)) (rotated_path path (Suc index + 1))
       (rotated_path path (Suc index)))) (\<lambda>_.
     shift_archives w path index)"

definition rotate_files :: "audit_world \<Rightarrow> string \<Rightarrow> nat \<Rightarrow> unit on_dir" where
  "rotate_files w path max_archives =
     (if max_archives = 0 then remove_file w path
      else
        abind (unless_missing (remove_file w (rotated_path path max_archives))) (\<lambda>_.
        abind (shift_archives w path (max_archives - 1)) (\<lambda>_.
        rename_file w path (rotated_path path 1) path)))"

definition rotate_if_needed :: "audit_world \<Rightarrow> unit on_logger" where
  "rotate_if_needed w = (\<lambda>(l, d).
     let path = al_log_path l in
     case io_call w (OpStat path) (AuditOpen path) of
       Inl e \<Rightarrow> (Inl e, (l, d))
     | Inr _ \<Rightarrow> (case d path of
         None \<Rightarrow> (Inr (), (l, d))
       | Some (RegularFile content) \<Rightarrow>
           if length content < al_max_bytes l then (Inr (), (l, d))
           else abind (lift_dir (rotate_files w path (al_max_archives l))) (\<lambda>_. aset_hash ''genesis'') (l, d)
       | Some _ \<Rightarrow> (Inl (AuditOpen path AioInvalidInput), (l, d))))"

section \<open>Appending\<close>

definition ensure_trailing_newline :: "string \<Rightarrow> string" where
  "ensure_trailing_newline content =
     (if content \<noteq> [] \<and> last content \<noteq> NL then content @ [NL] else content)"

definition set_content :: "string \<Rightarrow> string \<Rightarrow> unit on_dir" where
  "set_content path content = amodify (\<lambda>d. d(path \<mapsto> RegularFile content))"

definition append_entry :: "audit_world \<Rightarrow> string \<Rightarrow> audit_entry \<Rightarrow> unit on_dir" where
  "append_entry w path entry =
     abind (open_create w path) (\<lambda>content0.
     abind (alift (io_call w (OpNewline path) (AuditWrite path))) (\<lambda>_.
     let content = ensure_trailing_newline content0 in
     abind (set_content path content) (\<lambda>_.
     case aw_to_json w entry of
       None \<Rightarrow> araise AuditSerialize
     | Some json \<Rightarrow>
         (case io_call w (OpWrite path) (AuditWrite path) of
            Inl e \<Rightarrow>
              abind (set_content path (content @ take (aw_partial w) (json @ [NL]))) (\<lambda>_.
              araise e)
          | Inr _ \<Rightarrow>
              abind (set_content path (content @ json @ [NL])) (\<lambda>_.
              abind (alift (io_call w (OpFlush path) (AuditWrite path))) (\<lambda>_.
              alift (io_call w (OpSync path) (AuditWrite path))))))))"

record audit_event =
  ev_type :: audit_event_type
  ev_severity :: audit_severity
  ev_resource :: string
  ev_description :: string

text \<open>What an append reads from its surroundings: the random identifier, the clock, the user.\<close>

record audit_context =
  cx_id :: string
  cx_timestamp :: string
  cx_user :: "string option"

definition entry_of :: "audit_world \<Rightarrow> audit_context \<Rightarrow> audit_event \<Rightarrow> string \<Rightarrow> audit_entry" where
  "entry_of w cx ev prev_hash =
     (let entry =
        \<lparr>ae_id = cx_id cx, ae_timestamp = cx_timestamp cx, ae_event_type = ev_type ev, ae_severity = ev_severity ev,
         ae_user = bounded_audit_field (case cx_user cx of None \<Rightarrow> ''unknown'' | Some u \<Rightarrow> u),
         ae_resource = bounded_audit_field (ev_resource ev),
         ae_description = bounded_audit_field (ev_description ev),
         ae_metadata = None, ae_prev_hash = prev_hash,
         ae_hash_version = HASH_VERSION_LENGTH_PREFIXED, ae_hash = None\<rparr>
      in entry\<lparr>ae_hash := Some (compute_hash (aw_digest w) entry)\<rparr>)"

definition log_locked :: "audit_world \<Rightarrow> audit_context \<Rightarrow> audit_event \<Rightarrow> unit on_logger" where
  "log_locked w cx ev =
     abind (rotate_if_needed w) (\<lambda>_.
     abind (aread (\<lambda>(l, d). get_last_hash w d (al_log_path l))) (\<lambda>prev_hash.
     let entry = entry_of w cx ev prev_hash in
     abind (aread (\<lambda>(l, d). Inr (al_log_path l))) (\<lambda>path.
     abind (lift_dir (append_entry w path entry)) (\<lambda>_.
     case ae_hash entry of
       None \<Rightarrow> araise AuditEntryInvariant
     | Some h \<Rightarrow> aset_hash h))))"

definition log :: "audit_world \<Rightarrow> audit_context \<Rightarrow> audit_event \<Rightarrow> unit on_logger" where
  "log w cx ev =
     abind (aread (\<lambda>(l, d). Inr (al_log_path l))) (\<lambda>path.
     abind (lift_dir (acquire_lock w path)) (\<lambda>_.
     releasing w path path (log_locked w cx ev)))"

section \<open>Verifying and reading\<close>

record verify_state =
  vs_total :: nat
  vs_valid :: nat
  vs_chain :: bool
  vs_expected :: string
  vs_first :: "string option"

record integrity_report =
  ir_total_entries :: nat
  ir_valid_entries :: nat
  ir_chain_valid :: bool
  ir_first_invalid :: "string option"
  ir_log_path :: string

definition is_valid :: "integrity_report \<Rightarrow> bool" where
  "is_valid r \<longleftrightarrow> ir_chain_valid r \<and> ir_total_entries r = ir_valid_entries r"

definition note_invalid :: "string \<Rightarrow> verify_state \<Rightarrow> verify_state" where
  "note_invalid name st = (if vs_first st = None then st\<lparr>vs_first := Some name\<rparr> else st)"

definition verify_line :: "audit_world \<Rightarrow> verify_state \<Rightarrow> string \<Rightarrow> verify_state" where
  "verify_line w st0 line =
     (let st = st0\<lparr>vs_total := vs_total st0 + 1\<rparr> in
      case aw_from_json w line of
        Some entry \<Rightarrow>
          let st = (if verify (aw_digest w) entry then st\<lparr>vs_valid := vs_valid st + 1\<rparr>
                    else note_invalid (ae_id entry) st);
              st = (if ae_prev_hash entry \<noteq> vs_expected st
                    then note_invalid (ae_id entry) (st\<lparr>vs_chain := False\<rparr>) else st)
          in (case ae_hash entry of Some h \<Rightarrow> st\<lparr>vs_expected := h\<rparr> | None \<Rightarrow> st)
      | None \<Rightarrow> note_invalid (''line_'' @ show_nat (vs_total st)) (st\<lparr>vs_chain := False\<rparr>))"

fun verify_lines :: "audit_world \<Rightarrow> string \<Rightarrow> verify_state \<Rightarrow> string list \<Rightarrow> (audit_error, verify_state) result" where
  "verify_lines w path st [] = Inr st"
| "verify_lines w path st (line # rest) =
     rbind (ensure (aw_utf8 w line) (AuditRead path AioInvalidData)) (\<lambda>_.
     verify_lines w path (verify_line w st line) rest)"

definition verify_start :: verify_state where
  "verify_start = \<lparr>vs_total = 0, vs_valid = 0, vs_chain = True, vs_expected = ''genesis'', vs_first = None\<rparr>"

definition verify_integrity_unlocked ::
  "audit_world \<Rightarrow> string \<Rightarrow> audit_dir \<Rightarrow> (audit_error, integrity_report) result" where
  "verify_integrity_unlocked w path d =
     rbind (open_read_file w d path) (\<lambda>content.
     rbind (io_call w (OpRead path) (AuditRead path)) (\<lambda>_.
     rbind (verify_lines w path verify_start (str_lines content)) (\<lambda>st.
     Inr \<lparr>ir_total_entries = vs_total st, ir_valid_entries = vs_valid st,
          ir_chain_valid = vs_chain st, ir_first_invalid = vs_first st, ir_log_path = path\<rparr>)))"

definition verify_integrity :: "audit_world \<Rightarrow> audit_logger \<Rightarrow> integrity_report on_dir" where
  "verify_integrity w l =
     with_audit_read_lock w (al_log_path l) (aread (verify_integrity_unlocked w (al_log_path l)))"

definition path_exists :: "audit_dir \<Rightarrow> string \<Rightarrow> bool" where
  "path_exists d path = (case d path of None \<Rightarrow> False | Some (SymbolicLink target) \<Rightarrow> target | Some _ \<Rightarrow> True)"

fun read_entries :: "audit_world \<Rightarrow> string \<Rightarrow> nat \<Rightarrow> string list \<Rightarrow> (audit_error, audit_entry list) result" where
  "read_entries w path index [] = Inr []"
| "read_entries w path index (line # rest) =
     rbind (ensure (aw_utf8 w line) (AuditRead path AioInvalidData)) (\<lambda>_.
     if line = [] then read_entries w path (index + 1) rest
     else (case aw_from_json w line of
         None \<Rightarrow> Inl (AuditCorruptLine path (index + 1))
       | Some entry \<Rightarrow> rbind (read_entries w path (index + 1) rest) (\<lambda>entries. Inr (entry # entries))))"

definition read_all_entries_unlocked ::
  "audit_world \<Rightarrow> string \<Rightarrow> audit_dir \<Rightarrow> (audit_error, audit_entry list) result" where
  "read_all_entries_unlocked w path d =
     (if \<not> path_exists d path then Inr []
      else
        rbind (open_read_file w d path) (\<lambda>content.
        rbind (io_call w (OpRead path) (AuditRead path)) (\<lambda>_.
        read_entries w path 0 (str_lines content))))"

definition read_all_entries :: "audit_world \<Rightarrow> string \<Rightarrow> audit_entry list on_dir" where
  "read_all_entries w path = with_audit_read_lock w path (aread (read_all_entries_unlocked w path))"

definition get_recent :: "audit_world \<Rightarrow> audit_logger \<Rightarrow> nat \<Rightarrow> audit_entry list on_dir" where
  "get_recent w l limit =
     abind (read_all_entries w (al_log_path l)) (\<lambda>entries. aret (take limit (rev entries)))"

definition filter_by_severity :: "audit_world \<Rightarrow> audit_logger \<Rightarrow> audit_severity \<Rightarrow> audit_entry list on_dir" where
  "filter_by_severity w l min_severity =
     abind (read_all_entries w (al_log_path l)) (\<lambda>entries.
     aret (filter (\<lambda>e. severity_rank min_severity \<le> severity_rank (ae_severity e)) entries))"

section \<open>Hash chains\<close>

text \<open>
  A list of entries is linked from \<open>p\<close> when each is valid, carries its hash, and names the hash
  before it; the tip is the last hash.
\<close>

fun linked :: "('e \<Rightarrow> bool) \<Rightarrow> ('e \<Rightarrow> 'h) \<Rightarrow> ('e \<Rightarrow> 'h option) \<Rightarrow> 'h \<Rightarrow> 'e list \<Rightarrow> bool" where
  "linked valid prev stored p [] \<longleftrightarrow> True"
| "linked valid prev stored p (e # es) \<longleftrightarrow>
     valid e \<and> prev e = p \<and> (case stored e of None \<Rightarrow> False | Some h \<Rightarrow> linked valid prev stored h es)"

fun tip :: "('e \<Rightarrow> 'h option) \<Rightarrow> 'h \<Rightarrow> 'e list \<Rightarrow> 'h" where
  "tip stored p [] = p"
| "tip stored p (e # es) = tip stored (case stored e of None \<Rightarrow> p | Some h \<Rightarrow> h) es"

lemma tip_snoc: "tip stored p (es @ [e]) = (case stored e of None \<Rightarrow> tip stored p es | Some h \<Rightarrow> h)"
  by (induction es arbitrary: p) (auto split: option.splits)

lemma linked_snoc:
  "linked valid prev stored p (es @ [e]) \<longleftrightarrow>
     linked valid prev stored p es \<and> valid e \<and> prev e = tip stored p es \<and> stored e \<noteq> None"
  by (induction es arbitrary: p) (auto split: option.splits)

text \<open>
  The contract of a chain whose preimages bind the entries: what a verifier may conclude from the
  tip alone.
\<close>

locale binding_chain =
  fixes bound :: "'e \<Rightarrow> bool" and pre :: "'e \<Rightarrow> 'b" and prev :: "'e \<Rightarrow> 'h" and stored :: "'e \<Rightarrow> 'h option"
  assumes pre_binds: "bound a \<Longrightarrow> bound b \<Longrightarrow> pre a = pre b \<Longrightarrow> stored a = stored b \<Longrightarrow> a = b"
begin

lemma same_tip_same_chain:
  assumes valid: "\<And>e. valid e \<Longrightarrow> stored e = Some (digest (pre e))"
    and fresh: "\<And>b. digest b \<noteq> g"
    and "linked valid prev stored g es" "linked valid prev stored g es'"
    and "\<forall>e \<in> set es \<union> set es'. bound e" "tip stored g es = tip stored g es'"
  shows "es = es' \<or> (\<exists>a \<in> set es. \<exists>b \<in> set es'. pre a \<noteq> pre b \<and> digest (pre a) = digest (pre b))"
  using assms(3-)
proof (induction es arbitrary: es' rule: rev_induct)
  case Nil
  show ?case
  proof (cases es' rule: rev_cases)
    case (snoc ys y)
    then have "tip stored g es' = digest (pre y)"
      using Nil(2) valid [of y] by (auto simp: linked_snoc tip_snoc)
    then show ?thesis using Nil(4) fresh [of "pre y"] by simp
  qed simp
next
  case (snoc x xs)
  have x: "stored x = Some (digest (pre x))" "linked valid prev stored g xs" "prev x = tip stored g xs"
    using snoc.prems(1) valid [of x] by (auto simp: linked_snoc)
  show ?case
  proof (cases es' rule: rev_cases)
    case Nil
    then show ?thesis using snoc.prems(4) x(1) fresh [of "pre x"] by (simp add: tip_snoc)
  next
    case (snoc ys y)
    have y: "stored y = Some (digest (pre y))" "linked valid prev stored g ys" "prev y = tip stored g ys"
      using snoc.prems(2) valid [of y] snoc by (auto simp: linked_snoc)
    have eq: "digest (pre x) = digest (pre y)"
      using snoc.prems(4) x(1) y(1) snoc by (simp add: tip_snoc)
    show ?thesis
    proof (cases "pre x = pre y")
      case True
      with x(1) y(1) snoc.prems(3) snoc have "x = y" by (intro pre_binds) auto
      with x y snoc.IH [of ys] snoc.prems(3) snoc show ?thesis by auto
    next
      case False
      with eq snoc show ?thesis by auto
    qed
  qed
qed

end

definition current_entry :: "audit_entry \<Rightarrow> bool" where
  "current_entry e \<longleftrightarrow> representable e \<and> ae_hash_version e \<noteq> HASH_VERSION_LEGACY"

lemma same_preimage_same_entry:
  assumes "current_entry a" "current_entry b" "preimage a = preimage b" "ae_hash a = ae_hash b"
  shows "a = b"
proof -
  have "prefixed_preimage a = prefixed_preimage b"
    using assms by (simp add: current_entry_def preimage_def)
  then have "a\<lparr>ae_hash := None\<rparr> = b\<lparr>ae_hash := None\<rparr>"
    using assms(1,2) by (intro prefixed_preimage_inject) (simp_all add: current_entry_def)
  with assms(4) show ?thesis by (cases a; cases b) simp
qed

interpretation audit_chain: binding_chain current_entry preimage ae_prev_hash ae_hash
  by unfold_locales (rule same_preimage_same_entry)

abbreviation chain_ok :: "(nat list \<Rightarrow> string) \<Rightarrow> audit_entry list \<Rightarrow> bool" where
  "chain_ok digest es \<equiv> linked (verify digest) ae_prev_hash ae_hash ''genesis'' es"

abbreviation chain_tip :: "audit_entry list \<Rightarrow> string" where
  "chain_tip es \<equiv> tip ae_hash ''genesis'' es"

lemma verify_stored: "verify digest e \<Longrightarrow> ae_hash e = Some (digest (preimage e))"
  by (auto simp: verify_def compute_hash_def split: if_splits option.splits)

section \<open>Sequences of calls, rewritten\<close>

lemma lift_dir_Inr [io_run]:
  "lift_dir m (l, d) = (Inr b, s') \<longleftrightarrow> (\<exists>d'. m d = (Inr b, d') \<and> s' = (l, d'))"
  by (auto simp: lift_dir_def split: prod.splits)

lemma aset_hash_Inr [io_run]:
  "aset_hash h (l, d) = (Inr b, s') \<longleftrightarrow> s' = (l\<lparr>al_last_hash := h\<rparr>, d)"
  by (auto simp: aset_hash_def amodify_def)

lemma io_call_Inr [io_run]: "io_call w op err = Inr u \<longleftrightarrow> aw_fault w op = None"
  by (simp add: io_call_def split: option.splits)

lemma io_call_simps [simp]:
  "aw_fault w op = None \<Longrightarrow> io_call w op err = Inr ()"
  "aw_fault w op = Some m \<Longrightarrow> io_call w op err = Inl (err (AioFault m))"
  by (simp_all add: io_call_def)

lemma set_content_Inr [io_run]:
  "set_content path c d = (Inr u, d') \<longleftrightarrow> d' = d(path \<mapsto> RegularFile c)"
  by (auto simp: set_content_def amodify_def)

lemma open_create_Inr [io_run]:
  "open_create w path d = (Inr content, d') \<longleftrightarrow>
     aw_fault w (OpOpen path) = None \<and>
     (d path = None \<and> content = [] \<and> d' = d(path \<mapsto> RegularFile []) \<or>
      d path = Some (RegularFile content) \<and> d' = d)"
  by (auto simp: open_create_def io_run split: option.splits audit_file.splits)

lemma rename_file_Inr [io_run]:
  "rename_file w a b name d = (Inr u, d') \<longleftrightarrow>
     aw_fault w (OpRename a) = None \<and> d a \<noteq> None \<and> d' = d(a := None, b := d a)"
  by (auto simp: rename_file_def io_run split: option.splits)

lemma remove_file_Inr [io_run]:
  "remove_file w a d = (Inr u, d') \<longleftrightarrow> aw_fault w (OpRemove a) = None \<and> d a \<noteq> None \<and> d' = d(a := None)"
  by (auto simp: remove_file_def io_run split: option.splits)

lemma unless_missing_rename [io_run]:
  "unless_missing (rename_file w a b name) d = (Inr u, d') \<longleftrightarrow>
     aw_fault w (OpRename a) = None \<and> d' = (if d a = None then d else d(a := None, b := d a))"
  by (auto simp: unless_missing_def rename_file_def abind_def alift_def io_call_def is_not_found_def
      split: option.splits)

lemma unless_missing_remove [io_run]:
  "unless_missing (remove_file w a) d = (Inr u, d') \<longleftrightarrow> aw_fault w (OpRemove a) = None \<and> d' = d(a := None)"
  by (auto simp: unless_missing_def remove_file_def abind_def alift_def io_call_def is_not_found_def
      split: option.splits)

lemma open_read_file_Inr [io_run]:
  "open_read_file w d path = Inr content \<longleftrightarrow>
     aw_fault w (OpOpenRead path) = None \<and> d path = Some (RegularFile content)"
  by (auto simp: open_read_file_def io_run split: option.splits audit_file.splits)

section \<open>Verification accepts exactly the linked logs\<close>

abbreviation still_good :: "verify_state \<Rightarrow> bool" where
  "still_good st \<equiv> vs_chain st \<and> vs_total st = vs_valid st"

lemma note_invalid_simps [simp]:
  "vs_total (note_invalid n st) = vs_total st"
  "vs_valid (note_invalid n st) = vs_valid st"
  "vs_chain (note_invalid n st) = vs_chain st"
  "vs_expected (note_invalid n st) = vs_expected st"
  "vs_first (note_invalid n st) \<noteq> None"
  by (simp_all add: note_invalid_def)

lemma verify_line_total [simp]: "vs_total (verify_line w st line) = vs_total st + 1"
  by (simp add: verify_line_def Let_def split: option.splits)

lemma verify_line_valid: "vs_valid (verify_line w st line) \<le> vs_valid st + 1"
  by (simp add: verify_line_def Let_def split: option.splits)

lemma verify_line_good:
  assumes "vs_valid st \<le> vs_total st"
  shows "still_good (verify_line w st line) \<longleftrightarrow>
    still_good st \<and> (\<exists>e. aw_from_json w line = Some e \<and> verify (aw_digest w) e \<and> ae_prev_hash e = vs_expected st)"
  using assms by (auto simp: verify_line_def Let_def split: option.splits)

lemma verify_line_expected:
  "aw_from_json w line = Some e \<Longrightarrow> ae_hash e = Some h \<Longrightarrow> vs_expected (verify_line w st line) = h"
  by (simp add: verify_line_def Let_def)

lemma verify_line_first:
  assumes "vs_valid st \<le> vs_total st" "vs_first st = None \<longleftrightarrow> still_good st"
  shows "vs_first (verify_line w st line) = None \<longleftrightarrow> still_good (verify_line w st line)"
  using assms by (auto simp: verify_line_def Let_def note_invalid_def split: option.splits if_splits)

lemma verify_lines_good:
  assumes "verify_lines w path st ls = Inr st'" "vs_valid st \<le> vs_total st" "vs_first st = None \<longleftrightarrow> still_good st"
  shows "vs_total st' = vs_total st + length ls \<and> (vs_first st' = None \<longleftrightarrow> still_good st') \<and>
    (still_good st' \<longleftrightarrow> still_good st \<and>
      (\<exists>es. map (aw_from_json w) ls = map Some es \<and>
        linked (verify (aw_digest w)) ae_prev_hash ae_hash (vs_expected st) es))"
  using assms
proof (induction ls arbitrary: st)
  case (Cons l ls)
  let ?st = "verify_line w st l"
  have "vs_valid ?st \<le> vs_total ?st" using verify_line_valid [of w st l] Cons.prems(2) by simp
  note IH = Cons.IH [OF _ this verify_line_first [OF Cons.prems(2,3)]]
  have rest: "verify_lines w path ?st ls = Inr st'" using Cons.prems(1) by simp
  have IH': "vs_total st' = vs_total ?st + length ls \<and> (vs_first st' = None \<longleftrightarrow> still_good st') \<and>
    (still_good st' \<longleftrightarrow> still_good ?st \<and>
      (\<exists>es. map (aw_from_json w) ls = map Some es \<and>
        linked (verify (aw_digest w)) ae_prev_hash ae_hash (vs_expected ?st) es))"
    by (rule IH [OF rest])
  have split: "(\<exists>es. map (aw_from_json w) (l # ls) = map Some es \<and>
        linked (verify (aw_digest w)) ae_prev_hash ae_hash (vs_expected st) es) \<longleftrightarrow>
      (\<exists>e es. aw_from_json w l = Some e \<and> verify (aw_digest w) e \<and> ae_prev_hash e = vs_expected st \<and>
        map (aw_from_json w) ls = map Some es \<and>
        linked (verify (aw_digest w)) ae_prev_hash ae_hash (vs_expected ?st) es)" (is "?L \<longleftrightarrow> ?R")
  proof
    assume ?L
    then obtain e es where "aw_from_json w l = Some e" "map (aw_from_json w) ls = map Some es"
      "linked (verify (aw_digest w)) ae_prev_hash ae_hash (vs_expected st) (e # es)"
      by (auto simp: Cons_eq_map_conv)
    then show ?R using verify_line_expected [of w l e] by (auto split: option.splits)
  next
    assume ?R
    then obtain e es where *: "aw_from_json w l = Some e" "verify (aw_digest w) e" "ae_prev_hash e = vs_expected st"
        "map (aw_from_json w) ls = map Some es"
        "linked (verify (aw_digest w)) ae_prev_hash ae_hash (vs_expected ?st) es" by blast
    then show ?L
      using verify_stored [OF *(2)] verify_line_expected [OF *(1), of _ st]
      by (intro exI [of _ "e # es"]) auto
  qed
  show ?case using IH' verify_line_good [OF Cons.prems(2), of w l] unfolding split by auto
qed auto

lemma verify_integrity_unlocked_Inr:
  assumes "verify_integrity_unlocked w path d = Inr r"
  shows "\<exists>content. d path = Some (RegularFile content) \<and> ir_total_entries r = length (str_lines content) \<and>
    (ir_first_invalid r = None \<longleftrightarrow> is_valid r) \<and>
    (is_valid r \<longleftrightarrow> (\<exists>es. map (aw_from_json w) (str_lines content) = map Some es \<and> chain_ok (aw_digest w) es))"
proof -
  obtain content st where *: "d path = Some (RegularFile content)"
    "verify_lines w path verify_start (str_lines content) = Inr st"
    "r = \<lparr>ir_total_entries = vs_total st, ir_valid_entries = vs_valid st,
          ir_chain_valid = vs_chain st, ir_first_invalid = vs_first st, ir_log_path = path\<rparr>"
    using assms by (auto simp: verify_integrity_unlocked_def io_run)
  have start: "vs_total verify_start = 0" "vs_valid verify_start = 0" "vs_first verify_start = None"
    "still_good verify_start" "vs_expected verify_start = ''genesis''"
    by (simp_all add: verify_start_def)
  have r: "is_valid r \<longleftrightarrow> still_good st" "ir_total_entries r = vs_total st" "ir_first_invalid r = vs_first st"
    using *(3) by (simp_all add: is_valid_def)
  show ?thesis
    using verify_lines_good [OF *(2)] *(1) start unfolding r by auto
qed

section \<open>What the bytes of a log hold\<close>

definition unlines :: "string list \<Rightarrow> string" where
  "unlines js = concat (map (\<lambda>j. j @ [NL]) js)"

definition plain_line :: "audit_world \<Rightarrow> string \<Rightarrow> bool" where
  "plain_line w j \<longleftrightarrow> j \<noteq> [] \<and> NL \<notin> set j \<and> CHR 0x0D \<notin> set j \<and> aw_utf8 w j"

text \<open>The content is one plain line per entry; the last line feed may be missing after a torn write.\<close>

definition log_holds :: "audit_world \<Rightarrow> string \<Rightarrow> audit_entry list \<Rightarrow> bool" where
  "log_holds w content es \<longleftrightarrow>
     (\<exists>js. ensure_trailing_newline content = unlines js \<and> list_all (plain_line w) js \<and>
           map (aw_from_json w) js = map Some es)"

definition log_at :: "audit_world \<Rightarrow> audit_dir \<Rightarrow> string \<Rightarrow> audit_entry list \<Rightarrow> bool" where
  "log_at w d path es =
     (case d path of None \<Rightarrow> es = [] | Some (RegularFile c) \<Rightarrow> log_holds w c es | Some _ \<Rightarrow> False)"

text \<open>
  What the log relies on from the JSON coding: a rendered entry without metadata is one plain line
  and reads back as the same entry.
\<close>

definition json_codec :: "audit_world \<Rightarrow> bool" where
  "json_codec w \<longleftrightarrow>
     (\<forall>e j. aw_to_json w e = Some j \<longrightarrow> ae_metadata e = None \<longrightarrow> aw_from_json w j = Some e \<and> plain_line w j)"

lemma unlines_simps [simp]:
  "unlines [] = []"
  "unlines (j # js) = j @ NL # unlines js"
  "unlines (js @ js') = unlines js @ unlines js'"
  by (simp_all add: unlines_def)

lemma ensure_newline_idem [simp]:
  "ensure_trailing_newline (ensure_trailing_newline c) = ensure_trailing_newline c"
  by (simp add: ensure_trailing_newline_def)

lemma ensure_newline_snoc [simp]: "ensure_trailing_newline (c @ [NL]) = c @ [NL]"
  by (simp add: ensure_trailing_newline_def)

lemma ensure_newline_cases:
  "ensure_trailing_newline c = c \<or> ensure_trailing_newline c = c @ [NL]"
  by (simp add: ensure_trailing_newline_def)

lemma ensure_newline_Nil [simp]: "ensure_trailing_newline c = [] \<longleftrightarrow> c = []"
  by (simp add: ensure_trailing_newline_def)

lemma unlines_Nil [simp]: "unlines js = [] \<longleftrightarrow> js = []" "[] = unlines js \<longleftrightarrow> js = []"
  by (cases js; simp)+

lemma unlines_ends: "js \<noteq> [] \<Longrightarrow> \<exists>c. unlines js = c @ [NL]"
  by (cases js rule: rev_cases) simp_all

lemma log_holds_Nil [simp]: "log_holds w [] es \<longleftrightarrow> es = []"
  by (auto simp: log_holds_def ensure_trailing_newline_def)

lemma log_holds_append:
  assumes "log_holds w c es" "plain_line w j" "aw_from_json w j = Some e"
  shows "log_holds w (ensure_trailing_newline c @ j @ [NL]) (es @ [e])"
proof -
  obtain js where js: "ensure_trailing_newline c = unlines js" "list_all (plain_line w) js"
    "map (aw_from_json w) js = map Some es"
    using assms(1) by (auto simp: log_holds_def)
  have "ensure_trailing_newline (unlines js @ j @ [NL]) = unlines (js @ [j])"
    using ensure_newline_snoc [of "unlines js @ j"] by simp
  with js assms(2,3) show ?thesis
    unfolding log_holds_def by (intro exI [of _ "js @ [j]"]) simp
qed

lemma strip_line_end_plain:
  assumes "plain_line w j" "\<forall>b \<in> set t. b = NL \<or> b = CHR 0x0D"
  shows "strip_line_end (a @ j @ t) = a @ j"
proof -
  obtain x y where j: "j = x @ [y]" "y \<noteq> NL" "y \<noteq> CHR 0x0D"
    using assms(1) by (cases j rule: rev_cases) (auto simp: plain_line_def)
  have "dropWhile (\<lambda>b. b = NL \<or> b = CHR 0x0D) (rev t @ rev (a @ j)) = rev (a @ j)"
    using assms(2) j by (subst dropWhile_append2) auto
  then show ?thesis by (simp add: strip_line_end_def)
qed

lemma strip_line_end_suffix:
  assumes "plain_line w j" "n < length j" "\<forall>b \<in> set t. b = NL \<or> b = CHR 0x0D"
  shows "strip_line_end (drop n j @ t) = drop n j"
proof -
  obtain x y where j: "j = x @ [y]" "y \<noteq> NL" "y \<noteq> CHR 0x0D"
    using assms(1) by (cases j rule: rev_cases) (auto simp: plain_line_def)
  have "dropWhile (\<lambda>b. b = NL \<or> b = CHR 0x0D) (rev t @ rev (drop n j)) = rev (drop n j)"
    using assms(2,3) j by (subst dropWhile_append2) auto
  then show ?thesis by (simp add: strip_line_end_def)
qed

lemma last_entry_hash_Inr [io_run]:
  "last_entry_hash w path line n = Inr h \<longleftrightarrow>
     aw_utf8 w line \<and> (\<exists>e. aw_from_json w line = Some e \<and> ae_hash e = Some h)"
  by (auto simp: last_entry_hash_def split: option.splits)

lemma str_lines_unlines:
  "list_all (plain_line w) js \<Longrightarrow> str_lines_acc [] (unlines js @ s) = js @ str_lines_acc [] s"
proof (induction js)
  case (Cons j js)
  then have "strip_cr j = j" by (auto simp: plain_line_def strip_cr_def ends_with_char_iff)
  with Cons show ?case by (simp add: str_lines_acc_line plain_line_def)
qed simp

lemma unlines_lines:
  assumes js: "ensure_trailing_newline c = unlines js" "list_all (plain_line w) js"
  shows "str_lines c = js"
proof (cases "ensure_trailing_newline c = c")
    case True
    then show ?thesis using js(1) str_lines_unlines [OF js(2), of "[]"] by (simp add: str_lines_def)
  next
    case False
    then have c: "c @ [NL] = unlines js" "c \<noteq> []" "last c \<noteq> NL"
      using js(1) by (auto simp: ensure_trailing_newline_def split: if_splits)
    then obtain js0 j where j: "js = js0 @ [j]" by (cases js rule: rev_cases) auto
    with c(1) have "c = unlines js0 @ j" by simp
    then show ?thesis
      using str_lines_unlines [of w js0 j] js(2) j str_lines_acc_rest [of j "[]"]
      by (simp add: str_lines_def plain_line_def)
qed

lemma log_holds_lines:
  "log_holds w c es \<Longrightarrow>
     map (aw_from_json w) (str_lines c) = map Some es \<and> list_all (plain_line w) (str_lines c)"
  by (auto simp: log_holds_def dest: unlines_lines)

text \<open>The last line of a log, and the entry it holds.\<close>

lemma log_holds_last:
  assumes "log_holds w c es" "c \<noteq> []"
  obtains pre j t es' e where "c = pre @ j @ t" "pre = [] \<or> (\<exists>p. pre = p @ [NL])" "plain_line w j"
    "t = [] \<or> t = [NL]" "es = es' @ [e]" "aw_from_json w j = Some e" "j \<in> set (str_lines c)"
proof -
  obtain js where js: "ensure_trailing_newline c = unlines js" "list_all (plain_line w) js"
    "map (aw_from_json w) js = map Some es"
    using assms(1) by (auto simp: log_holds_def)
  with assms(2) have "js \<noteq> []" by (metis ensure_newline_Nil unlines_Nil(1))
  then obtain js0 j where j: "js = js0 @ [j]" by (cases js rule: rev_cases) auto
  with js(3) obtain es' e where e: "es = es' @ [e]" "aw_from_json w j = Some e"
    by (cases es rule: rev_cases) auto
  have plain: "plain_line w j" using js(2) j by simp
  have c: "c = unlines js0 @ j @ [NL] \<or> c = unlines js0 @ j"
    using ensure_newline_cases [of c] js(1) j by auto
  have pre: "unlines js0 = [] \<or> (\<exists>p. unlines js0 = p @ [NL])"
    using unlines_ends [of js0] by (cases "js0 = []") auto
  have mem: "j \<in> set (str_lines c)" using unlines_lines [OF js(1,2)] j by simp
  from c show ?thesis
    by (elim disjE) (use that [OF _ pre plain _ e mem] in \<open>force+\<close>)
qed

lemma get_last_hash_content:
  assumes "get_last_hash w d path = Inr h" "d path = Some (RegularFile c)" "c \<noteq> []"
    "c = pre @ j @ t" "pre = [] \<or> (\<exists>p. pre = p @ [NL])" "plain_line w j" "t = [] \<or> t = [NL]"
  shows "\<exists>e. aw_from_json w j = Some e \<and> ae_hash e = Some h"
proof -
  define n where "n = nat (int (length c) - (MAX_AUDIT_ENTRY_BYTES + 2))"
  let ?tail = "strip_line_end (drop n c)"
  have noNL: "NL \<notin> set j" and j: "j \<noteq> []" using assms(6) by (auto simp: plain_line_def)
  have t: "\<forall>b \<in> set t. b = NL \<or> b = CHR 0x0D" "length t \<le> 1" using assms(7) by auto
  have res: "(if ?tail = [] then Inr ''genesis''
      else (case rsplit_once NL ?tail of
          None \<Rightarrow> if n > 0 then Inl (AuditRead path AioInvalidData) else last_entry_hash w path ?tail 1
        | Some (before, line) \<Rightarrow> last_entry_hash w path line
              (if n = 0 then length (filter (\<lambda>b. b = NL) before) + 2 else 0))) = Inr h"
    using assms(1,2,3)
    by (auto simp: get_last_hash_def open_read_file_def io_call_def Let_def n_def
        split: option.splits if_splits)
  show ?thesis
  proof (cases "n \<le> length pre")
    case True
    then have tail: "?tail = drop n pre @ j"
      using strip_line_end_plain [OF assms(6) t(1)] assms(4) by simp
    show ?thesis
    proof (cases "drop n pre = []")
      case True
      then have "rsplit_once NL ?tail = None" using tail noNL by (simp add: rsplit_once_None)
      then show ?thesis using res tail True j by (auto simp: io_run split: if_splits)
    next
      case False
      then obtain p where "drop n pre = p @ [NL]" using assms(5) by auto
      then have "rsplit_once NL ?tail = Some (p, j)" using tail noNL by (simp add: rsplit_once_Some)
      then show ?thesis using res tail j by (auto simp: io_run split: if_splits)
    qed
  next
    case False
    then have n: "n > 0" by linarith
    have "length c = n + 131074" using n n_def by (simp add: MAX_AUDIT_ENTRY_BYTES_def)
    then have lt: "n - length pre < length j" using False t(2) assms(4) by (simp add: not_le less_diff_conv2)
    have "drop n c = drop (n - length pre) j @ t" using False assms(4) lt by simp
    then have tail: "?tail = drop (n - length pre) j"
      using strip_line_end_suffix [OF assms(6) lt t(1)] by simp
    have "NL \<notin> set ?tail" using noNL set_drop_subset [of "n - length pre" j] tail by auto
    then have "rsplit_once NL ?tail = None" by (simp add: rsplit_once_None)
    then show ?thesis using res n tail lt by (auto split: if_splits)
  qed
qed

lemma get_last_hash_tip:
  assumes "get_last_hash w d path = Inr h" "log_at w d path es"
  shows "h = chain_tip es"
proof (cases "d path")
  case None
  then show ?thesis using assms
    by (auto simp: log_at_def get_last_hash_def open_read_file_def io_call_def split: option.splits)
next
  case (Some f)
  then obtain c where c: "d path = Some (RegularFile c)" "log_holds w c es"
    using assms(2) by (auto simp: log_at_def split: audit_file.splits)
  show ?thesis
  proof (cases "c = []")
    case True
    then show ?thesis using assms(1) c
      by (auto simp: get_last_hash_def open_read_file_def io_call_def split: option.splits)
  next
    case False
    then obtain pre j t es' e where *: "c = pre @ j @ t" "pre = [] \<or> (\<exists>p. pre = p @ [NL])" "plain_line w j"
      "t = [] \<or> t = [NL]" "es = es' @ [e]" "aw_from_json w j = Some e"
      using log_holds_last [OF c(2)] by metis
    show ?thesis using get_last_hash_content [OF assms(1) c(1) False *(1-4)] *(5,6) by (auto simp: tip_snoc)
  qed
qed

section \<open>Names of archives\<close>

lemma show_nat_nonempty [simp]: "show_nat n \<noteq> []" "[] \<noteq> show_nat n"
  by (subst show_nat.simps, simp)+

lemma digit_char_inject:
  assumes "a < 10" "b < 10" "(char_of (48 + a :: nat) :: char) = char_of (48 + b :: nat)"
  shows "a = b"
proof -
  have "code_of (char_of (48 + a)) = code_of (char_of (48 + b))" using assms(3) by (rule arg_cong)
  then show ?thesis using assms(1,2) code_of_char_of [of "48 + a"] code_of_char_of [of "48 + b"] by linarith
qed

lemma show_nat_injectD: "show_nat m = show_nat n \<Longrightarrow> m = n"
proof (induction m arbitrary: n rule: show_nat.induct)
  case (1 m)
  consider "m < 10" "n < 10" | "m \<ge> 10" "n \<ge> 10" | "m < 10" "n \<ge> 10" | "m \<ge> 10" "n < 10" by linarith
  then show ?case
  proof cases
    case 1
    then show ?thesis
      using "1.prems" digit_char_inject [of m n] unfolding show_nat.simps [of m] show_nat.simps [of n] by simp
  next
    case 2
    then have "show_nat (m div 10) = show_nat (n div 10)"
      "(char_of (48 + m mod 10) :: char) = char_of (48 + n mod 10)"
      using "1.prems" unfolding show_nat.simps [of m] show_nat.simps [of n] by simp_all
    then have "m div 10 = n div 10" "m mod 10 = n mod 10"
      using "1.IH" 2 digit_char_inject [of "m mod 10" "n mod 10"] by simp_all
    then show ?thesis by (metis div_mult_mod_eq)
  qed (use "1.prems" in \<open>simp_all add: show_nat.simps [of m] show_nat.simps [of n]\<close>)
qed

lemma show_nat_inject [simp]: "show_nat m = show_nat n \<longleftrightarrow> m = n"
  using show_nat_injectD by blast

lemma rotated_path_simps [simp]:
  "rotated_path path i = rotated_path path j \<longleftrightarrow> i = j"
  "rotated_path path i \<noteq> path"
  "path \<noteq> rotated_path path i"
  by (auto simp: rotated_path_def)

section \<open>Rotation shifts the archives\<close>

lemma shift_archives_Inr:
  assumes "shift_archives w path k d = (Inr u, d')" "d (rotated_path path (Suc k)) = None"
  shows "(\<forall>i \<in> {1..k}. d' (rotated_path path (i + 1)) = d (rotated_path path i)) \<and>
    d' (rotated_path path 1) = None \<and>
    (\<forall>q. q \<notin> rotated_path path ` {1..Suc k} \<longrightarrow> d' q = d q)"
  using assms
proof (induction k arbitrary: d)
  case (Suc k)
  define d1 where "d1 = d(rotated_path path (Suc k) := None,
    rotated_path path (Suc (Suc k)) := d (rotated_path path (Suc k)))"
  have "(if d (rotated_path path (Suc k)) = None then d
      else d(rotated_path path (Suc k) := None, rotated_path path (Suc k + 1) := d (rotated_path path (Suc k)))) = d1"
    using Suc.prems(2) by (auto simp: d1_def fun_eq_iff)
  then have "shift_archives w path k d1 = (Inr u, d')"
    using Suc.prems(1) by (auto simp: io_run)
  from Suc.IH [OF this] have IH:
    "\<forall>i \<in> {1..k}. d' (rotated_path path (i + 1)) = d1 (rotated_path path i)"
    "d' (rotated_path path 1) = None"
    "\<forall>q. q \<notin> rotated_path path ` {1..Suc k} \<longrightarrow> d' q = d1 q"
    by (auto simp: d1_def)
  have "rotated_path path (Suc (Suc k)) \<notin> rotated_path path ` {1..Suc k}" by auto
  then have "d' (rotated_path path (Suc (Suc k))) = d (rotated_path path (Suc k))"
    using IH(3) [rule_format, of "rotated_path path (Suc (Suc k))"] by (simp add: d1_def)
  moreover have "\<forall>i \<in> {1..k}. d' (rotated_path path (i + 1)) = d (rotated_path path i)"
    using IH(1) by (auto simp: d1_def)
  ultimately have "\<forall>i \<in> {1..Suc k}. d' (rotated_path path (i + 1)) = d (rotated_path path i)"
    by (auto simp: le_Suc_eq)
  moreover have "d' q = d q" if "q \<notin> rotated_path path ` {1..Suc (Suc k)}" for q
  proof -
    have "q \<noteq> rotated_path path (Suc k)" "q \<noteq> rotated_path path (Suc (Suc k))"
      "q \<notin> rotated_path path ` {1..Suc k}"
      using that by (auto simp: image_iff)
    then show ?thesis using IH(3) by (auto simp: d1_def)
  qed
  ultimately show ?case using IH(2) by blast
qed (auto simp: io_run)

lemma rotate_files_Inr:
  assumes "rotate_files w path (Suc n) d = (Inr u, d')"
  shows "d' path = None \<and> d' (rotated_path path 1) = d path \<and>
    (\<forall>i \<in> {1..n}. d' (rotated_path path (i + 1)) = d (rotated_path path i)) \<and>
    (\<forall>q. q \<noteq> path \<longrightarrow> q \<notin> rotated_path path ` {1..Suc n} \<longrightarrow> d' q = d q)"
proof -
  let ?d0 = "d(rotated_path path (Suc n) := None)"
  obtain d1 where d1: "shift_archives w path n ?d0 = (Inr (), d1)"
    and d': "d' = d1(path := None, rotated_path path 1 := d1 path)"
    using assms by (auto simp: rotate_files_def io_run)
  have s: "\<forall>i \<in> {1..n}. d1 (rotated_path path (i + 1)) = ?d0 (rotated_path path i)"
    "\<forall>q. q \<notin> rotated_path path ` {1..Suc n} \<longrightarrow> d1 q = ?d0 q"
    using shift_archives_Inr [OF d1] by auto
  have "d1 path = d path" using s(2) by (auto simp: image_iff)
  moreover have "d' (rotated_path path (i + 1)) = d (rotated_path path i)" if "i \<in> {1..n}" for i
    using that s(1) by (auto simp: d')
  moreover have "d' q = d q" if "q \<noteq> path" "q \<notin> rotated_path path ` {1..Suc n}" for q
  proof -
    have "q \<noteq> rotated_path path 1" "q \<noteq> rotated_path path (Suc n)" using that by (auto simp: image_iff)
    with that s(2) show ?thesis by (simp add: d')
  qed
  ultimately show ?thesis by (simp add: d')
qed

lemma rotate_files_path:
  "rotate_files w path n d = (Inr u, d') \<Longrightarrow> d' path = None"
proof (cases n)
  case (Suc k)
  then show "rotate_files w path n d = (Inr u, d') \<Longrightarrow> d' path = None"
    using rotate_files_Inr [of w path k d u d'] by simp
qed (auto simp: rotate_files_def io_run)

section \<open>Appending extends the chain\<close>

lemma append_entry_Inr:
  assumes "append_entry w path e d = (Inr u, d')"
  shows "\<exists>c j. (d path = None \<and> c = [] \<or> d path = Some (RegularFile c)) \<and> aw_to_json w e = Some j \<and>
    d' = d(path \<mapsto> RegularFile (ensure_trailing_newline c @ j @ [NL]))"
  using assms
  by (cases "aw_to_json w e"; cases "aw_fault w (OpWrite path)")
    (auto simp: append_entry_def Let_def io_run)

lemma rotate_if_needed_Inr:
  assumes "rotate_if_needed w (l, d) = (Inr u, (l', d'))"
  shows "l' = l \<and> d' = d \<and> (\<forall>c. d (al_log_path l) = Some (RegularFile c) \<longrightarrow> length c < al_max_bytes l) \<or>
    (\<exists>c. d (al_log_path l) = Some (RegularFile c) \<and> al_max_bytes l \<le> length c) \<and> d' (al_log_path l) = None \<and>
      rotate_files w (al_log_path l) (al_max_archives l) d = (Inr (), d') \<and> l' = l\<lparr>al_last_hash := ''genesis''\<rparr>"
  using assms rotate_files_path
  by (auto simp: rotate_if_needed_def Let_def io_run not_less split: sum.splits option.splits audit_file.splits if_splits)

lemma acquire_lock_Inr:
  "acquire_lock w path d = (Inr u, d') \<Longrightarrow> d' = d \<or> d (lock_path path) = None \<and> d' = d(lock_path path \<mapsto> RegularFile [])"
  by (auto simp: acquire_lock_def io_run)

lemma acquire_lock_log_at:
  "acquire_lock w path d = (Inr u, d') \<Longrightarrow> log_at w d p es \<Longrightarrow> log_at w d' p es"
  by (drule acquire_lock_Inr, cases "p = lock_path path") (auto simp: log_at_def)

lemma entry_of_simps [simp]:
  "ae_metadata (entry_of w cx ev p) = None"
  "ae_prev_hash (entry_of w cx ev p) = p"
  "ae_hash (entry_of w cx ev p) = Some (aw_digest w (preimage (entry_of w cx ev p)))"
  "verify (aw_digest w) (entry_of w cx ev p)"
  by (simp_all add: entry_of_def Let_def verify_def compute_hash_def preimage_def prefixed_preimage_def
      legacy_preimage_def metadata_text_def HASH_VERSION_LENGTH_PREFIXED_def)

text \<open>The three stages of a successful append: the lock, the rotation, and the entry.\<close>

lemma log_Inr:
  assumes "log w cx ev (l, d) = (Inr u, (l', d'))"
  obtains d1 l2 d2 prev where
    "acquire_lock w (al_log_path l) d = (Inr (), d1)"
    "rotate_if_needed w (l, d1) = (Inr (), (l2, d2))"
    "get_last_hash w d2 (al_log_path l) = Inr prev"
    "append_entry w (al_log_path l) (entry_of w cx ev prev) d2 = (Inr (), d')"
    "al_log_path l2 = al_log_path l"
    "l' = l2\<lparr>al_last_hash := aw_digest w (preimage (entry_of w cx ev prev))\<rparr>"
proof -
  obtain d1 l2 d2 prev where *:
    "acquire_lock w (al_log_path l) d = (Inr (), d1)"
    "rotate_if_needed w (l, d1) = (Inr (), (l2, d2))"
    "get_last_hash w d2 (al_log_path l2) = Inr prev"
    "append_entry w (al_log_path l2) (entry_of w cx ev prev) d2 = (Inr (), d')"
    "l' = l2\<lparr>al_last_hash := aw_digest w (preimage (entry_of w cx ev prev))\<rparr>"
    using assms by (auto simp: log_def log_locked_def releasing_def Let_def io_run)
  moreover have "al_log_path l2 = al_log_path l" using rotate_if_needed_Inr [OF *(2)] by auto
  ultimately show ?thesis using that by metis
qed

lemma log_extends:
  assumes codec: "json_codec w" and at: "log_at w d (al_log_path l) es"
    and ok: "log w cx ev (l, d) = (Inr u, (l', d'))"
  obtains es0 where "es0 = es \<or> es0 = [] \<and> (\<exists>c. d (al_log_path l) = Some (RegularFile c) \<and> al_max_bytes l \<le> length c) \<or>
      es0 = [] \<and> al_max_bytes l = 0"
    "log_at w d' (al_log_path l) (es0 @ [entry_of w cx ev (chain_tip es0)])"
    "al_last_hash l' = chain_tip (es0 @ [entry_of w cx ev (chain_tip es0)])"
proof -
  let ?p = "al_log_path l"
  obtain d1 l2 d2 prev where *: "acquire_lock w ?p d = (Inr (), d1)"
    "rotate_if_needed w (l, d1) = (Inr (), (l2, d2))" "get_last_hash w d2 ?p = Inr prev"
    "append_entry w ?p (entry_of w cx ev prev) d2 = (Inr (), d')"
    "l' = l2\<lparr>al_last_hash := aw_digest w (preimage (entry_of w cx ev prev))\<rparr>"
    using log_Inr [OF ok] by metis
  have at1: "log_at w d1 ?p es" using acquire_lock_log_at [OF *(1) at] .
  obtain es0 where es0: "log_at w d2 ?p es0" "es0 = es \<or> es0 = [] \<and> d2 ?p = None \<and>
      (\<exists>c. d1 ?p = Some (RegularFile c) \<and> al_max_bytes l \<le> length c)"
    using rotate_if_needed_Inr [OF *(2)] at1 by (auto simp: log_at_def)
  have prev: "prev = chain_tip es0" using get_last_hash_tip [OF *(3) es0(1)] .
  obtain c j where c: "d2 ?p = None \<and> c = [] \<or> d2 ?p = Some (RegularFile c)"
    "aw_to_json w (entry_of w cx ev prev) = Some j"
    "d' = d2(?p \<mapsto> RegularFile (ensure_trailing_newline c @ j @ [NL]))"
    using append_entry_Inr [OF *(4)] by blast
  have "log_holds w c es0" using c(1) es0(1) by (auto simp: log_at_def)
  moreover have "plain_line w j" "aw_from_json w j = Some (entry_of w cx ev prev)"
    using codec c(2) by (auto simp: json_codec_def)
  ultimately have "log_at w d' ?p (es0 @ [entry_of w cx ev prev])"
    using log_holds_append [of w c es0 j] c(3) by (simp add: log_at_def)
  moreover have "(\<exists>c. d1 ?p = Some (RegularFile c) \<and> al_max_bytes l \<le> length c) \<longrightarrow>
      (\<exists>c. d ?p = Some (RegularFile c) \<and> al_max_bytes l \<le> length c) \<or> al_max_bytes l = 0"
    using acquire_lock_Inr [OF *(1)] by (auto split: if_splits)
  ultimately show ?thesis
    using that [of es0] es0(2) prev *(5) by (auto simp: tip_snoc)
qed

section \<open>No outcome rewrites history\<close>

lemma open_create_any:
  "open_create w path d = (r, d') \<Longrightarrow> d' = d \<or> d path = None \<and> d' = d(path \<mapsto> RegularFile [])"
  by (auto simp: open_create_def abind_def alift_def io_call_def split: option.splits audit_file.splits)

lemma acquire_lock_any:
  "acquire_lock w path d = (r, d') \<Longrightarrow> p \<in> dom d \<Longrightarrow> d' p = d p"
  by (auto simp: acquire_lock_def alift_def elim!: abind_cases dest!: open_create_any)

lemma append_entry_any:
  assumes "append_entry w path e d = (r, d')"
  shows "(\<forall>q. q \<noteq> path \<longrightarrow> d' q = d q) \<and>
    (\<forall>c. d path = Some (RegularFile c) \<longrightarrow> (\<exists>c'. d' path = Some (RegularFile c') \<and> prefix c c'))"
proof -
  have pre: "prefix c (ensure_trailing_newline c @ x)" for c x
    using ensure_newline_cases [of c] by (auto simp: prefix_def)
  have pre0: "prefix c (ensure_trailing_newline c)" for c using pre [of c "[]"] by simp
  from assms show ?thesis
    by (auto simp: append_entry_def open_create_def abind_def alift_def io_call_def set_content_def amodify_def
        araise_def Let_def pre pre0 split: option.splits audit_file.splits)
qed

lemma shift_archives_any:
  "shift_archives w path k d = (r, d') \<Longrightarrow> d' path = d path"
proof (induction k arbitrary: d)
  case (Suc k)
  have step: "d1 path = d path"
    if "unless_missing (rename_file w (rotated_path path (Suc k)) (rotated_path path (Suc (Suc k))) n) d = (r1, d1)"
    for r1 d1 n
    using that
    by (auto simp: unless_missing_def rename_file_def abind_def alift_def io_call_def split: option.splits if_splits)
  from Suc.prems show ?case
    by (auto elim!: abind_cases dest: step dest!: Suc.IH)
qed (simp add: aret_def)

lemma rotate_files_any:
  assumes "rotate_files w path n d = (r, d')"
  shows "d' path = d path \<or> r = Inr () \<and> (n = 0 \<or> d' (rotated_path path 1) = d path)"
proof (cases n)
  case 0
  then show ?thesis using assms
    by (auto simp: rotate_files_def remove_file_def abind_def alift_def io_call_def split: option.splits)
next
  case (Suc k)
  show ?thesis
  proof (cases r)
    case (Inr u)
    then show ?thesis using rotate_files_Inr [of w path k d u d'] assms Suc by simp
  next
    case (Inl e)
    have rm: "d1 path = d path" if "unless_missing (remove_file w (rotated_path path m)) d = (r1, d1)" for r1 d1 m
      using that
      by (auto simp: unless_missing_def remove_file_def abind_def alift_def io_call_def split: option.splits if_splits)
    have mv: "d2 = d1" if "rename_file w a b name d1 = (Inl e1, d2)" for a b name d1 d2 e1
      using that by (auto simp: rename_file_def abind_def alift_def io_call_def split: option.splits)
    have "d' path = d path"
      using assms Suc Inl
      by (auto simp: rotate_files_def elim!: abind_cases dest: rm dest!: shift_archives_any mv)
    then show ?thesis ..
  qed
qed

lemma rotate_if_needed_any:
  assumes "rotate_if_needed w (l, d) = (r, (l2, d2))" "d (al_log_path l) = Some (RegularFile c)"
  shows "al_log_path l2 = al_log_path l \<and> (d2 (al_log_path l) = Some (RegularFile c) \<or>
    al_max_bytes l \<le> length c \<and>
      (al_max_archives l = 0 \<or> d2 (rotated_path (al_log_path l) 1) = Some (RegularFile c)))"
proof (cases "aw_fault w (OpStat (al_log_path l)) = None \<and> al_max_bytes l \<le> length c")
  case True
  let ?p = "al_log_path l"
  obtain r1 d1 where rot: "rotate_files w ?p (al_max_archives l) d = (r1, d1)" by fastforce
  have "d2 = d1 \<and> al_log_path l2 = ?p"
    using assms True rot
    by (auto simp: rotate_if_needed_def Let_def abind_def lift_dir_def aset_hash_def amodify_def split: sum.splits)
  then show ?thesis using rotate_files_any [OF rot] True assms(2) by auto
next
  case False
  then show ?thesis using assms
    by (auto simp: rotate_if_needed_def Let_def io_call_def split: option.splits if_splits)
qed

lemma releasing_any: "releasing w p n m s = (r, s') \<Longrightarrow> \<exists>r0. m s = (r0, s')"
  by (auto simp: releasing_def alift_def aret_def elim!: abind_cases)

lemma log_locked_any:
  assumes "log_locked w cx ev (l, d) = (r, (l', d'))" "d (al_log_path l) = Some (RegularFile c)"
  shows "(\<exists>c'. d' (al_log_path l) = Some (RegularFile c') \<and> prefix c c') \<or>
    al_max_bytes l \<le> length c \<and>
      (al_max_archives l = 0 \<or> d' (rotated_path (al_log_path l) 1) = Some (RegularFile c))"
proof -
  let ?p = "al_log_path l"
  obtain r1 l2 d2 where rot: "rotate_if_needed w (l, d) = (r1, (l2, d2))" by (metis prod_cases3)
  note rot' = rotate_if_needed_any [OF rot assms(2)]
  have "d' = d2 \<or> (\<exists>e r2. append_entry w ?p e d2 = (r2, d'))"
    using assms(1) rot rot'
    by (auto simp: log_locked_def Let_def aread_def aset_hash_def amodify_def lift_dir_def
        elim!: abind_cases split: prod.splits)
  then show ?thesis
  proof
    assume "\<exists>e r2. append_entry w ?p e d2 = (r2, d')"
    then show ?thesis using rot' append_entry_any [of w ?p _ d2 _ d'] by fastforce
  qed (use rot' in auto)
qed

lemma log_any:
  assumes "log w cx ev (l, d) = (r, (l', d'))" "d (al_log_path l) = Some (RegularFile c)"
  shows "(\<exists>c'. d' (al_log_path l) = Some (RegularFile c') \<and> prefix c c') \<or>
    al_max_bytes l \<le> length c \<and>
      (al_max_archives l = 0 \<or> d' (rotated_path (al_log_path l) 1) = Some (RegularFile c))"
proof -
  let ?p = "al_log_path l"
  obtain r1 d1 where lock: "acquire_lock w ?p d = (r1, d1)" by fastforce
  have d1: "d1 ?p = Some (RegularFile c)" using acquire_lock_any [OF lock, of ?p] assms(2) by auto
  have "(l', d') = (l, d1) \<or> (\<exists>r2. releasing w ?p ?p (log_locked w cx ev) (l, d1) = (r2, (l', d')))"
    using assms(1) lock by (auto simp: log_def aread_def lift_dir_def elim!: abind_cases)
  then show ?thesis
  proof
    assume "\<exists>r2. releasing w ?p ?p (log_locked w cx ev) (l, d1) = (r2, (l', d'))"
    then obtain r2 where "releasing w ?p ?p (log_locked w cx ev) (l, d1) = (r2, (l', d'))" ..
    from releasing_any [OF this] obtain r0 where "log_locked w cx ev (l, d1) = (r0, (l', d'))" ..
    from log_locked_any [OF this d1] show ?thesis .
  qed (use d1 in auto)
qed

section \<open>A healthy log accepts the next event\<close>

definition no_faults :: "audit_world \<Rightarrow> bool" where
  "no_faults w \<longleftrightarrow> (\<forall>op. aw_fault w op = None)"

lemma get_last_hash_ok:
  assumes "no_faults w" "log_at w d path es" "chain_ok (aw_digest w) es"
    "\<forall>c. d path = Some (RegularFile c) \<longrightarrow> (\<forall>j \<in> set (str_lines c). int (length j) \<le> MAX_AUDIT_ENTRY_BYTES)"
  shows "get_last_hash w d path = Inr (chain_tip es)"
proof (cases "d path = None \<or> d path = Some (RegularFile [])")
  case True
  then show ?thesis using assms(1,2)
    by (auto simp: get_last_hash_def open_read_file_def no_faults_def log_at_def)
next
  case False
  then obtain c where c: "d path = Some (RegularFile c)" "log_holds w c es" "c \<noteq> []"
    using assms(2) by (auto simp: log_at_def split: option.splits audit_file.splits)
  obtain pre j t es' e where *: "c = pre @ j @ t" "pre = [] \<or> (\<exists>p. pre = p @ [NL])" "plain_line w j"
    "t = [] \<or> t = [NL]" "es = es' @ [e]" "aw_from_json w j = Some e" "j \<in> set (str_lines c)"
    using log_holds_last [OF c(2,3)] by metis
  define n where "n = nat (int (length c) - (MAX_AUDIT_ENTRY_BYTES + 2))"
  have len: "int (length j) \<le> 131072" using assms(4) c(1) *(7) by (auto simp: MAX_AUDIT_ENTRY_BYTES_def)
  have t: "\<forall>b \<in> set t. b = NL \<or> b = CHR 0x0D" "length t \<le> 1" using *(4) by auto
  have n: "n = 0 \<and> n \<le> length pre \<or> n < length pre"
    using len t(2) *(1) by (auto simp: n_def MAX_AUDIT_ENTRY_BYTES_def)
  have j: "j \<noteq> []" "NL \<notin> set j" "aw_utf8 w j" using *(3) by (auto simp: plain_line_def)
  obtain h where h: "ae_hash e = Some h" using assms(3) *(5) by (auto simp: linked_snoc)
  have tail: "strip_line_end (drop n c) = drop n pre @ j"
    using strip_line_end_plain [OF *(3) t(1), of "drop n pre"] n *(1) by auto
  have line: "last_entry_hash w path j m = Inr h" for m using j(3) *(6) h by (simp add: io_run)
  have split: "rsplit_once NL (drop n pre @ j) =
      (if drop n pre = [] then None else Some (butlast (drop n pre), j))"
    using *(2) j(2) by (auto simp: rsplit_once_None rsplit_once_Some butlast_append)
  have "get_last_hash w d path =
      (case rsplit_once NL (drop n pre @ j) of
          None \<Rightarrow> if n > 0 then Inl (AuditRead path AioInvalidData) else last_entry_hash w path (drop n pre @ j) 1
        | Some (before, line) \<Rightarrow> last_entry_hash w path line
              (if n = 0 then length (filter (\<lambda>b. b = NL) before) + 2 else 0))"
    using c(1,3) assms(1) j(1) tail
    by (cases "n = 0")
      (simp_all add: get_last_hash_def open_read_file_def no_faults_def Let_def n_def [symmetric] cong: option.case_cong)
  also have "\<dots> = Inr h" using n line unfolding split by auto
  finally show ?thesis using *(5) h by (simp add: tip_snoc)
qed

lemma no_faults_runs:
  assumes "no_faults w"
  shows "d path \<noteq> None \<Longrightarrow> \<exists>d'. rotate_files w path n d = (Inr (), d')"
    "d (lock_path path) \<in> {None, Some (RegularFile x)} \<Longrightarrow> \<exists>d'. acquire_lock w path d = (Inr (), d')"
    "d path = None \<or> d path = Some (RegularFile c) \<Longrightarrow> aw_to_json w e = Some j \<Longrightarrow>
      \<exists>d'. append_entry w path e d = (Inr (), d')"
proof -
  have ok: "aw_fault w op = None" for op using assms by (simp add: no_faults_def)
  have sh: "\<exists>d'. shift_archives w path k d = (Inr (), d')" for k d
    by (induction k arbitrary: d) (auto simp: io_run ok)
  show "\<exists>d'. rotate_files w path n d = (Inr (), d')" if "d path \<noteq> None"
  proof (cases n)
    case (Suc k)
    obtain d1 where d1: "shift_archives w path k (d(rotated_path path (Suc k) := None)) = (Inr (), d1)" using sh by blast
    have "d1 path = d path" using shift_archives_any [OF d1] by simp
    with that d1 Suc show ?thesis by (auto simp: rotate_files_def io_run ok)
  qed (use that in \<open>auto simp: rotate_files_def io_run ok\<close>)
  show "\<exists>d'. acquire_lock w path d = (Inr (), d')" if "d (lock_path path) \<in> {None, Some (RegularFile x)}"
    using that by (auto simp: acquire_lock_def io_run ok)
  show "\<exists>d'. append_entry w path e d = (Inr (), d')"
    if "d path = None \<or> d path = Some (RegularFile c)" "aw_to_json w e = Some j"
    using that by (auto simp: append_entry_def io_run ok Let_def)
qed

lemma read_entries_parsed:
  "read_entries w path i ls = Inr es \<Longrightarrow> map (aw_from_json w) ls = map Some xs \<Longrightarrow>
   aw_from_json w [] = None \<Longrightarrow> xs = es"
proof (induction ls arbitrary: i es xs)
  case (Cons l ls)
  then obtain x xs' where x: "xs = x # xs'" "aw_from_json w l = Some x" "map (aw_from_json w) ls = map Some xs'"
    by (auto simp: Cons_eq_map_conv)
  then have "l \<noteq> []" using Cons.prems(3) by auto
  with Cons.prems(1) x(2) obtain ys where "read_entries w path (i + 1) ls = Inr ys" "es = x # ys" by auto
  with Cons.IH [OF this(1) x(3) Cons.prems(3)] x(1) show ?case by simp
qed simp

lemma read_all_parsed:
  "read_all_entries_unlocked w path d = Inr es \<Longrightarrow> d path = Some (RegularFile c) \<Longrightarrow>
   map (aw_from_json w) (str_lines c) = map Some xs \<Longrightarrow> aw_from_json w [] = None \<Longrightarrow> xs = es"
  by (auto simp: read_all_entries_unlocked_def path_exists_def io_run dest: read_entries_parsed)

text \<open>
  A log that a healthy system has: no call fails, the file holds a linked chain of lines within the
  limit, the lock is a regular file of its own, and the event can be rendered.
\<close>

definition healthy :: "audit_world \<Rightarrow> audit_context \<Rightarrow> audit_event \<Rightarrow> audit_dir \<Rightarrow> string \<Rightarrow> audit_entry list \<Rightarrow> bool" where
  "healthy w cx ev d path es \<longleftrightarrow>
     no_faults w \<and> log_at w d path es \<and> chain_ok (aw_digest w) es \<and>
     (\<forall>c. d path = Some (RegularFile c) \<longrightarrow> (\<forall>j \<in> set (str_lines c). int (length j) \<le> MAX_AUDIT_ENTRY_BYTES)) \<and>
     lock_path path \<noteq> path \<and> (d (lock_path path) = None \<or> (\<exists>x. d (lock_path path) = Some (RegularFile x))) \<and>
     (\<forall>p \<in> {''genesis'', chain_tip es}. aw_to_json w (entry_of w cx ev p) \<noteq> None)"

lemma rotate_if_needed_runs:
  assumes "no_faults w" "d (al_log_path l) = None \<or> d (al_log_path l) = Some (RegularFile c)"
  shows "\<exists>l' d'. rotate_if_needed w (l, d) = (Inr (), (l', d'))"
proof (cases "d (al_log_path l) = Some (RegularFile c) \<and> al_max_bytes l \<le> length c")
  case True
  obtain d' where "rotate_files w (al_log_path l) (al_max_archives l) d = (Inr (), d')"
    using no_faults_runs(1) [OF assms(1)] True by blast
  then have "rotate_if_needed w (l, d) = (Inr (), (l\<lparr>al_last_hash := ''genesis''\<rparr>, d'))"
    using True assms(1)
    by (simp add: rotate_if_needed_def no_faults_def abind_def lift_dir_def aset_hash_def amodify_def)
  then show ?thesis by blast
next
  case False
  then show ?thesis using assms by (auto simp: rotate_if_needed_def no_faults_def)
qed

lemma healthy_log_runs:
  assumes "healthy w cx ev d (al_log_path l) es"
  shows "\<exists>l' d'. log w cx ev (l, d) = (Inr (), (l', d'))"
proof -
  let ?p = "al_log_path l"
  have nf: "no_faults w" and at: "log_at w d ?p es" and ch: "chain_ok (aw_digest w) es"
    and ne: "lock_path ?p \<noteq> ?p"
    and js: "\<And>p. p \<in> {''genesis'', chain_tip es} \<Longrightarrow> aw_to_json w (entry_of w cx ev p) \<noteq> None"
    using assms by (auto simp: healthy_def)
  obtain d1 where d1: "acquire_lock w ?p d = (Inr (), d1)"
    using assms no_faults_runs(2) [OF nf, of d ?p] by (auto simp: healthy_def)
  have p1: "d1 ?p = d ?p" using acquire_lock_Inr [OF d1] ne by auto
  have reg: "\<exists>c. d ?p = None \<or> d ?p = Some (RegularFile c)"
    using at by (auto simp: log_at_def split: option.splits audit_file.splits)
  then obtain l2 d2 where rot: "rotate_if_needed w (l, d1) = (Inr (), (l2, d2))"
    using rotate_if_needed_runs [OF nf, of d1 l] p1 by metis
  note rot' = rotate_if_needed_Inr [OF rot]
  have path: "al_log_path l2 = ?p" using rot' by auto
  have p2: "d2 ?p = d ?p \<or> d2 ?p = None" using rot' p1 by auto
  obtain es0 where es0: "log_at w d2 ?p es0" "chain_ok (aw_digest w) es0" "chain_tip es0 \<in> {''genesis'', chain_tip es}"
    using p2 at ch by (auto simp: log_at_def)
  then have prev: "get_last_hash w d2 ?p = Inr (chain_tip es0)"
    using get_last_hash_ok [OF nf] p2 assms by (auto simp: healthy_def)
  obtain d3 where "append_entry w ?p (entry_of w cx ev (chain_tip es0)) d2 = (Inr (), d3)"
    using no_faults_runs(3) [OF nf, of d2 ?p] js [OF es0(3)] p2 reg by (metis option.exhaust)
  then have "log_locked w cx ev (l, d1) =
      (Inr (), (l2\<lparr>al_last_hash := aw_digest w (preimage (entry_of w cx ev (chain_tip es0)))\<rparr>, d3))"
    using rot prev path
    by (simp add: log_locked_def abind_def aread_def lift_dir_def aset_hash_def amodify_def Let_def)
  then show ?thesis
    using d1 nf
    by (auto simp: log_def releasing_def abind_def aread_def lift_dir_def alift_def aret_def no_faults_def)
qed

section \<open>Properties\<close>

text \<open>
  C7: a successful append extends a verified chain. When the log on disk was a linked chain of
  readable entries and the JSON coding reads back, then whatever hash the logger remembers, the new
  entry is linked to the last one on disk, or starts a fresh log when the old one had reached the
  size limit; the entries before it are kept, and verification that completes accepts the result.
\<close>

theorem log_extends_verified_chain:
  assumes "json_codec w" "log_at w d (al_log_path l) es" "chain_ok (aw_digest w) es"
    and "log w cx ev (l, d) = (Inr (), (l', d'))"
  shows "\<exists>es0. (es0 = es \<or> es0 = [] \<and> ((\<exists>c. d (al_log_path l) = Some (RegularFile c) \<and> al_max_bytes l \<le> length c) \<or>
      al_max_bytes l = 0)) \<and>
    log_at w d' (al_log_path l) (es0 @ [entry_of w cx ev (chain_tip es0)]) \<and>
    chain_ok (aw_digest w) (es0 @ [entry_of w cx ev (chain_tip es0)]) \<and>
    al_last_hash l' = chain_tip (es0 @ [entry_of w cx ev (chain_tip es0)]) \<and>
    (\<forall>r. verify_integrity_unlocked w (al_log_path l) d' = Inr r \<longrightarrow> is_valid r)"
proof -
  obtain es0 where es0: "es0 = es \<or> es0 = [] \<and> (\<exists>c. d (al_log_path l) = Some (RegularFile c) \<and> al_max_bytes l \<le> length c) \<or>
      es0 = [] \<and> al_max_bytes l = 0"
    "log_at w d' (al_log_path l) (es0 @ [entry_of w cx ev (chain_tip es0)])"
    "al_last_hash l' = chain_tip (es0 @ [entry_of w cx ev (chain_tip es0)])"
    using log_extends [OF assms(1,2,4)] by blast
  have ok: "chain_ok (aw_digest w) (es0 @ [entry_of w cx ev (chain_tip es0)])"
    using es0(1) assms(3) by (auto simp: linked_snoc)
  have "is_valid r" if r: "verify_integrity_unlocked w (al_log_path l) d' = Inr r" for r
  proof -
    obtain c where c: "d' (al_log_path l) = Some (RegularFile c)"
      "is_valid r \<longleftrightarrow> (\<exists>es. map (aw_from_json w) (str_lines c) = map Some es \<and> chain_ok (aw_digest w) es)"
      using verify_integrity_unlocked_Inr [OF r] by blast
    have "map (aw_from_json w) (str_lines c) = map Some (es0 @ [entry_of w cx ev (chain_tip es0)])"
      using es0(2) c(1) log_holds_lines [of w c] by (simp add: log_at_def)
    with ok show ?thesis unfolding c(2) by blast
  qed
  with es0 ok show ?thesis by blast
qed

text \<open>
  C18: tamper evidence. When the digest is never the word \<^verbatim>\<open>genesis\<close>, two logs of entries in the
  current encoding that verification accepts and that end in the same hash hold the same entries,
  unless two entries exhibit a collision of the digest.
\<close>

theorem tampering_needs_a_collision:
  assumes "verify_integrity_unlocked w path d = Inr r" "is_valid r"
    and "verify_integrity_unlocked w path' d' = Inr r'" "is_valid r'"
    and "read_all_entries_unlocked w path d = Inr es" "read_all_entries_unlocked w path' d' = Inr es'"
    and "\<forall>e \<in> set es \<union> set es'. current_entry e" "\<forall>b. aw_digest w b \<noteq> ''genesis''"
    and "\<forall>e. aw_from_json w [] \<noteq> Some e" "chain_tip es = chain_tip es'"
  shows "es = es' \<or> (\<exists>a \<in> set es. \<exists>b \<in> set es'.
    preimage a \<noteq> preimage b \<and> aw_digest w (preimage a) = aw_digest w (preimage b))"
proof -
  have es: "map (aw_from_json w) (str_lines c) = map Some x \<Longrightarrow> x = y"
    if "read_all_entries_unlocked w p a = Inr y" "a p = Some (RegularFile c)" for c x y p a
    using read_all_parsed [OF that] assms(9) by auto
  have "chain_ok (aw_digest w) es" "chain_ok (aw_digest w) es'"
    using verify_integrity_unlocked_Inr [OF assms(1)] verify_integrity_unlocked_Inr [OF assms(3)] assms(2,4)
      es [OF assms(5)] es [OF assms(6)] by auto
  then show ?thesis
    using audit_chain.same_tip_same_chain [of "verify (aw_digest w)" "aw_digest w" "''genesis''" es es']
      verify_stored assms(7,8,10) by blast
qed

text \<open>
  C32: verification accepts exactly the linked logs. When it returns, its report counts every line,
  names a first invalid entry unless the log is valid, and calls the log valid exactly when every
  line is an entry, every entry carries the hash of its fields, and each names the hash before it,
  the first naming \<^verbatim>\<open>genesis\<close>.
\<close>

theorem verification_accepts_exactly_linked_logs:
  assumes "verify_integrity w l d = (Inr r, d')"
  shows "\<exists>content. d' (al_log_path l) = Some (RegularFile content) \<and>
    ir_total_entries r = length (str_lines content) \<and> (ir_first_invalid r = None \<longleftrightarrow> is_valid r) \<and>
    (is_valid r \<longleftrightarrow> (\<exists>es. map (aw_from_json w) (str_lines content) = map Some es \<and>
      linked (\<lambda>e. ae_hash_version e \<le> 1 \<and> ae_hash e = Some (compute_hash (aw_digest w) e))
        ae_prev_hash ae_hash ''genesis'' es))"
proof -
  have "verify_integrity_unlocked w (al_log_path l) d' = Inr r"
    using assms by (auto simp: verify_integrity_def with_audit_read_lock_def releasing_def io_run)
  moreover have "verify (aw_digest w) = (\<lambda>e. ae_hash_version e \<le> 1 \<and> ae_hash e = Some (compute_hash (aw_digest w) e))"
    by (auto simp: verify_def HASH_VERSION_LENGTH_PREFIXED_def fun_eq_iff split: option.splits)
  ultimately show ?thesis using verify_integrity_unlocked_Inr [of w "al_log_path l" d' r] by simp
qed

text \<open>
  Rotation loses only the oldest archive. Below the limit nothing moves; at the limit the log
  becomes archive 1, archive \<open>i\<close> becomes archive \<open>i + 1\<close>, no other file changes, and the log is gone.
\<close>

theorem rotation_shifts_archives:
  assumes "rotate_if_needed w (l, d) = (Inr (), (l', d'))" "d (al_log_path l) = Some (RegularFile c)"
  shows "(length c < al_max_bytes l \<longrightarrow> d' = d) \<and>
    (al_max_bytes l \<le> length c \<longrightarrow> d' (al_log_path l) = None \<and>
      (0 < al_max_archives l \<longrightarrow>
        d' (rotated_path (al_log_path l) 1) = Some (RegularFile c) \<and>
        (\<forall>i. 1 \<le> i \<and> i < al_max_archives l \<longrightarrow>
          d' (rotated_path (al_log_path l) (i + 1)) = d (rotated_path (al_log_path l) i))) \<and>
      (\<forall>q. q \<noteq> al_log_path l \<and> (\<forall>i. 1 \<le> i \<and> i \<le> al_max_archives l \<longrightarrow> q \<noteq> rotated_path (al_log_path l) i) \<longrightarrow>
        d' q = d q))"
proof (cases "length c < al_max_bytes l")
  case True
  then show ?thesis using rotate_if_needed_Inr [OF assms(1)] assms(2) by auto
next
  case False
  then have rot: "rotate_files w (al_log_path l) (al_max_archives l) d = (Inr (), d')"
    using rotate_if_needed_Inr [OF assms(1)] assms(2) by auto
  show ?thesis
  proof (cases "al_max_archives l")
    case 0
    then show ?thesis using rot False by (auto simp: rotate_files_def io_run)
  next
    case (Suc n)
    have "q \<notin> rotated_path (al_log_path l) ` {1..Suc n}"
      if "\<forall>i. 1 \<le> i \<and> i \<le> Suc n \<longrightarrow> q \<noteq> rotated_path (al_log_path l) i" for q
      using that by auto
    then show ?thesis using rotate_files_Inr [of w "al_log_path l" n d "()" d'] rot False Suc assms(2) by auto
  qed
qed

text \<open>
  C22: no outcome of an append rewrites history. Whether it succeeds or fails at any call, after a
  partial write included, the bytes that were in the log are still the beginning of it, or the log
  had reached its limit and they are the whole of archive 1 (or were to be discarded, with no archives).
\<close>

theorem log_never_rewrites_history:
  assumes "d (al_log_path l) = Some (RegularFile c)" "log w cx ev (l, d) = (r, (l', d'))"
  shows "(\<exists>c'. d' (al_log_path l) = Some (RegularFile c') \<and> prefix c c') \<or>
    al_max_bytes l \<le> length c \<and>
      (al_max_archives l = 0 \<or> d' (rotated_path (al_log_path l) 1) = Some (RegularFile c))"
  using log_any [OF assms(2,1)] .

text \<open>
  C23: a healthy log accepts the next event: when no system call fails, the log holds a linked chain
  of lines of at most 128 KiB, the lock file is another path, a regular file or absent, and the entry
  can be rendered as JSON, the append succeeds, whether or not it rotates.
\<close>

theorem healthy_log_accepts_next_event:
  assumes "healthy w cx ev d (al_log_path l) es"
  shows "fst (log w cx ev (l, d)) = Inr ()"
  using healthy_log_runs [OF assms] by auto

section \<open>An example log\<close>

definition example_event :: audit_event where
  "example_event = \<lparr>ev_type = PackageInstall, ev_severity = SevInfo, ev_resource = ''vim'', ev_description = ''x''\<rparr>"

definition example_context :: audit_context where
  "example_context = \<lparr>cx_id = ''1'', cx_timestamp = ''t'', cx_user = None\<rparr>"

text \<open>A constant digest, and a coding of the two entries that appends reach with it.\<close>

definition example_world0 :: audit_world where
  "example_world0 =
     \<lparr>aw_digest = (\<lambda>b. ''h''), aw_to_json = (\<lambda>e. None), aw_from_json = (\<lambda>j. None), aw_utf8 = (\<lambda>j. True),
      aw_fault = (\<lambda>op. None), aw_partial = 0, aw_data_dir = ''d''\<rparr>"

definition example_first :: audit_entry where
  "example_first = entry_of example_world0 example_context example_event ''genesis''"

definition example_second :: audit_entry where
  "example_second = entry_of example_world0 example_context example_event ''h''"

definition example_world :: audit_world where
  "example_world = example_world0
     \<lparr>aw_to_json := (\<lambda>e. if e = example_first then Some ''1'' else if e = example_second then Some ''2'' else None),
      aw_from_json := (\<lambda>j. if j = ''1'' then Some example_first else if j = ''2'' then Some example_second else None)\<rparr>"

definition example_logger :: "nat \<Rightarrow> audit_logger" where
  "example_logger limit =
     \<lparr>al_log_path = ''d/a.jsonl'', al_last_hash = ''stale'', al_max_bytes = limit, al_max_archives = 2\<rparr>"

definition example_dir :: audit_dir where
  "example_dir = [''d/a.jsonl'' \<mapsto> RegularFile (''1'' @ [NL]), ''d/a.jsonl.1'' \<mapsto> RegularFile ''old'']"

lemma example_world_simps [simp]:
  "aw_digest example_world b = ''h''"
  "aw_fault example_world op = None"
  "aw_utf8 example_world j"
  "aw_from_json example_world j =
     (if j = ''1'' then Some example_first else if j = ''2'' then Some example_second else None)"
  "entry_of example_world example_context example_event ''genesis'' = example_first"
  "entry_of example_world example_context example_event ''h'' = example_second"
  by (simp_all add: example_world_def example_world0_def example_first_def example_second_def entry_of_def
      compute_hash_def)

lemma example_entry_simps [simp]:
  "ae_prev_hash example_first = ''genesis''" "ae_prev_hash example_second = ''h''"
  "ae_hash example_first = Some ''h''" "ae_hash example_second = Some ''h''"
  "verify (aw_digest example_world) example_first" "verify (aw_digest example_world) example_second"
  using entry_of_simps(2-4) [of example_world example_context example_event "''genesis''"]
    entry_of_simps(2-4) [of example_world example_context example_event "''h''"]
  by simp_all

lemma example_paths [simp]:
  "al_log_path (example_logger n) = ''d/a.jsonl''" "lock_path ''d/a.jsonl'' = ''d/a.lock''"
  "rotated_path ''d/a.jsonl'' (Suc 0) = ''d/a.jsonl.1''"
  by (simp_all add: example_logger_def, code_simp+)

lemma example_json [simp]:
  "aw_to_json example_world example_first = Some ''1''" "aw_to_json example_world example_second = Some ''2''"
proof -
  have "ae_prev_hash example_first \<noteq> ae_prev_hash example_second" by simp
  then have "example_first \<noteq> example_second" by metis
  then show "aw_to_json example_world example_first = Some ''1''" "aw_to_json example_world example_second = Some ''2''"
    by (auto simp: example_world_def)
qed

lemma example_codec: "json_codec example_world"
  by (auto simp: json_codec_def plain_line_def example_world_def example_world0_def split: if_splits)

lemma example_log_at: "log_at example_world example_dir ''d/a.jsonl'' [example_first]"
proof -
  have "ensure_trailing_newline (''1'' @ [NL]) = unlines [''1'']" by (simp add: ensure_trailing_newline_def)
  then have "log_holds example_world (''1'' @ [NL]) [example_first]"
    unfolding log_holds_def by (intro exI [of _ "[''1'']"]) (simp add: plain_line_def)
  then show ?thesis by (simp add: log_at_def example_dir_def)
qed

lemma example_healthy:
  "healthy example_world example_context example_event example_dir (al_log_path (example_logger n)) [example_first]"
proof -
  have "str_lines (''1'' @ [NL]) = [''1'']" by code_simp
  then show ?thesis
    using example_log_at
    by (simp add: healthy_def no_faults_def MAX_AUDIT_ENTRY_BYTES_def) (simp add: example_dir_def)
qed

abbreviation example_log :: "nat \<Rightarrow> (audit_error, unit) result \<times> audit_logger \<times> audit_dir" where
  "example_log n \<equiv> log example_world example_context example_event (example_logger n, example_dir)"

lemma example_log_runs: "example_log n = (Inr (), (fst (snd (example_log n)), snd (snd (example_log n))))"
  using healthy_log_runs [OF example_healthy [of n]] by auto

theorem log_extends_verified_chain_witness:
  "\<exists>es0. (es0 = [example_first] \<or> es0 = []) \<and>
    log_at example_world (snd (snd (example_log 100))) ''d/a.jsonl''
      (es0 @ [entry_of example_world example_context example_event (chain_tip es0)]) \<and>
    al_last_hash (fst (snd (example_log 100))) = ''h''"
proof -
  have "chain_ok (aw_digest example_world) [example_first]" by simp
  from log_extends_verified_chain [OF example_codec _ this example_log_runs [of 100]] example_log_at
  show ?thesis by (fastforce simp: tip_snoc)
qed

theorem log_never_rewrites_history_witness:
  "\<exists>c'. (snd (snd (example_log 100))) ''d/a.jsonl'' = Some (RegularFile c') \<and> prefix (''1'' @ [NL]) c'"
proof -
  have "example_dir (al_log_path (example_logger 100)) = Some (RegularFile (''1'' @ [NL]))"
    by (simp add: example_dir_def)
  from log_never_rewrites_history [OF this example_log_runs [of 100]] show ?thesis
    by (simp add: example_logger_def)
qed

theorem healthy_log_accepts_next_event_witness:
  "healthy example_world example_context example_event example_dir (al_log_path (example_logger 1)) [example_first] \<and>
   fst (example_log 1) = Inr ()"
  using healthy_log_accepts_next_event [OF example_healthy [of 1]] example_healthy [of 1] by simp

theorem rotation_shifts_archives_witness:
  "\<exists>l' d'. rotate_if_needed example_world (example_logger 1, example_dir) = (Inr (), (l', d')) \<and>
     d' ''d/a.jsonl'' = None \<and> d' ''d/a.jsonl.1'' = Some (RegularFile (''1'' @ [NL])) \<and>
     d' (rotated_path ''d/a.jsonl'' 2) = Some (RegularFile ''old'')"
proof -
  have c: "example_dir (al_log_path (example_logger 1)) = Some (RegularFile (''1'' @ [NL]))"
    by (simp add: example_dir_def)
  obtain l' d' where run: "rotate_if_needed example_world (example_logger 1, example_dir) = (Inr (), (l', d'))"
    using rotate_if_needed_runs [of example_world example_dir "example_logger 1"] c by (auto simp: no_faults_def)
  have arch: "al_max_archives (example_logger 1) = 2" "al_max_bytes (example_logger 1) = 1"
    by (simp_all add: example_logger_def)
  have "d' ''d/a.jsonl'' = None" "d' ''d/a.jsonl.1'' = Some (RegularFile (''1'' @ [NL]))"
    using rotation_shifts_archives [OF run c] arch by simp_all
  moreover have "d' (rotated_path ''d/a.jsonl'' (1 + 1)) = example_dir (rotated_path ''d/a.jsonl'' 1)"
    using rotation_shifts_archives [OF run c] arch by simp
  ultimately show ?thesis using run by (intro exI [of _ l'] exI [of _ d']) (simp add: example_dir_def numeral_2_eq_2)
qed

theorem verification_accepts_exactly_linked_logs_witness:
  "\<exists>r d'. verify_integrity example_world (example_logger 1) example_dir = (Inr r, d') \<and>
     ir_total_entries r = 1 \<and> (ir_first_invalid r = None \<longleftrightarrow> is_valid r)"
proof -
  have lines: "str_lines (''1'' @ [NL]) = [''1'']" by code_simp
  obtain r d' where run: "verify_integrity example_world (example_logger 1) example_dir = (Inr r, d')"
    and d': "d' ''d/a.jsonl'' = Some (RegularFile (''1'' @ [NL]))"
    using lines
    by (auto simp: verify_integrity_def with_audit_read_lock_def acquire_lock_def open_create_def releasing_def
        abind_def alift_def aread_def aret_def verify_integrity_unlocked_def open_read_file_def
        example_dir_def)
  from verification_accepts_exactly_linked_logs [OF run] run d' lines show ?thesis by auto
qed

lemma example_reads:
  assumes "d path = Some (RegularFile c)" "str_lines c = [''1'']"
  shows "\<exists>r. verify_integrity_unlocked example_world path d = Inr r \<and> is_valid r"
    "read_all_entries_unlocked example_world path d = Inr [example_first]"
  using assms
  by (auto simp: verify_integrity_unlocked_def open_read_file_def verify_line_def verify_start_def
      Let_def is_valid_def read_all_entries_unlocked_def path_exists_def)

text \<open>The same log, and its copy at another path without the last line feed.\<close>

theorem tampering_needs_a_collision_witness:
  "\<exists>r r' es es'. verify_integrity_unlocked example_world ''d/a.jsonl'' example_dir = Inr r \<and> is_valid r \<and>
     verify_integrity_unlocked example_world ''copy'' [''copy'' \<mapsto> RegularFile ''1''] = Inr r' \<and> is_valid r' \<and>
     read_all_entries_unlocked example_world ''d/a.jsonl'' example_dir = Inr es \<and>
     read_all_entries_unlocked example_world ''copy'' [''copy'' \<mapsto> RegularFile ''1''] = Inr es' \<and>
     (es = es' \<or> (\<exists>a \<in> set es. \<exists>b \<in> set es'. preimage a \<noteq> preimage b))"
proof -
  have lines: "str_lines (''1'' @ [NL]) = [''1'']" "str_lines ''1'' = [''1'']" by code_simp+
  have a: "example_dir ''d/a.jsonl'' = Some (RegularFile (''1'' @ [NL]))" by (simp add: example_dir_def)
  have b: "[''copy'' \<mapsto> RegularFile ''1''] ''copy'' = Some (RegularFile ''1'')" by simp
  obtain r r' where r: "verify_integrity_unlocked example_world ''d/a.jsonl'' example_dir = Inr r" "is_valid r"
    and r': "verify_integrity_unlocked example_world ''copy'' [''copy'' \<mapsto> RegularFile ''1''] = Inr r'" "is_valid r'"
    using example_reads(1) [where d = example_dir, OF a lines(1)] example_reads(1) [where d = "[''copy'' \<mapsto> RegularFile ''1'']", OF b lines(2)] by blast
  note es = example_reads(2) [where d = example_dir, OF a lines(1)] and es' = example_reads(2) [where d = "[''copy'' \<mapsto> RegularFile ''1'']", OF b lines(2)]
  have "current_entry example_first" unfolding example_first_def by code_simp
  with tampering_needs_a_collision [OF r r' es es'] r r' es es' show ?thesis by fastforce
qed

end
