(* ===== verification/Audit_Recovery.thy ===== *)
theory Audit_Recovery
  imports Audit_Log
begin

text \<open>
  Recovery of a corrupt audit log, the marker of an incomplete collection, the process-wide logger,
  and the bounded queue of the daemon, \<^verbatim>\<open>core/security/audit.rs\<close>.

  The process-wide state is a record: the logger and the marker behind their locks, whether the
  logger's mutex is poisoned, the queue and whether its writer is alive, and the directory. Console
  output has no part in it.
\<close>

section \<open>The marker of an incomplete collection\<close>

definition path_parent :: "string \<Rightarrow> string option" where
  "path_parent path = (if path = [] \<or> path = ''/'' then None else Some (fst (split_dir path)))"

definition marker_text :: string where
  "marker_text = ''Audit events were lost; this collection is incomplete.'' @ [NL]"

definition mark_audit_incomplete_at :: "audit_world \<Rightarrow> string \<Rightarrow> (audit_io, audit_dir, unit) io" where
  "mark_audit_incomplete_at w path =
     abind (case path_parent path of
         None \<Rightarrow> aret ()
       | Some parent \<Rightarrow> (case aw_fault w (OpCreateDir parent) of None \<Rightarrow> aret () | Some m \<Rightarrow> araise (AioFault m))) (\<lambda>_.
     case aw_fault w (OpOpen path) of
       Some m \<Rightarrow> araise (AioFault m)
     | None \<Rightarrow> (\<lambda>d.
         case d path of
           Some f \<Rightarrow> (Inr (), d)
         | None \<Rightarrow> (case aw_fault w (OpWrite path) of
               Some m \<Rightarrow> (Inl (AioFault m), d(path \<mapsto> RegularFile (take (aw_partial w) marker_text)))
             | None \<Rightarrow> (case aw_fault w (OpSync path) of
                 Some m \<Rightarrow> (Inl (AioFault m), d(path \<mapsto> RegularFile marker_text))
               | None \<Rightarrow> (Inr (), d(path \<mapsto> RegularFile marker_text))))))"

definition mark_audit_incomplete_at_or_log :: "audit_world \<Rightarrow> string \<Rightarrow> audit_dir \<Rightarrow> audit_dir" where
  "mark_audit_incomplete_at_or_log w path d = snd (mark_audit_incomplete_at w path d)"

datatype completeness = Complete | Incomplete | CannotTell audit_io

definition ensure_complete_collection :: "audit_world \<Rightarrow> audit_dir \<Rightarrow> string \<Rightarrow> completeness" where
  "ensure_complete_collection w d marker =
     (case aw_fault w (OpStat marker) of
        Some m \<Rightarrow> CannotTell (AioFault m)
      | None \<Rightarrow> (case d marker of None \<Rightarrow> Complete | Some _ \<Rightarrow> Incomplete))"

section \<open>Recovery\<close>

definition DEFAULT_MAX_AUDIT_BYTES :: nat where "DEFAULT_MAX_AUDIT_BYTES = 16 * 1024 * 1024"
definition DEFAULT_AUDIT_ARCHIVES :: nat where "DEFAULT_AUDIT_ARCHIVES = 5"

definition new_in_with_limits_unlocked ::
  "audit_world \<Rightarrow> string \<Rightarrow> nat \<Rightarrow> nat \<Rightarrow> audit_dir \<Rightarrow> (audit_error, audit_logger) result" where
  "new_in_with_limits_unlocked w log_path max_bytes max_archives d =
     rbind (get_last_hash w d log_path) (\<lambda>last_hash.
     Inr \<lparr>al_log_path = log_path, al_last_hash = last_hash, al_max_bytes = max_bytes, al_max_archives = max_archives\<rparr>)"

definition new_in_with_limits :: "audit_world \<Rightarrow> string \<Rightarrow> nat \<Rightarrow> nat \<Rightarrow> audit_logger on_dir" where
  "new_in_with_limits w log_path max_bytes max_archives =
     with_audit_read_lock w log_path (aread (new_in_with_limits_unlocked w log_path max_bytes max_archives))"

definition create_log_dir :: "audit_world \<Rightarrow> string \<Rightarrow> (audit_error, string) result" where
  "create_log_dir w log_path =
     (case path_parent log_path of
        None \<Rightarrow> Inl (AuditCreateDir log_path AioInvalidInput)
      | Some parent \<Rightarrow> rbind (io_call w (OpCreateDir parent) (AuditCreateDir parent)) (\<lambda>_. Inr parent))"

definition new_in :: "audit_world \<Rightarrow> string \<Rightarrow> audit_logger on_dir" where
  "new_in w log_path =
     abind (alift (create_log_dir w log_path)) (\<lambda>_.
     new_in_with_limits w log_path DEFAULT_MAX_AUDIT_BYTES DEFAULT_AUDIT_ARCHIVES)"

definition quarantine_base :: "string \<Rightarrow> string \<Rightarrow> string" where
  "quarantine_base path stamp = path @ ''.corrupt-'' @ stamp"

text \<open>The counter is a \<^verbatim>\<open>u32\<close>; with all of its names taken the search does not end.\<close>

partial_function (option) quarantine_search :: "audit_dir \<Rightarrow> string \<Rightarrow> string \<Rightarrow> 32 word \<Rightarrow> string option" where
  "quarantine_search d base quarantined counter =
     (if path_exists d quarantined
      then quarantine_search d base (base @ ''-'' @ show_nat (unat counter)) (counter + 1)
      else Some quarantined)"

definition quarantine_corrupt_audit_log :: "audit_world \<Rightarrow> string \<Rightarrow> string \<Rightarrow> string on_dir" where
  "quarantine_corrupt_audit_log w stamp path = (\<lambda>d.
     case path_parent path of
       None \<Rightarrow> (Inl (AuditCreateDir path AioInvalidInput), d)
     | Some parent \<Rightarrow> (case quarantine_search d (quarantine_base path stamp) (quarantine_base path stamp) 1 of
         None \<Rightarrow> (Inl AuditNeverReturns, d)
       | Some quarantined \<Rightarrow>
           abind (rename_file w path quarantined quarantined) (\<lambda>_. aret quarantined) d))"

definition sync_audit_directory :: "audit_world \<Rightarrow> string \<Rightarrow> (audit_error, unit) result" where
  "sync_audit_directory w path = io_call w (OpSync path) (AuditWrite path)"

definition map_io_error :: "('e \<Rightarrow> 'f) \<Rightarrow> ('e, 's, 'a) io \<Rightarrow> ('f, 's, 'a) io" where
  "map_io_error f m = (\<lambda>s. case m s of (Inl e, s') \<Rightarrow> (Inl (f e), s') | (Inr a, s') \<Rightarrow> (Inr a, s'))"

definition quarantine_and_restart :: "audit_world \<Rightarrow> string \<Rightarrow> string \<Rightarrow> string \<Rightarrow> audit_logger on_dir" where
  "quarantine_and_restart w stamp log_path parent =
     (let marker = incomplete_marker log_path in
      abind (map_io_error (AuditWrite marker) (mark_audit_incomplete_at w marker)) (\<lambda>_.
      abind (alift (sync_audit_directory w parent)) (\<lambda>_.
      abind (quarantine_corrupt_audit_log w stamp log_path) (\<lambda>quarantined.
      abind (alift (sync_audit_directory w parent)) (\<lambda>_.
      aread (new_in_with_limits_unlocked w log_path DEFAULT_MAX_AUDIT_BYTES DEFAULT_AUDIT_ARCHIVES))))))"

definition diagnose :: "audit_world \<Rightarrow> string \<Rightarrow> string \<Rightarrow> string \<Rightarrow> audit_logger on_dir" where
  "diagnose w stamp log_path parent = (\<lambda>d.
     case new_in_with_limits_unlocked w log_path DEFAULT_MAX_AUDIT_BYTES DEFAULT_AUDIT_ARCHIVES d of
       Inr logger \<Rightarrow> (Inr logger, d)
     | Inl (AuditCorruptLine _ _) \<Rightarrow> quarantine_and_restart w stamp log_path parent d
     | Inl (AuditMissingHash _ _) \<Rightarrow> quarantine_and_restart w stamp log_path parent d
     | Inl error \<Rightarrow> (Inl error, d))"

definition recover_audit_logger :: "audit_world \<Rightarrow> string \<Rightarrow> string \<Rightarrow> audit_logger on_dir" where
  "recover_audit_logger w stamp log_path =
     abind (alift (create_log_dir w log_path)) (\<lambda>parent.
     abind (acquire_lock w log_path) (\<lambda>_.
     releasing w log_path (lock_path log_path) (diagnose w stamp log_path parent)))"

section \<open>The process-wide logger and its queue\<close>

datatype audit_queue_message = QueuedEvent audit_event | Drain nat

record audit_global =
  ag_logger :: "audit_logger option"
  ag_marker :: "string option"
  ag_poisoned :: bool
  ag_dir :: audit_dir
  ag_queue :: "audit_queue_message list"
  ag_writer :: bool
  ag_drained :: "nat list"

definition AUDIT_QUEUE_CAPACITY :: nat where "AUDIT_QUEUE_CAPACITY = 1024"

definition default_log_path :: "audit_world \<Rightarrow> string" where
  "default_log_path w = aw_data_dir w @ ''/audit/audit.jsonl''"

definition mark_path :: "audit_world \<Rightarrow> string \<Rightarrow> audit_global \<Rightarrow> audit_global" where
  "mark_path w path g = g\<lparr>ag_dir := mark_audit_incomplete_at_or_log w path (ag_dir g)\<rparr>"

definition current_marker :: "audit_world \<Rightarrow> audit_global \<Rightarrow> string" where
  "current_marker w g = (case ag_marker g of Some m \<Rightarrow> m | None \<Rightarrow> aw_data_dir w @ ''/audit/incomplete'')"

definition mark_audit_incomplete :: "audit_world \<Rightarrow> audit_global \<Rightarrow> audit_global" where
  "mark_audit_incomplete w g = mark_path w (current_marker w g) g"

definition init_audit_logger_in ::
  "audit_world \<Rightarrow> string \<Rightarrow> string \<Rightarrow> (audit_error, audit_global, unit) io" where
  "init_audit_logger_in w stamp log_path = (\<lambda>g.
     case recover_audit_logger w stamp log_path (ag_dir g) of
       (Inl e, d) \<Rightarrow> (Inl e, g\<lparr>ag_dir := d\<rparr>)
     | (Inr logger, d) \<Rightarrow>
         if ag_poisoned g then (Inl AuditLoggerPoisoned, g\<lparr>ag_dir := d\<rparr>)
         else (Inr (), g\<lparr>ag_dir := d, ag_logger := Some logger, ag_marker := Some (incomplete_marker (al_log_path logger))\<rparr>))"

definition log_or_mark :: "audit_world \<Rightarrow> audit_context \<Rightarrow> audit_event \<Rightarrow> audit_logger \<Rightarrow> audit_global \<Rightarrow> audit_global" where
  "log_or_mark w cx ev logger g =
     (case log w cx ev (logger, ag_dir g) of
        (Inr _, (l, d)) \<Rightarrow> g\<lparr>ag_logger := Some l, ag_dir := d\<rparr>
      | (Inl _, (l, d)) \<Rightarrow> mark_path w (incomplete_marker (al_log_path l)) (g\<lparr>ag_logger := Some l, ag_dir := d\<rparr>))"

definition record_global :: "audit_world \<Rightarrow> string \<Rightarrow> audit_context \<Rightarrow> audit_event \<Rightarrow> audit_global \<Rightarrow> audit_global" where
  "record_global w stamp cx ev g =
     (if ag_poisoned g then mark_audit_incomplete w g
      else (case ag_logger g of
          Some logger \<Rightarrow> log_or_mark w cx ev logger g
        | None \<Rightarrow> (case recover_audit_logger w stamp (default_log_path w) (ag_dir g) of
              (Inr logger, d) \<Rightarrow>
                log_or_mark w cx ev logger
                  (g\<lparr>ag_dir := d, ag_marker := Some (incomplete_marker (al_log_path logger)), ag_logger := Some logger\<rparr>)
            | (Inl _, d) \<Rightarrow> mark_path w (incomplete_marker (default_log_path w)) (g\<lparr>ag_dir := d\<rparr>))))"

text \<open>\<^verbatim>\<open>SyncSender::try_send\<close>: fails when the receiver is gone or the buffer is full.\<close>

definition try_send :: "audit_queue_message \<Rightarrow> audit_global \<Rightarrow> audit_global option" where
  "try_send message g =
     (if ag_writer g \<and> length (ag_queue g) < AUDIT_QUEUE_CAPACITY
      then Some (g\<lparr>ag_queue := ag_queue g @ [message]\<rparr>) else None)"

definition enqueue_audit_event :: "audit_world \<Rightarrow> audit_event \<Rightarrow> audit_global \<Rightarrow> audit_global" where
  "enqueue_audit_event w ev g =
     (case try_send (QueuedEvent (ev\<lparr>ev_resource := bounded_audit_field (ev_resource ev),
                                     ev_description := bounded_audit_field (ev_description ev)\<rparr>)) g of
        Some g' \<Rightarrow> g'
      | None \<Rightarrow> mark_audit_incomplete w g)"

text \<open>One turn of the writer thread.\<close>

definition writer_step :: "audit_world \<Rightarrow> string \<Rightarrow> audit_context \<Rightarrow> audit_global \<Rightarrow> audit_global" where
  "writer_step w stamp cx g =
     (case ag_queue g of
        [] \<Rightarrow> g
      | QueuedEvent ev # rest \<Rightarrow> record_global w stamp cx ev (g\<lparr>ag_queue := rest\<rparr>)
      | Drain n # rest \<Rightarrow> g\<lparr>ag_queue := rest, ag_drained := n # ag_drained g\<rparr>)"

fun join_strings :: "string \<Rightarrow> string list \<Rightarrow> string" where
  "join_strings sep [] = []"
| "join_strings sep [s] = s"
| "join_strings sep (s # t # rest) = s @ sep @ join_strings sep (t # rest)"

definition operation_event :: "string \<Rightarrow> audit_event_type" where
  "operation_event operation =
     (let op = to_ascii_lowercase operation in
      if op \<in> {''install'', ''install_blocking''} then PackageInstall
      else if op \<in> {''remove'', ''remove_blocking''} then PackageRemove
      else if op \<in> {''update'', ''upgrade'', ''update_blocking''} then PackageUpgrade
      else if op = ''downgrade'' then PackageDowngrade
      else SecurityAudit)"

text \<open>
  The durable record of a package operation. The directory root's records go to, after the
  checks and the migration of \<^verbatim>\<open>prepare_system_audit_directory\<close>, and the invoking user are arguments.
\<close>

definition operation_log_path :: "audit_world \<Rightarrow> string option \<Rightarrow> string" where
  "operation_log_path w system_directory =
     (case system_directory of Some directory \<Rightarrow> directory @ ''/audit.jsonl'' | None \<Rightarrow> default_log_path w)"

definition record_operation ::
  "audit_world \<Rightarrow> audit_context \<Rightarrow> string option \<Rightarrow> nat \<Rightarrow> string \<Rightarrow> string list \<Rightarrow> string \<Rightarrow> unit on_dir" where
  "record_operation w cx system_directory actor operation targets outcome =
     abind (new_in w (operation_log_path w system_directory)) (\<lambda>logger. \<lambda>d.
       case log w cx
         \<lparr>ev_type = operation_event operation, ev_severity = SevInfo,
          ev_resource = bounded_audit_field (join_strings '', '' targets),
          ev_description = bounded_audit_field
            (''Package operation '' @ operation @ '': '' @ outcome @ ''; invoking uid='' @ show_nat actor)\<rparr>
         (logger, d) of (r, (l, d')) \<Rightarrow> (r, d'))"

section \<open>Names\<close>

lemma split_dir_join: "fst (split_dir path) @ snd (split_dir path) = path"
  by (auto simp: split_dir_def rsplit_once_Some split: option.splits)

lemma quarantine_not_marker: "quarantine_base path stamp @ x \<noteq> incomplete_marker path"
proof
  assume "quarantine_base path stamp @ x = incomplete_marker path"
  then have "fst (split_dir path) @ (snd (split_dir path) @ ''.corrupt-'' @ stamp @ x) =
      fst (split_dir path) @ ''incomplete''"
    using split_dir_join [of path] by (metis append.assoc incomplete_marker_def quarantine_base_def)
  then have "snd (split_dir path) @ ''.corrupt-'' @ stamp @ x = ''incomplete''" by (rule same_append_eq [THEN iffD1])
  then have "CHR ''.'' \<in> set ''incomplete''"
    by (metis Un_iff append_Cons list.set_intros(1) set_append)
  then show False by simp
qed

lemma default_marker: "incomplete_marker (default_log_path w) = aw_data_dir w @ ''/audit/incomplete''"
proof -
  have "rsplit_once CHR ''/'' (aw_data_dir w @ ''/audit/audit.jsonl'') = Some (aw_data_dir w @ ''/audit'', ''audit.jsonl'')"
    by (simp add: rsplit_once_Some)
  then show ?thesis by (simp add: incomplete_marker_def split_dir_def default_log_path_def)
qed

section \<open>The marker\<close>

definition marker_ok :: "audit_world \<Rightarrow> string \<Rightarrow> bool" where
  "marker_ok w m \<longleftrightarrow> aw_fault w (OpOpen m) = None \<and>
     (\<forall>p. path_parent m = Some p \<longrightarrow> aw_fault w (OpCreateDir p) = None)"

lemma mark_any:
  assumes "mark_audit_incomplete_at w m d = (r, d')"
  shows "(\<forall>q. q \<noteq> m \<longrightarrow> d' q = d q) \<and> (d m \<noteq> None \<longrightarrow> d' = d) \<and> (r = Inr () \<or> marker_ok w m \<longrightarrow> d' m \<noteq> None)"
  using assms
  by (auto simp: mark_audit_incomplete_at_def abind_def aret_def araise_def marker_ok_def split: option.splits)

lemma mark_path_marks: "marker_ok w m \<Longrightarrow> ag_dir (mark_path w m g) m \<noteq> None"
  using mark_any [of w m "ag_dir g"]
  by (cases "mark_audit_incomplete_at w m (ag_dir g)") (auto simp: mark_path_def mark_audit_incomplete_at_or_log_def)

lemma mark_path_simps [simp]:
  "ag_logger (mark_path w m g) = ag_logger g" "ag_marker (mark_path w m g) = ag_marker g"
  "ag_queue (mark_path w m g) = ag_queue g" "ag_poisoned (mark_path w m g) = ag_poisoned g"
  "ag_writer (mark_path w m g) = ag_writer g"
  by (simp_all add: mark_path_def)

section \<open>The search for a quarantine name\<close>

lemma quarantine_search_Some:
  assumes "quarantine_search d base q0 c = Some q" "\<exists>x. q0 = base @ x"
  shows "\<not> path_exists d q \<and> (\<exists>x. q = base @ x)"
proof -
  have "(\<exists>x. q0 = base @ x) \<longrightarrow> \<not> path_exists d q \<and> (\<exists>x. q = base @ x)"
    using assms(1)
  proof (induction rule: quarantine_search.raw_induct [rotated, consumes 1])
    case (1 search d base q0 c q)
    then show ?case by (cases "path_exists d q0") auto
  qed
  with assms(2) show ?thesis by blast
qed

lemma quarantine_search_returns:
  "\<not> path_exists d (base @ ''-'' @ show_nat (unat (c + of_nat n))) \<Longrightarrow> \<exists>q. quarantine_search d base q0 c = Some q"
proof (induction n arbitrary: c q0)
  case 0
  then show ?case
    by (subst quarantine_search.simps, subst quarantine_search.simps) simp
next
  case (Suc n)
  from Suc.IH [of "c + 1"] Suc.prems show ?case
    by (subst quarantine_search.simps) (simp add: ac_simps)
qed

lemma free_name_exists:
  assumes "finite (dom d)" "int (card (dom d)) < 2 ^ 32"
  shows "\<exists>n. \<not> path_exists d (base @ ''-'' @ show_nat (unat (1 + of_nat n :: 32 word)))"
proof (rule ccontr)
  assume "\<nexists>n. \<not> path_exists d (base @ ''-'' @ show_nat (unat (1 + of_nat n :: 32 word)))"
  then have all: "path_exists d (base @ ''-'' @ show_nat (unat (1 + of_nat n :: 32 word)))" for n by blast
  let ?f = "\<lambda>x :: 32 word. base @ ''-'' @ show_nat (unat x)"
  have "?f x \<in> dom d" for x
  proof -
    have "1 + of_nat (unat (x - 1)) = x" by simp
    with all [of "unat (x - 1)"] show ?thesis by (auto simp: path_exists_def split: option.splits)
  qed
  then have "range ?f \<subseteq> dom d" by blast
  moreover have "inj ?f" by (auto simp: inj_def intro: unsigned_word_eqI)
  ultimately have "card (UNIV :: 32 word set) \<le> card (dom d)"
    using card_image [of ?f UNIV] card_mono [OF assms(1)] by metis
  then show False using assms(2) by (simp add: card_word)
qed

section \<open>Recovery keeps the bytes\<close>

lemma quarantine_any:
  assumes "quarantine_corrupt_audit_log w stamp path d = (r, d')" "d path = Some f"
  shows "d' = d \<or> (\<exists>x. \<not> path_exists d (quarantine_base path stamp @ x) \<and>
    d' = d(path := None, quarantine_base path stamp @ x := Some f))"
proof (cases "quarantine_search d (quarantine_base path stamp) (quarantine_base path stamp) 1")
  case (Some q)
  obtain x where "\<not> path_exists d q" "q = quarantine_base path stamp @ x"
    using quarantine_search_Some [OF Some] by auto
  then show ?thesis using assms Some
    by (auto simp: quarantine_corrupt_audit_log_def rename_file_def abind_def aret_def alift_def io_call_def
        split: option.splits)
qed (use assms in \<open>auto simp: quarantine_corrupt_audit_log_def split: option.splits\<close>)

lemma map_io_error_any: "map_io_error f m s = (r, s') \<Longrightarrow> \<exists>r0. m s = (r0, s') \<and> (is_ok r \<longleftrightarrow> is_ok r0)"
  by (auto simp: map_io_error_def split: prod.splits sum.splits)

lemma quarantine_base_not_path [simp]: "quarantine_base path stamp @ x \<noteq> path" "path \<noteq> quarantine_base path stamp @ x"
  by (auto simp: quarantine_base_def)

lemma restart_any:
  assumes "quarantine_and_restart w stamp path parent d = (r, d')" "d path = Some f" "incomplete_marker path \<noteq> path"
  shows "(d' path = Some f \<and> (\<forall>p. p \<noteq> incomplete_marker path \<longrightarrow> d' p = d p)) \<or>
    (\<exists>q. q \<noteq> path \<and> q \<noteq> incomplete_marker path \<and> \<not> path_exists d q \<and> d' q = Some f \<and> d' path = None \<and>
      d' (incomplete_marker path) \<noteq> None \<and>
      (\<forall>p. p \<notin> {path, q, incomplete_marker path} \<longrightarrow> d' p = d p))"
proof -
  let ?m = "incomplete_marker path"
  obtain r1 d1 where m1: "map_io_error (AuditWrite ?m) (mark_audit_incomplete_at w ?m) d = (r1, d1)" by fastforce
  obtain r0 where m0: "mark_audit_incomplete_at w ?m d = (r0, d1)" "is_ok r1 \<longleftrightarrow> is_ok r0"
    using map_io_error_any [OF m1] by blast
  have d1: "d1 path = Some f" "\<forall>p. p \<noteq> ?m \<longrightarrow> d1 p = d p" "is_ok r1 \<longrightarrow> d1 ?m \<noteq> None"
    using mark_any [OF m0(1)] m0(2) assms(2,3) by (auto simp: is_ok_iff)
  have "d' = d1 \<or> is_ok r1 \<and> (\<exists>r2. quarantine_corrupt_audit_log w stamp path d1 = (r2, d'))"
    using assms(1) m1 by (auto simp: quarantine_and_restart_def Let_def alift_def aread_def elim!: abind_cases)
  then consider "d' = d1" | x where "is_ok r1" "\<not> path_exists d1 (quarantine_base path stamp @ x)"
      "d' = d1(path := None, quarantine_base path stamp @ x := Some f)"
    using quarantine_any [of w stamp path d1 _ d', OF _ d1(1)] by blast
  then show ?thesis
  proof cases
    case 1
    then show ?thesis using d1 by auto
  next
    case (2 x)
    let ?q = "quarantine_base path stamp @ x"
    have "?q \<noteq> ?m" by (rule quarantine_not_marker)
    moreover have "\<not> path_exists d ?q"
      using 2(2) d1(2) quarantine_not_marker [of path stamp x] by (auto simp: path_exists_def)
    ultimately show ?thesis using 2 d1 assms(3) by (intro disjI2 exI [of _ ?q]) auto
  qed
qed

lemma diagnose_any:
  assumes "diagnose w stamp path parent d = (r, d')"
  shows "d' = d \<or> (\<exists>r2. quarantine_and_restart w stamp path parent d = (r2, d'))"
  using assms by (auto simp: diagnose_def split: sum.splits audit_error.splits)

lemma recover_any:
  assumes "recover_audit_logger w stamp path d = (r, d')" "d path = Some f" "incomplete_marker path \<noteq> path"
  shows "(d' path = Some f \<and> (\<forall>p. p \<notin> {lock_path path, incomplete_marker path} \<longrightarrow> d' p = d p)) \<or>
    (\<exists>q. q \<noteq> path \<and> \<not> path_exists d q \<and> d' q = Some f \<and> d' path = None \<and>
      d' (incomplete_marker path) \<noteq> None \<and>
      (\<forall>p. p \<notin> {path, q, lock_path path, incomplete_marker path} \<longrightarrow> d' p = d p))"
proof -
  obtain r1 d1 where lock: "acquire_lock w path d = (r1, d1)" by fastforce
  have d1: "d1 path = Some f" using acquire_lock_any [OF lock, of path] assms(2) by auto
  have other: "d1 p = d p" if "p \<noteq> lock_path path" for p
    using lock that by (auto simp: acquire_lock_def alift_def elim!: abind_cases dest!: open_create_any)
  have mono: "path_exists d q \<Longrightarrow> path_exists d1 q" for q
    using acquire_lock_any [OF lock, of q] by (cases "d q") (auto simp: path_exists_def domIff)
  have "d' = d \<or> d' = d1 \<or> (\<exists>parent r2. releasing w path (lock_path path) (diagnose w stamp path parent) d1 = (r2, d'))"
    using assms(1) lock by (auto simp: recover_audit_logger_def alift_def elim!: abind_cases)
  then have "d' = d \<or> d' = d1 \<or> (\<exists>parent r2. quarantine_and_restart w stamp path parent d1 = (r2, d'))"
    using releasing_any [of w path "lock_path path" _ d1 _ d'] diagnose_any [of w stamp path _ d1 _ d'] by blast
  then consider "d' = d" | "d' = d1" | parent r2 where "quarantine_and_restart w stamp path parent d1 = (r2, d')"
    by blast
  then show ?thesis
  proof cases
    case 3
    from restart_any [OF this d1 assms(3)] show ?thesis
    proof
      assume "\<exists>q. q \<noteq> path \<and> q \<noteq> incomplete_marker path \<and> \<not> path_exists d1 q \<and> d' q = Some f \<and> d' path = None \<and>
        d' (incomplete_marker path) \<noteq> None \<and> (\<forall>p. p \<notin> {path, q, incomplete_marker path} \<longrightarrow> d' p = d1 p)"
      then show ?thesis using other mono by (metis insert_iff)
    qed (use other in auto)
  qed (use assms(2) d1 other in auto)
qed

lemma new_unlocked_path: "new_in_with_limits_unlocked w path b n d = Inr l \<Longrightarrow> al_log_path l = path"
  by (auto simp: new_in_with_limits_unlocked_def)

lemma restart_path: "quarantine_and_restart w stamp path parent d = (Inr l, d') \<Longrightarrow> al_log_path l = path"
  unfolding quarantine_and_restart_def Let_def abind_Inr aread_Inr by (blast dest: new_unlocked_path)

lemma diagnose_path: "diagnose w stamp path parent d = (Inr l, d') \<Longrightarrow> al_log_path l = path"
  by (auto simp: diagnose_def split: sum.splits audit_error.splits dest: new_unlocked_path restart_path)

lemma recover_path: "recover_audit_logger w stamp path d = (Inr l, d') \<Longrightarrow> al_log_path l = path"
  unfolding recover_audit_logger_def releasing_def abind_Inr aret_Inr alift_Inr by (blast dest: diagnose_path)

section \<open>Nothing is lost silently\<close>

definition collection_path :: "audit_world \<Rightarrow> audit_global \<Rightarrow> string" where
  "collection_path w g = (case ag_logger g of Some l \<Rightarrow> al_log_path l | None \<Rightarrow> default_log_path w)"

text \<open>The marker the process remembers is the one of the logger it uses.\<close>

definition global_ok :: "audit_global \<Rightarrow> bool" where
  "global_ok g \<longleftrightarrow> ag_marker g = map_option (\<lambda>l. incomplete_marker (al_log_path l)) (ag_logger g)"

definition ends_with_entry :: "audit_world \<Rightarrow> audit_context \<Rightarrow> audit_event \<Rightarrow> audit_dir \<Rightarrow> string \<Rightarrow> bool" where
  "ends_with_entry w cx ev d path \<longleftrightarrow>
     (\<exists>prev j c. aw_to_json w (entry_of w cx ev prev) = Some j \<and> d path = Some (RegularFile (c @ j @ [NL])))"

lemma global_ok_marker: "global_ok g \<Longrightarrow> current_marker w g = incomplete_marker (collection_path w g)"
  by (auto simp: global_ok_def current_marker_def collection_path_def default_marker split: option.splits)

lemma log_logger_path:
  assumes "log w cx ev (l, d) = (r, (l', d'))"
  shows "al_log_path l' = al_log_path l"
proof -
  have rot: "al_log_path l2 = al_log_path l" if "rotate_if_needed w (l, d1) = (r1, (l2, d2))" for d1 r1 l2 d2
    using that
    by (auto simp: rotate_if_needed_def Let_def lift_dir_def aset_hash_def amodify_def
        split: sum.splits option.splits audit_file.splits if_splits prod.splits elim!: abind_cases)
  have lk: "al_log_path l2 = al_log_path l" if "log_locked w cx ev (l, d1) = (r1, (l2, d2))" for d1 r1 l2 d2
    using that
    by (auto simp: log_locked_def Let_def aread_def aset_hash_def amodify_def lift_dir_def
        elim!: abind_cases split: prod.splits dest: rot)
  have "l' = l \<or> (\<exists>d1 r2. releasing w (al_log_path l) (al_log_path l) (log_locked w cx ev) (l, d1) = (r2, (l', d')))"
    using assms by (auto simp: log_def aread_def lift_dir_def elim!: abind_cases split: prod.splits)
  then show ?thesis
  proof
    assume "\<exists>d1 r2. releasing w (al_log_path l) (al_log_path l) (log_locked w cx ev) (l, d1) = (r2, (l', d'))"
    then obtain d1 r2 where "releasing w (al_log_path l) (al_log_path l) (log_locked w cx ev) (l, d1) = (r2, (l', d'))"
      by blast
    from releasing_any [OF this] obtain r0 where "log_locked w cx ev (l, d1) = (r0, (l', d'))" ..
    then show ?thesis by (rule lk)
  qed simp
qed

lemma log_or_mark_spec:
  assumes "marker_ok w (incomplete_marker (al_log_path l))" "ag_marker g = Some (incomplete_marker (al_log_path l))"
  shows "global_ok (log_or_mark w cx ev l g) \<and> collection_path w (log_or_mark w cx ev l g) = al_log_path l \<and>
    (ends_with_entry w cx ev (ag_dir (log_or_mark w cx ev l g)) (al_log_path l) \<or>
     ag_dir (log_or_mark w cx ev l g) (incomplete_marker (al_log_path l)) \<noteq> None)"
proof -
  obtain r l' d' where run: "log w cx ev (l, ag_dir g) = (r, (l', d'))" by (metis prod_cases3)
  note path = log_logger_path [OF run]
  show ?thesis
  proof (cases r)
    case (Inl e)
    then show ?thesis
      using run path assms mark_path_marks [OF assms(1)]
      by (simp add: log_or_mark_def global_ok_def collection_path_def)
  next
    case (Inr u)
    obtain d2 prev where "append_entry w (al_log_path l) (entry_of w cx ev prev) d2 = (Inr (), d')"
      using log_Inr [of w cx ev l "ag_dir g" u l' d'] run Inr by metis
    from append_entry_Inr [OF this] have "ends_with_entry w cx ev d' (al_log_path l)"
      by (fastforce simp: ends_with_entry_def)
    then show ?thesis using run path assms Inr by (simp add: log_or_mark_def global_ok_def collection_path_def)
  qed
qed

section \<open>Properties\<close>

text \<open>
  C26: recovery never loses bytes, when the marker has another path than the log. Whatever fails, the
  log file is afterwards either where it was, unchanged, or complete under a new name that no existing
  file had, and then the collection is marked incomplete; apart from those names, the lock and the marker, nothing changes.
\<close>

theorem recovery_never_loses_bytes:
  assumes "recover_audit_logger w stamp path d = (r, d')" "d path = Some f" "incomplete_marker path \<noteq> path"
  shows "(d' path = Some f \<and> (\<forall>p. p \<notin> {lock_path path, incomplete_marker path} \<longrightarrow> d' p = d p)) \<or>
    (\<exists>q. q \<noteq> path \<and> \<not> path_exists d q \<and> d' q = Some f \<and> d' path = None \<and>
      d' (incomplete_marker path) \<noteq> None \<and>
      (\<forall>p. p \<notin> {path, q, lock_path path, incomplete_marker path} \<longrightarrow> d' p = d p))"
  using recover_any [OF assms] .

text \<open>
  No event is lost silently. When the writer handles an event and the marker can be created,
  then afterwards the event is the last entry of the collection's log, or the collection is marked
  incomplete, so the completeness check does not pass; the remembered marker stays the right one.
\<close>

theorem no_event_is_lost_silently:
  assumes "global_ok g" "marker_ok w (incomplete_marker (collection_path w g))"
  shows "global_ok (record_global w stamp cx ev g) \<and>
    collection_path w (record_global w stamp cx ev g) = collection_path w g \<and>
    (ends_with_entry w cx ev (ag_dir (record_global w stamp cx ev g)) (collection_path w g) \<or>
     ensure_complete_collection w (ag_dir (record_global w stamp cx ev g)) (incomplete_marker (collection_path w g)) \<noteq> Complete)"
proof -
  let ?p = "collection_path w g" and ?m = "incomplete_marker (collection_path w g)"
  have ens: "d ?m \<noteq> None \<Longrightarrow> ensure_complete_collection w d ?m \<noteq> Complete" for d
    by (auto simp: ensure_complete_collection_def split: option.splits)
  consider "ag_poisoned g" | l where "\<not> ag_poisoned g" "ag_logger g = Some l"
    | l d where "\<not> ag_poisoned g" "ag_logger g = None"
        "recover_audit_logger w stamp (default_log_path w) (ag_dir g) = (Inr l, d)"
    | e d where "\<not> ag_poisoned g" "ag_logger g = None"
        "recover_audit_logger w stamp (default_log_path w) (ag_dir g) = (Inl e, d)"
    by (metis old.sum.exhaust option.exhaust surj_pair)
  then show ?thesis
  proof cases
    case 1
    then show ?thesis using assms ens mark_path_marks [OF assms(2)]
      by (simp add: record_global_def mark_audit_incomplete_def global_ok_marker global_ok_def collection_path_def)
  next
    case (2 l)
    have eq: "record_global w stamp cx ev g = log_or_mark w cx ev l g" and p: "?p = al_log_path l"
      using 2 by (simp_all add: record_global_def collection_path_def)
    have "ag_marker g = Some (incomplete_marker (al_log_path l))" using 2 assms(1) by (simp add: global_ok_def)
    from log_or_mark_spec [OF _ this, of w cx ev] assms(2) ens show ?thesis unfolding eq p by blast
  next
    case (3 l d)
    let ?g = "g\<lparr>ag_dir := d, ag_marker := Some (incomplete_marker (al_log_path l)), ag_logger := Some l\<rparr>"
    have eq: "record_global w stamp cx ev g = log_or_mark w cx ev l ?g" and p: "?p = al_log_path l"
      using 3 recover_path [OF 3(3)] by (simp_all add: record_global_def collection_path_def)
    have "ag_marker ?g = Some (incomplete_marker (al_log_path l))" by simp
    from log_or_mark_spec [OF _ this, of w cx ev] assms(2) ens show ?thesis unfolding eq p by blast
  next
    case (4 e d)
    have p: "?p = default_log_path w" using 4 by (simp add: collection_path_def)
    have eq: "record_global w stamp cx ev g = mark_path w ?m (g\<lparr>ag_dir := d\<rparr>)"
      using 4 p by (simp add: record_global_def)
    have "global_ok (mark_path w ?m (g\<lparr>ag_dir := d\<rparr>))" "collection_path w (mark_path w ?m (g\<lparr>ag_dir := d\<rparr>)) = ?p"
      using assms(1) by (simp_all add: global_ok_def collection_path_def)
    then show ?thesis using ens mark_path_marks [OF assms(2)] unfolding eq by blast
  qed
qed

text \<open>
  The queue is bounded and drops loudly. Submitting an event never makes the queue longer than
  1024 messages; the event, its fields bounded, is the last message of the queue, or, when the marker
  can be created, the collection is marked incomplete.
\<close>

theorem queue_is_bounded_and_drops_loudly:
  assumes "length (ag_queue g) \<le> AUDIT_QUEUE_CAPACITY"
  shows "length (ag_queue (enqueue_audit_event w ev g)) \<le> AUDIT_QUEUE_CAPACITY \<and>
    ((\<exists>ev'. ag_queue (enqueue_audit_event w ev g) = ag_queue g @ [QueuedEvent ev'] \<and>
        ev_type ev' = ev_type ev \<and> str_len (ev_resource ev') \<le> 4096 \<and> str_len (ev_description ev') \<le> 4096 \<and>
        prefix (ev_resource ev') (ev_resource ev) \<and> prefix (ev_description ev') (ev_description ev)) \<or>
     ag_queue (enqueue_audit_event w ev g) = ag_queue g \<and>
     (marker_ok w (current_marker w g) \<longrightarrow>
       ensure_complete_collection w (ag_dir (enqueue_audit_event w ev g)) (current_marker w g) \<noteq> Complete))"
proof (cases "ag_writer g \<and> length (ag_queue g) < AUDIT_QUEUE_CAPACITY")
  case True
  then show ?thesis
    using bounded_field_bound bounded_field_prefix by (simp add: enqueue_audit_event_def try_send_def)
next
  case False
  then have "enqueue_audit_event w ev g = mark_path w (current_marker w g) g"
    by (auto simp: enqueue_audit_event_def try_send_def mark_audit_incomplete_def)
  then show ?thesis using assms mark_path_marks [of w "current_marker w g" g]
    by (auto simp: ensure_complete_collection_def split: option.splits)
qed

text \<open>
  The search for a quarantine name returns, with a name that is free, in every directory of
  fewer than \<open>2 ^ 32\<close> files, the number of values of its counter.
\<close>

theorem quarantine_search_terminates:
  assumes "finite (dom d)" "int (card (dom d)) < 2 ^ 32"
  shows "\<exists>q. quarantine_search d (quarantine_base path stamp) (quarantine_base path stamp) 1 = Some q \<and>
    \<not> path_exists d q \<and> prefix (path @ ''.corrupt-'') q"
proof -
  obtain q where q: "quarantine_search d (quarantine_base path stamp) (quarantine_base path stamp) 1 = Some q"
    using quarantine_search_returns free_name_exists [OF assms] by metis
  from quarantine_search_Some [OF this] obtain x where "\<not> path_exists d q" "q = quarantine_base path stamp @ x" by auto
  with q show ?thesis by (auto simp: quarantine_base_def prefix_def)
qed

section \<open>Examples\<close>

definition corrupt_dir :: audit_dir where
  "corrupt_dir = [''d/a.jsonl'' \<mapsto> RegularFile ''x'']"

lemma example_marker: "incomplete_marker ''d/a.jsonl'' = ''d/incomplete''"
  by code_simp

lemma example_recovery:
  "recover_audit_logger example_world ''s'' ''d/a.jsonl'' corrupt_dir =
     (Inr \<lparr>al_log_path = ''d/a.jsonl'', al_last_hash = ''genesis'', al_max_bytes = DEFAULT_MAX_AUDIT_BYTES,
           al_max_archives = DEFAULT_AUDIT_ARCHIVES\<rparr>,
      corrupt_dir(''d/a.lock'' \<mapsto> RegularFile [], ''d/incomplete'' \<mapsto> RegularFile marker_text,
        ''d/a.jsonl'' := None, ''d/a.jsonl.corrupt-s'' \<mapsto> RegularFile ''x''))"
proof -
  have parent: "path_parent ''d/a.jsonl'' = Some ''d/''" "path_parent ''d/incomplete'' = Some ''d/''" by code_simp+
  have base: "quarantine_base ''d/a.jsonl'' ''s'' = ''d/a.jsonl.corrupt-s''" by code_simp
  have tail: "strip_line_end (drop (nat (int (length ''x'') - (MAX_AUDIT_ENTRY_BYTES + 2))) ''x'') = ''x''"
    "nat (int (length ''x'') - (MAX_AUDIT_ENTRY_BYTES + 2)) = 0" "rsplit_once NL ''x'' = None"
    by (simp_all add: MAX_AUDIT_ENTRY_BYTES_def strip_line_end_def rsplit_once_None)
  have bad: "get_last_hash example_world d ''d/a.jsonl'' = Inl (AuditCorruptLine ''d/a.jsonl'' 1)"
    if "d ''d/a.jsonl'' = Some (RegularFile ''x'')" for d
    using that tail by (simp add: get_last_hash_def open_read_file_def last_entry_hash_def Let_def)
  have none: "get_last_hash example_world d ''d/a.jsonl'' = Inr ''genesis''" if "d ''d/a.jsonl'' = None" for d
    using that by (simp add: get_last_hash_def open_read_file_def)
  have search: "quarantine_search d b q c = Some q" if "d q = None" for d b q c
    using that by (subst quarantine_search.simps) (simp add: path_exists_def)
  show ?thesis
    by (simp add: recover_audit_logger_def create_log_dir_def parent acquire_lock_def open_create_def releasing_def
        diagnose_def new_in_with_limits_unlocked_def bad none quarantine_and_restart_def map_io_error_def
        mark_audit_incomplete_at_def sync_audit_directory_def quarantine_corrupt_audit_log_def base search
        rename_file_def abind_def alift_def aret_def aread_def corrupt_dir_def example_marker Let_def)
qed

theorem recovery_never_loses_bytes_witness:
  "\<exists>q. q \<noteq> ''d/a.jsonl'' \<and> \<not> path_exists corrupt_dir q \<and>
     snd (recover_audit_logger example_world ''s'' ''d/a.jsonl'' corrupt_dir) q = Some (RegularFile ''x'')"
proof -
  have "corrupt_dir ''d/a.jsonl'' = Some (RegularFile ''x'')" "incomplete_marker ''d/a.jsonl'' \<noteq> ''d/a.jsonl''"
    by (simp_all add: corrupt_dir_def example_marker)
  note present = this
  obtain r d' where run: "recover_audit_logger example_world ''s'' ''d/a.jsonl'' corrupt_dir = (r, d')" by fastforce
  have gone: "d' ''d/a.jsonl'' = None" using run unfolding example_recovery by (auto simp del: fun_upd_apply simp: fun_upd_def)
  from recovery_never_loses_bytes [OF run present] show ?thesis
  proof (elim disjE exE conjE)
    fix q
    assume "q \<noteq> ''d/a.jsonl''" "\<not> path_exists corrupt_dir q" "d' q = Some (RegularFile ''x'')"
    then show ?thesis unfolding run snd_conv by (intro exI [of _ q] conjI)
  qed (use gone in simp)
qed

definition example_global :: audit_global where
  "example_global =
     \<lparr>ag_logger = Some (example_logger 100), ag_marker = Some ''d/incomplete'', ag_poisoned = False,
      ag_dir = example_dir, ag_queue = [], ag_writer = True, ag_drained = []\<rparr>"

theorem no_event_is_lost_silently_witness:
  "global_ok example_global \<and> collection_path example_world example_global = ''d/a.jsonl'' \<and>
   (ends_with_entry example_world example_context example_event
      (ag_dir (record_global example_world ''s'' example_context example_event example_global)) ''d/a.jsonl'' \<or>
    ensure_complete_collection example_world
      (ag_dir (record_global example_world ''s'' example_context example_event example_global)) ''d/incomplete'' = Incomplete)"
proof -
  have ok: "global_ok example_global" by (simp add: global_ok_def example_global_def example_marker)
  have path: "collection_path example_world example_global = ''d/a.jsonl''"
    by (simp add: collection_path_def example_global_def)
  have "marker_ok example_world (incomplete_marker (collection_path example_world example_global))"
    by (simp add: marker_ok_def)
  moreover have "ensure_complete_collection example_world d m \<noteq> Complete \<longleftrightarrow>
      ensure_complete_collection example_world d m = Incomplete" for d m
    by (simp add: ensure_complete_collection_def split: option.splits)
  ultimately show ?thesis
    using no_event_is_lost_silently [OF ok, of example_world "''s''" example_context example_event] ok path
    by (simp add: example_marker)
qed

theorem queue_is_bounded_and_drops_loudly_witness:
  "length (ag_queue example_global) \<le> AUDIT_QUEUE_CAPACITY \<and>
   length (ag_queue (enqueue_audit_event example_world example_event example_global)) \<le> AUDIT_QUEUE_CAPACITY"
proof -
  have "length (ag_queue example_global) \<le> AUDIT_QUEUE_CAPACITY" by (simp add: example_global_def)
  with queue_is_bounded_and_drops_loudly [OF this] show ?thesis by blast
qed

theorem quarantine_search_terminates_witness:
  "\<exists>q. quarantine_search corrupt_dir (quarantine_base ''d/a.jsonl'' ''s'') (quarantine_base ''d/a.jsonl'' ''s'') 1 = Some q"
proof -
  have "finite (dom corrupt_dir)" "int (card (dom corrupt_dir)) < 2 ^ 32" by (simp_all add: corrupt_dir_def)
  from quarantine_search_terminates [OF this] show ?thesis by blast
qed

end
