(* ===== verification/Aur_Waves.thy ===== *)
theory Aur_Waves
  imports Rust_Str "HOL-Library.AList" "HOL-Library.Multiset"
begin

text \<open>
  The parallel builder of AUR packages, \<^verbatim>\<open>package_managers/aur/parallel_build.rs\<close>: the dependency
  graph of the jobs, its waves, and the builds of one wave after the other.

  A \<^verbatim>\<open>HashMap\<close> is an association list, a \<^verbatim>\<open>HashSet\<close> a list read as a set. Authorizing, building and
  installing packages, the terminal and the privileges are fields of \<open>build_env\<close>. The order in which
  concurrent builds finish is an argument \<open>schedule\<close>: each number picks the next of the builds in
  flight to finish. Sections printed on the terminal and the loop that keeps \<^verbatim>\<open>sudo\<close> alive have no part
  in the results.
\<close>

section \<open>Jobs and summaries\<close>

record build_job =
  bj_package :: string
  bj_outputs :: "string list"
  bj_dependencies :: "string list"

definition build_job_new :: "string \<Rightarrow> string list \<Rightarrow> build_job" where
  "build_job_new package dependencies =
     \<lparr>bj_package = package, bj_outputs = [package], bj_dependencies = dependencies\<rparr>"

definition for_package_base :: "string \<Rightarrow> string list \<Rightarrow> string list \<Rightarrow> build_job" where
  "for_package_base package_base outputs dependencies =
     \<lparr>bj_package = package_base, bj_outputs = remdups_adj (sort outputs),
      bj_dependencies = remdups_adj (sort dependencies)\<rparr>"

datatype build_error =
    DuplicateJob string
  | NoTerminal
  | CircularDependency "string list"
  | MissingJob string
  | MissingAuthorization string
  | ExternalError string

record build_summary =
  bs_succeeded :: "string list"
  bs_failed :: "string list"
  bs_skipped :: "string list"
  bs_failures :: "(string \<times> string) list"

definition summary_default :: build_summary where
  "summary_default = \<lparr>bs_succeeded = [], bs_failed = [], bs_skipped = [], bs_failures = []\<rparr>"

definition record_job_result :: "build_job \<Rightarrow> (string, unit) result \<Rightarrow> build_summary \<Rightarrow> build_summary" where
  "record_job_result job r s =
     (case r of
        Inr _ \<Rightarrow> s\<lparr>bs_succeeded := bs_succeeded s @ bj_outputs job\<rparr>
      | Inl error \<Rightarrow> s\<lparr>bs_failed := bs_failed s @ bj_outputs job, bs_failures := bs_failures s @ [(bj_package job, error)]\<rparr>)"

definition record_skipped :: "build_job \<Rightarrow> build_summary \<Rightarrow> build_summary" where
  "record_skipped job s = s\<lparr>bs_skipped := bs_skipped s @ bj_outputs job\<rparr>"

definition merge_summary :: "build_summary \<Rightarrow> build_summary \<Rightarrow> build_summary" where
  "merge_summary s t =
     \<lparr>bs_succeeded = bs_succeeded s @ bs_succeeded t, bs_failed = bs_failed s @ bs_failed t,
      bs_skipped = bs_skipped s @ bs_skipped t, bs_failures = bs_failures s @ bs_failures t\<rparr>"

definition failed_output_count :: "build_summary \<Rightarrow> nat" where
  "failed_output_count s = length (bs_failed s)"

section \<open>The graph and its waves\<close>

fun validate_unique_from :: "string list \<Rightarrow> build_job list \<Rightarrow> (build_error, unit) result" where
  "validate_unique_from seen [] = Inr ()"
| "validate_unique_from seen (job # jobs) =
     rbind (ensure (bj_package job \<notin> set seen) (DuplicateJob (bj_package job))) (\<lambda>_.
     validate_unique_from (bj_package job # seen) jobs)"

definition validate_unique_jobs :: "build_job list \<Rightarrow> (build_error, unit) result" where
  "validate_unique_jobs jobs = validate_unique_from [] jobs"

definition build_dependency_graph :: "build_job list \<Rightarrow> (string \<times> string list) list" where
  "build_dependency_graph jobs =
     (let all_packages = map bj_package jobs in
      foldl (\<lambda>graph job.
        AList.update (bj_package job) (remdups (filter (\<lambda>dep. dep \<in> set all_packages) (bj_dependencies job))) graph)
        [] jobs)"

definition level_ready :: "(string \<times> string list) list \<Rightarrow> string list \<Rightarrow> string \<Rightarrow> bool" where
  "level_ready graph satisfied pkg =
     (case map_of graph pkg of None \<Rightarrow> True | Some deps \<Rightarrow> list_all (\<lambda>dep. dep \<in> set satisfied) deps)"

text \<open>The packages an error names are five of the remaining ones, in the order of the set.\<close>

function levels_loop ::
  "(string \<times> string list) list \<Rightarrow> string list \<Rightarrow> string list \<Rightarrow> string list list \<Rightarrow>
   (build_error, string list list) result" where
  "levels_loop graph remaining satisfied levels =
     (if remaining = [] then Inr levels
      else
        let current_level = filter (level_ready graph satisfied) remaining in
        if current_level = [] then Inl (CircularDependency (take 5 remaining))
        else levels_loop graph (filter (\<lambda>p. p \<notin> set current_level) remaining)
               (sort current_level @ satisfied) (levels @ [sort current_level]))"
  by pat_completeness auto

termination levels_loop
proof (relation "measure (\<lambda>(graph, remaining, satisfied, levels). length remaining)", simp, clarsimp)
  fix graph remaining satisfied
  assume "filter (level_ready graph satisfied) remaining \<noteq> []"
  then obtain p where "p \<in> set remaining" "level_ready graph satisfied p" by (auto simp: filter_empty_conv)
  then show "length (filter (\<lambda>p. p \<in> set remaining \<longrightarrow> \<not> level_ready graph satisfied p) remaining) < length remaining"
    by (intro length_filter_less) auto
qed

declare levels_loop.simps [simp del]

definition topological_levels :: "(string \<times> string list) list \<Rightarrow> (build_error, string list list) result" where
  "topological_levels graph = levels_loop graph (map fst graph) [] []"

section \<open>One wave\<close>

record 'a build_env =
  be_requires_review :: bool
  be_attended :: bool
  be_authorize :: "string \<Rightarrow> string list \<Rightarrow> (string, 'a) result"
  be_can_write_db :: bool
  be_preacquire :: "(string, unit) result"
  be_build :: "'a \<Rightarrow> (string, string list) result"
  be_install :: "string list \<Rightarrow> (string, unit) result"

definition concurrency_for_level :: "nat \<Rightarrow> nat \<Rightarrow> nat" where
  "concurrency_for_level max_concurrent level_len = min (max max_concurrent 1) level_len"

record 'a wave_state =
  ws_pending :: "string list"
  ws_flight :: "(build_job \<times> 'a) list"
  ws_authorized :: "(string \<times> 'a) list"
  ws_archives :: "string list"
  ws_summary :: build_summary

text \<open>The inner loop: start builds while fewer than \<open>concurrency\<close> are in flight.\<close>

definition start_build ::
  "(string \<times> build_job) list \<Rightarrow> string \<Rightarrow> 'a wave_state \<Rightarrow> (build_error, 'a wave_state) result" where
  "start_build jobs package s =
     (case map_of jobs package of
        None \<Rightarrow> Inl (MissingJob package)
      | Some job \<Rightarrow> (case map_of (ws_authorized s) package of
            None \<Rightarrow> Inl (MissingAuthorization package)
          | Some authorized \<Rightarrow>
              Inr (s\<lparr>ws_pending := tl (ws_pending s), ws_flight := ws_flight s @ [(job, authorized)],
                     ws_authorized := AList.delete package (ws_authorized s)\<rparr>)))"

function fill_wave ::
  "nat \<Rightarrow> (string \<times> build_job) list \<Rightarrow> 'a wave_state \<Rightarrow> (build_error, 'a wave_state) result" where
  "fill_wave concurrency jobs s =
     (if length (ws_flight s) < concurrency
      then (case ws_pending s of
          [] \<Rightarrow> Inr s
        | package # rest \<Rightarrow> (case start_build jobs package s of
            Inl e \<Rightarrow> Inl e
          | Inr s' \<Rightarrow> fill_wave concurrency jobs s'))
      else Inr s)"
  by pat_completeness auto

termination fill_wave
  by (relation "measure (\<lambda>(c, jobs, s). length (ws_pending s))")
    (auto simp: start_build_def split: option.splits)

declare fill_wave.simps [simp del]

text \<open>\<^verbatim>\<open>join_next_with_id\<close>: one of the builds in flight finishes.\<close>

definition pick :: "nat list \<Rightarrow> nat \<Rightarrow> nat" where
  "pick schedule n = (case schedule of [] \<Rightarrow> 0 | k # _ \<Rightarrow> k mod n)"

definition join_next :: "'a build_env \<Rightarrow> nat \<Rightarrow> 'a wave_state \<Rightarrow> 'a wave_state" where
  "join_next env i s =
     (let (job, authorized) = ws_flight s ! i;
          s' = s\<lparr>ws_flight := take i (ws_flight s) @ drop (Suc i) (ws_flight s)\<rparr>
      in case be_build env authorized of
           Inr archives \<Rightarrow> s'\<lparr>ws_archives := ws_archives s @ archives,
                              ws_summary := record_job_result job (Inr ()) (ws_summary s)\<rparr>
         | Inl error \<Rightarrow> s'\<lparr>ws_summary := record_job_result job (Inl error) (ws_summary s)\<rparr>)"

lemma fill_wave_total:
  "fill_wave c jobs s = Inr s' \<Longrightarrow>
   length (ws_pending s') + length (ws_flight s') = length (ws_pending s) + length (ws_flight s)"
proof (induction c jobs s rule: fill_wave.induct)
  case (1 c jobs s)
  then show ?case
    by (subst (asm) (2) fill_wave.simps)
      (auto simp: start_build_def split: if_splits list.splits sum.splits option.splits)
qed

lemma pick_less: "n > 0 \<Longrightarrow> pick schedule n < n"
  by (simp add: pick_def split: list.splits)

lemma join_next_simps [simp]:
  "ws_pending (join_next env i s) = ws_pending s"
  "ws_flight (join_next env i s) = take i (ws_flight s) @ drop (Suc i) (ws_flight s)"
  "ws_authorized (join_next env i s) = ws_authorized s"
  by (simp_all add: join_next_def Let_def split: prod.splits sum.splits)

function wave_loop ::
  "'a build_env \<Rightarrow> nat \<Rightarrow> (string \<times> build_job) list \<Rightarrow> nat list \<Rightarrow> 'a wave_state \<Rightarrow>
   (build_error, 'a wave_state) result" where
  "wave_loop env concurrency jobs schedule s =
     (case fill_wave concurrency jobs s of
        Inl e \<Rightarrow> Inl e
      | Inr s' \<Rightarrow>
          if ws_flight s' = [] then Inr s'
          else wave_loop env concurrency jobs (tl schedule)
                 (join_next env (pick schedule (length (ws_flight s'))) s'))"
  by pat_completeness auto

termination wave_loop
proof (relation "measure (\<lambda>(env, c, jobs, sched, s). length (ws_pending s) + length (ws_flight s))", simp)
  fix env :: "'a build_env" and c jobs sched and s s' :: "'a wave_state"
  assume f: "fill_wave c jobs s = Inr s'" and ne: "ws_flight s' \<noteq> []"
  show "((env, c, jobs, tl sched, join_next env (pick sched (length (ws_flight s'))) s'), env, c, jobs, sched, s)
    \<in> measure (\<lambda>(env, c, jobs, sched, s). length (ws_pending s) + length (ws_flight s))"
    using fill_wave_total [OF f] pick_less [of "length (ws_flight s')" sched] ne by auto
qed

declare wave_loop.simps [simp del]

definition wave_start :: "string list \<Rightarrow> (string \<times> 'a) list \<Rightarrow> 'a wave_state" where
  "wave_start packages authorized =
     \<lparr>ws_pending = packages, ws_flight = [], ws_authorized = authorized, ws_archives = [],
      ws_summary = summary_default\<rparr>"

definition build_level ::
  "'a build_env \<Rightarrow> nat \<Rightarrow> string list \<Rightarrow> (string \<times> build_job) list \<Rightarrow> nat list \<Rightarrow> (string \<times> 'a) list \<Rightarrow>
   (build_error, build_summary \<times> (string \<times> 'a) list) result" where
  "build_level env max_concurrent packages jobs schedule authorized_jobs =
     rbind (wave_loop env (concurrency_for_level max_concurrent (length packages)) jobs schedule
       (wave_start packages authorized_jobs)) (\<lambda>s.
     rbind (if ws_archives s = [] then Inr ()
            else (case be_install env (ws_archives s) of Inl e \<Rightarrow> Inl (ExternalError e) | Inr u \<Rightarrow> Inr u)) (\<lambda>_.
     Inr (ws_summary s, ws_authorized s)))"

section \<open>All waves\<close>

fun authorize_all ::
  "'a build_env \<Rightarrow> (string \<times> build_job) list \<Rightarrow> string list \<Rightarrow> (string \<times> 'a) list \<Rightarrow>
   (build_error, (string \<times> 'a) list) result" where
  "authorize_all env jobs [] acc = Inr acc"
| "authorize_all env jobs (package # rest) acc =
     (case map_of jobs package of
        None \<Rightarrow> Inl (MissingJob package)
      | Some job \<Rightarrow> (case be_authorize env (bj_package job) (bj_outputs job) of
          Inl e \<Rightarrow> Inl (ExternalError e)
        | Inr authorized \<Rightarrow> authorize_all env jobs rest (AList.update package authorized acc)))"

fun skip_all :: "(string \<times> build_job) list \<Rightarrow> string list \<Rightarrow> build_summary \<Rightarrow> (build_error, build_summary) result" where
  "skip_all jobs [] s = Inr s"
| "skip_all jobs (package # rest) s =
     (case map_of jobs package of
        None \<Rightarrow> Inl (MissingJob package)
      | Some job \<Rightarrow> skip_all jobs rest (record_skipped job s))"

text \<open>The schedule of wave \<open>i\<close> is \<open>schedules i\<close>.\<close>

fun run_waves ::
  "'a build_env \<Rightarrow> nat \<Rightarrow> (string \<times> build_job) list \<Rightarrow> (nat \<Rightarrow> nat list) \<Rightarrow> nat \<Rightarrow> string list list \<Rightarrow>
   (string \<times> 'a) list \<Rightarrow> build_summary \<Rightarrow> (build_error, build_summary) result" where
  "run_waves env m jobs schedules i [] authorized summary = Inr summary"
| "run_waves env m jobs schedules i (level # later) authorized summary =
     (case build_level env m level jobs (schedules i) authorized of
        Inl e \<Rightarrow> Inl e
      | Inr (level_summary, authorized') \<Rightarrow>
          let summary' = merge_summary summary level_summary in
          if failed_output_count level_summary > 0 then skip_all jobs (concat later) summary'
          else run_waves env m jobs schedules (Suc i) later authorized' summary')"

definition jobs_by_package :: "build_job list \<Rightarrow> (string \<times> build_job) list" where
  "jobs_by_package jobs = foldl (\<lambda>acc job. AList.update (bj_package job) job acc) [] jobs"

definition build_packages ::
  "'a build_env \<Rightarrow> nat \<Rightarrow> (nat \<Rightarrow> nat list) \<Rightarrow> build_job list \<Rightarrow> (build_error, build_summary) result" where
  "build_packages env max_concurrent schedules jobs =
     (if jobs = [] then Inr summary_default
      else
        rbind (validate_unique_jobs jobs) (\<lambda>_.
        rbind (ensure (\<not> (be_requires_review env \<and> \<not> be_attended env)) NoTerminal) (\<lambda>_.
        rbind (topological_levels (build_dependency_graph jobs)) (\<lambda>build_levels.
        let by_package = jobs_by_package jobs in
        rbind (authorize_all env by_package (concat build_levels) []) (\<lambda>authorized_jobs.
        rbind (if be_can_write_db env then Inr ()
               else (case be_preacquire env of Inl e \<Rightarrow> Inl (ExternalError e) | Inr u \<Rightarrow> Inr u)) (\<lambda>_.
        run_waves env (max max_concurrent 1) by_package schedules 0 build_levels authorized_jobs summary_default))))))"

section \<open>Waves respect dependencies\<close>

definition deps_of :: "(string \<times> string list) list \<Rightarrow> string \<Rightarrow> string set" where
  "deps_of graph p = (case map_of graph p of None \<Rightarrow> {} | Some ds \<Rightarrow> set ds)"

definition dep_pairs :: "(string \<times> string list) list \<Rightarrow> (string \<times> string) set" where
  "dep_pairs graph = {(p, d). d \<in> deps_of graph p}"

lemma level_ready_iff: "level_ready graph sat p \<longleftrightarrow> deps_of graph p \<subseteq> set sat"
  by (auto simp: level_ready_def deps_of_def list_all_iff split: option.splits)

definition layered :: "(string \<times> string list) list \<Rightarrow> string set \<Rightarrow> string list list \<Rightarrow> bool" where
  "layered graph sat levels \<longleftrightarrow>
     (\<forall>i < length levels. levels ! i \<noteq> [] \<and> sorted (levels ! i) \<and>
        (\<forall>p \<in> set (levels ! i). deps_of graph p \<subseteq> sat \<union> set (concat (take i levels))))"

lemma layered_Cons:
  "layered graph sat (l # ls) \<longleftrightarrow>
     l \<noteq> [] \<and> sorted l \<and> (\<forall>p \<in> set l. deps_of graph p \<subseteq> sat) \<and> layered graph (sat \<union> set l) ls"
  unfolding layered_def by (simp add: All_less_Suc2 Un_assoc)

lemma sort_Nil_iff [simp]: "sort xs = [] \<longleftrightarrow> xs = []"
  by (metis length_0_conv length_sort)

lemma levels_loop_Inr:
  assumes "levels_loop graph rem sat acc = Inr levels"
  shows "\<exists>new. levels = acc @ new \<and> set (concat new) = set rem \<and> (distinct rem \<longrightarrow> distinct (concat new)) \<and>
    layered graph (set sat) new"
  using assms
proof (induction graph rem sat acc rule: levels_loop.induct)
  case (1 graph rem sat acc)
  let ?cur = "filter (level_ready graph sat) rem"
  let ?rest = "filter (\<lambda>p. p \<notin> set ?cur) rem"
  show ?case
  proof (cases "rem = []")
    case True
    then show ?thesis using "1.prems" by (simp add: levels_loop.simps layered_def)
  next
    case False
    with "1.prems" have ne: "?cur \<noteq> []" and
      run: "levels_loop graph ?rest (sort ?cur @ sat) (acc @ [sort ?cur]) = Inr levels"
      by (subst (asm) levels_loop.simps, auto simp: Let_def split: if_splits)+
    from "1.IH" [OF False refl ne run] obtain new where new: "levels = (acc @ [sort ?cur]) @ new"
      "set (concat new) = set ?rest" "distinct ?rest \<longrightarrow> distinct (concat new)"
      "layered graph (set (sort ?cur @ sat)) new" by blast
    have "layered graph (set sat) (sort ?cur # new)"
      using new(4) ne by (auto simp: layered_Cons level_ready_iff Un_commute)
    moreover have "set (concat (sort ?cur # new)) = set rem" using new(2) by auto
    moreover have "distinct rem \<longrightarrow> distinct (concat (sort ?cur # new))" using new(2,3) by auto
    ultimately show ?thesis using new(1) by (intro exI [of _ "sort ?cur # new"]) simp
  qed
qed

text \<open>The loop fails only on a set of packages each of which waits for another one of it, or for a stranger.\<close>

lemma levels_loop_Inl:
  assumes "levels_loop graph rem sat acc = Inl e"
  shows "\<exists>R. R \<noteq> {} \<and> R \<subseteq> set rem \<and> (\<forall>p \<in> R. \<exists>d \<in> deps_of graph p. d \<in> R \<or> d \<notin> set rem \<union> set sat) \<and>
    (\<exists>ps. e = CircularDependency ps)"
  using assms
proof (induction graph rem sat acc rule: levels_loop.induct)
  case (1 graph rem sat acc)
  let ?cur = "filter (level_ready graph sat) rem"
  let ?rest = "filter (\<lambda>p. p \<notin> set ?cur) rem"
  have False': "rem \<noteq> []" using "1.prems" by (subst (asm) levels_loop.simps) (auto split: if_splits)
  show ?case
  proof (cases "?cur = []")
    case True
    then have "\<forall>p \<in> set rem. \<exists>d \<in> deps_of graph p. d \<in> set rem \<or> d \<notin> set rem \<union> set sat"
      by (auto simp: filter_empty_conv level_ready_iff)
    moreover have "\<exists>ps. e = CircularDependency ps"
      using "1.prems" True False' by (subst (asm) levels_loop.simps) (auto simp: Let_def)
    ultimately show ?thesis using False' by (intro exI [of _ "set rem"]) simp
  next
    case ne: False
    with "1.prems" False' have run: "levels_loop graph ?rest (sort ?cur @ sat) (acc @ [sort ?cur]) = Inl e"
      by (subst (asm) levels_loop.simps) (auto simp: Let_def split: if_splits)
    from "1.IH" [OF False' refl ne run] obtain R where R: "R \<noteq> {}" "R \<subseteq> set ?rest"
      "\<forall>p \<in> R. \<exists>d \<in> deps_of graph p. d \<in> R \<or> d \<notin> set ?rest \<union> set (sort ?cur @ sat)"
      "\<exists>ps. e = CircularDependency ps" by blast
    have "set ?rest \<union> set (sort ?cur @ sat) = set rem \<union> set sat" by auto
    with R show ?thesis by (intro exI [of _ R]) auto
  qed
qed

lemma layered_rank:
  assumes "layered graph {} levels" "distinct (concat levels)" "p \<in> set (levels ! i)" "i < length levels" "d \<in> deps_of graph p"
  shows "\<exists>j < i. d \<in> set (levels ! j)"
proof -
  have "d \<in> set (concat (take i levels))" using assms unfolding layered_def by blast
  then obtain l where l: "l \<in> set (take i levels)" "d \<in> set l" by auto
  then obtain j where "j < i" "l = levels ! j" using assms(4) by (auto simp: in_set_conv_nth [of l])
  with l(2) show ?thesis by blast
qed

lemma level_unique:
  "distinct (concat levels) \<Longrightarrow> p \<in> set (levels ! i) \<Longrightarrow> p \<in> set (levels ! j) \<Longrightarrow> i < length levels \<Longrightarrow>
   j < length levels \<Longrightarrow> i = j"
proof (induction levels arbitrary: i j)
  case (Cons l ls)
  have later: "p \<in> set (concat ls)" if "p \<in> set (ls ! k)" "k < length ls" for k
    using that nth_mem by fastforce
  have sep: "p \<notin> set l \<or> p \<notin> set (concat ls)" using Cons.prems(1) by auto
  have dist: "distinct (concat ls)" using Cons.prems(1) by simp
  show ?case
  proof (cases i)
    case 0
    then show ?thesis using Cons.prems later sep by (cases j) auto
  next
    case (Suc i')
    then show ?thesis using Cons.prems later sep Cons.IH [OF dist] by (cases j) auto
  qed
qed simp

lemma layered_acyclic:
  assumes lay: "layered graph {} levels" and dist: "distinct (concat levels)"
    and keys: "\<And>p. deps_of graph p \<noteq> {} \<Longrightarrow> p \<in> set (concat levels)"
  shows "acyclic (dep_pairs graph)"
proof -
  define rank where "rank p = (THE i. i < length levels \<and> p \<in> set (levels ! i))" for p
  have rank: "rank p = i" if "i < length levels" "p \<in> set (levels ! i)" for p i
    unfolding rank_def using that level_unique [OF dist] by (intro the_equality) auto
  have "(d, p) \<in> measure rank" if "(p, d) \<in> dep_pairs graph" for p d
  proof -
    from that have d: "d \<in> deps_of graph p" by (simp add: dep_pairs_def)
    then have "p \<in> set (concat levels)" using keys by blast
    then obtain i where i: "i < length levels" "p \<in> set (levels ! i)"
      by (metis (no_types, lifting) UN_E in_set_conv_nth set_concat)
    obtain j where j: "j < i" "d \<in> set (levels ! j)" using layered_rank [OF lay dist i(2,1) d] by blast
    have "rank p = i" "rank d = j" using rank i j by auto
    with j(1) show ?thesis by simp
  qed
  then have "(dep_pairs graph)\<inverse> \<subseteq> measure rank" by auto
  then have "wf ((dep_pairs graph)\<inverse>)" using wf_measure wf_subset by blast
  then show ?thesis using wf_acyclic acyclic_converse by blast
qed

lemma stuck_cyclic:
  assumes "R \<noteq> {}" "finite R" "\<forall>p \<in> R. \<exists>d \<in> deps_of graph p. d \<in> R"
  shows "\<not> acyclic (dep_pairs graph)"
proof
  assume ac: "acyclic (dep_pairs graph)"
  let ?r = "dep_pairs graph \<inter> R \<times> R"
  have "finite ?r" using assms(2) by blast
  moreover have "acyclic ?r" using ac acyclic_subset by blast
  ultimately have "wf (?r\<inverse>)" by (rule finite_acyclic_wf_converse)
  moreover obtain x where "x \<in> R" using assms(1) by blast
  ultimately obtain z where z: "z \<in> R" "\<And>y. (y, z) \<in> ?r\<inverse> \<Longrightarrow> y \<notin> R" by (rule wfE_min) blast
  obtain d where d: "d \<in> deps_of graph z" "d \<in> R" using assms(3) z(1) by blast
  have "(d, z) \<in> ?r\<inverse>" using d z(1) by (simp add: dep_pairs_def)
  from z(2) [OF this] d(2) show False by simp
qed

section \<open>The graph of a list of jobs\<close>

lemma update_new: "k \<notin> fst ` set al \<Longrightarrow> AList.update k v al = al @ [(k, v)]"
  by (induction al) auto

lemma foldl_update_new:
  "distinct (map k xs) \<Longrightarrow> fst ` set acc \<inter> k ` set xs = {} \<Longrightarrow>
   foldl (\<lambda>al x. AList.update (k x) (v x) al) acc xs = acc @ map (\<lambda>x. (k x, v x)) xs"
proof (induction xs arbitrary: acc)
  case (Cons x xs)
  have "foldl (\<lambda>al x. AList.update (k x) (v x) al) (acc @ [(k x, v x)]) xs =
      (acc @ [(k x, v x)]) @ map (\<lambda>x. (k x, v x)) xs"
    using Cons.prems by (intro Cons.IH) auto
  with Cons.prems(2) show ?case by (simp add: update_new)
qed simp

lemma validate_unique_from_Inr:
  "validate_unique_from seen jobs = Inr u \<longleftrightarrow> distinct (map bj_package jobs) \<and> bj_package ` set jobs \<inter> set seen = {}"
  by (induction jobs arbitrary: seen) auto

lemma validate_unique_Inr: "validate_unique_jobs jobs = Inr u \<longleftrightarrow> distinct (map bj_package jobs)"
  by (simp add: validate_unique_jobs_def validate_unique_from_Inr)

lemma jobs_by_package_eq:
  "distinct (map bj_package jobs) \<Longrightarrow> jobs_by_package jobs = map (\<lambda>j. (bj_package j, j)) jobs"
  by (simp add: jobs_by_package_def foldl_update_new)

lemma map_of_jobs:
  "distinct (map bj_package jobs) \<Longrightarrow>
   map_of (map (\<lambda>j. (bj_package j, f j)) jobs) p = Some x \<longleftrightarrow> (\<exists>j \<in> set jobs. bj_package j = p \<and> f j = x)"
  by (subst map_of_eq_Some_iff) (auto simp: comp_def)

lemma graph_eq:
  "distinct (map bj_package jobs) \<Longrightarrow>
   build_dependency_graph jobs = map (\<lambda>j. (bj_package j,
     remdups (filter (\<lambda>d. d \<in> set (map bj_package jobs)) (bj_dependencies j)))) jobs"
  by (simp add: build_dependency_graph_def foldl_update_new)

lemma graph_deps:
  assumes "distinct (map bj_package jobs)"
  shows "map fst (build_dependency_graph jobs) = map bj_package jobs"
    "d \<in> deps_of (build_dependency_graph jobs) p \<longleftrightarrow>
      (\<exists>j \<in> set jobs. bj_package j = p \<and> d \<in> set (bj_dependencies j) \<and> d \<in> bj_package ` set jobs)"
proof -
  show "map fst (build_dependency_graph jobs) = map bj_package jobs" using assms by (simp add: graph_eq comp_def)
  show "d \<in> deps_of (build_dependency_graph jobs) p \<longleftrightarrow>
      (\<exists>j \<in> set jobs. bj_package j = p \<and> d \<in> set (bj_dependencies j) \<and> d \<in> bj_package ` set jobs)"
  proof (cases "map_of (build_dependency_graph jobs) p")
    case None
    then have "p \<notin> bj_package ` set jobs" using assms by (auto simp: graph_eq map_of_eq_None_iff comp_def image_image)
    then show ?thesis using None by (auto simp: deps_of_def)
  next
    case (Some ds)
    then obtain j where j: "j \<in> set jobs" "bj_package j = p"
      "ds = remdups (filter (\<lambda>d. d \<in> set (map bj_package jobs)) (bj_dependencies j))"
      using assms by (auto simp: graph_eq map_of_jobs)
    have "k = j" if "k \<in> set jobs" "bj_package k = p" for k
      using that j(1,2) assms inj_onD [of bj_package "set jobs" k j] by (simp add: distinct_map)
    note uniq = this
    have "deps_of (build_dependency_graph jobs) p = set ds" using Some by (simp add: deps_of_def)
    then have "d \<in> deps_of (build_dependency_graph jobs) p \<longleftrightarrow> d \<in> set (bj_dependencies j) \<and> d \<in> bj_package ` set jobs"
      by (simp only: j(3) set_remdups set_filter list.set_map mem_Collect_eq)
    then show ?thesis using uniq j(1,2) by blast
  qed
qed

lemma topological_levels_Inr:
  assumes "topological_levels graph = Inr levels"
  shows "set (concat levels) = set (map fst graph)" "distinct (map fst graph) \<longrightarrow> distinct (concat levels)"
    "layered graph {} levels"
proof -
  obtain new where "levels = [] @ new" "set (concat new) = set (map fst graph)"
    "distinct (map fst graph) \<longrightarrow> distinct (concat new)" "layered graph (set []) new"
    using levels_loop_Inr [OF assms [unfolded topological_levels_def]] by blast
  then show "set (concat levels) = set (map fst graph)" "distinct (map fst graph) \<longrightarrow> distinct (concat levels)"
    "layered graph {} levels" by simp_all
qed

text \<open>On the graph of distinct jobs the waves exist exactly when no job waits for itself.\<close>

lemma topological_levels_ok:
  assumes "distinct (map bj_package jobs)"
  shows "is_ok (topological_levels (build_dependency_graph jobs)) \<longleftrightarrow> acyclic (dep_pairs (build_dependency_graph jobs))"
proof (cases "topological_levels (build_dependency_graph jobs)")
  case (Inr levels)
  let ?g = "build_dependency_graph jobs"
  note new = topological_levels_Inr [OF Inr]
  have "acyclic (dep_pairs ?g)"
  proof (rule layered_acyclic [OF new(3)])
    show "distinct (concat levels)" using new(2) graph_deps(1) [OF assms] assms by simp
    show "p \<in> set (concat levels)" if "deps_of ?g p \<noteq> {}" for p
    proof -
      have "map_of ?g p \<noteq> None" using that by (auto simp: deps_of_def)
      then obtain ds where "map_of ?g p = Some ds" by blast
      then have "p \<in> fst ` set ?g" by (metis domI dom_map_of_conv_image_fst)
      then show ?thesis unfolding new(1) list.set_map .
    qed
  qed
  then show ?thesis using Inr by simp
next
  case (Inl e)
  let ?g = "build_dependency_graph jobs"
  obtain R where R: "R \<noteq> {}" "R \<subseteq> set (map fst ?g)"
    "\<forall>p \<in> R. \<exists>d \<in> deps_of ?g p. d \<in> R \<or> d \<notin> set (map fst ?g)"
    using levels_loop_Inl [OF Inl [unfolded topological_levels_def]]
    unfolding list.set(1) Un_empty_right by blast
  have closed: "d \<in> set (map fst ?g)" if "d \<in> deps_of ?g p" for d p
    using that unfolding graph_deps [OF assms] by auto
  have "\<forall>p \<in> R. \<exists>d \<in> deps_of ?g p. d \<in> R" using R(3) closed by blast
  then have "\<not> acyclic (dep_pairs ?g)"
    using R(1) finite_subset [OF R(2)] by (intro stuck_cyclic [of R]) simp_all
  then show ?thesis using Inl by simp
qed

section \<open>Every interleaving of a wave\<close>

text \<open>
  The wave as a transition system: a build starts while there is room, and when there is no room or
  nothing left to start, any build in flight finishes.
\<close>

inductive wave_step ::
  "'a build_env \<Rightarrow> nat \<Rightarrow> (string \<times> build_job) list \<Rightarrow> 'a wave_state \<Rightarrow> 'a wave_state \<Rightarrow> bool"
  for env :: "'a build_env" and c jobs where
  spawn: "length (ws_flight s) < c \<Longrightarrow> ws_pending s = p # ps \<Longrightarrow> start_build jobs p s = Inr s' \<Longrightarrow>
    wave_step env c jobs s s'"
| finish: "\<not> length (ws_flight s) < c \<or> ws_pending s = [] \<Longrightarrow> i < length (ws_flight s) \<Longrightarrow>
    wave_step env c jobs s (join_next env i s)"

inductive_cases wave_stepE: "wave_step env c jobs s s'"

definition built :: "'a build_env \<Rightarrow> (string \<rightharpoonup> 'a) \<Rightarrow> string \<Rightarrow> bool" where
  "built env A p \<longleftrightarrow> (case A p of None \<Rightarrow> False | Some a \<Rightarrow> is_ok (be_build env a))"

definition outs :: "(string \<times> build_job) list \<Rightarrow> string list \<Rightarrow> string multiset" where
  "outs jobs ps = mset (concat (map (\<lambda>p. case map_of jobs p of None \<Rightarrow> [] | Some j \<Rightarrow> bj_outputs j) ps))"

definition accounts :: "'a build_env \<Rightarrow> (string \<times> build_job) list \<Rightarrow> (string \<rightharpoonup> 'a) \<Rightarrow> string list \<Rightarrow> build_summary \<Rightarrow> bool" where
  "accounts env jobs A ps s \<longleftrightarrow>
     mset (bs_succeeded s) = outs jobs (filter (built env A) ps) \<and>
     mset (bs_failed s) = outs jobs (filter (\<lambda>p. \<not> built env A p) ps) \<and>
     bs_skipped s = [] \<and> mset (map fst (bs_failures s)) = mset (filter (\<lambda>p. \<not> built env A p) ps)"

definition wave_inv ::
  "'a build_env \<Rightarrow> nat \<Rightarrow> (string \<times> build_job) list \<Rightarrow> (string \<rightharpoonup> 'a) \<Rightarrow> string list \<Rightarrow> 'a wave_state \<Rightarrow> bool" where
  "wave_inv env c jobs A packages s \<longleftrightarrow>
     length (ws_flight s) \<le> c \<and> distinct (ws_pending s) \<and> set (ws_pending s) \<subseteq> set packages \<and>
     (\<forall>(j, a) \<in> set (ws_flight s). map_of jobs (bj_package j) = Some j \<and> A (bj_package j) = Some a) \<and>
     (\<forall>p \<in> set (ws_pending s). map_of (ws_authorized s) p = A p \<and> A p \<noteq> None \<and>
        (\<exists>j. map_of jobs p = Some j \<and> bj_package j = p)) \<and>
     (\<forall>q. q \<notin> set packages \<longrightarrow> map_of (ws_authorized s) q = A q) \<and>
     (\<exists>fin. mset packages = mset (ws_pending s) + mset (map (bj_package \<circ> fst) (ws_flight s)) + mset fin \<and>
        accounts env jobs A fin (ws_summary s))"

lemma accounts_snoc:
  assumes "accounts env jobs A ps s" "map_of jobs (bj_package j) = Some j" "A (bj_package j) = Some a"
  shows "accounts env jobs A (ps @ [bj_package j])
    (record_job_result j (case be_build env a of Inl e \<Rightarrow> Inl e | Inr _ \<Rightarrow> Inr ()) s)"
  using assms by (auto simp: accounts_def record_job_result_def built_def outs_def split: sum.splits)

lemma start_build_ok:
  assumes "wave_inv env c jobs A packages s" "ws_pending s = p # ps" "length (ws_flight s) < c"
  shows "\<exists>s'. start_build jobs p s = Inr s' \<and> wave_inv env c jobs A packages s'"
proof -
  obtain j a where j: "map_of jobs p = Some j" "bj_package j = p" "map_of (ws_authorized s) p = Some a" "A p = Some a"
    using assms(1,2) by (auto simp: wave_inv_def)
  let ?s = "s\<lparr>ws_pending := tl (ws_pending s), ws_flight := ws_flight s @ [(j, a)],
    ws_authorized := AList.delete p (ws_authorized s)\<rparr>"
  have "start_build jobs p s = Inr ?s" using j by (simp add: start_build_def)
  moreover have "wave_inv env c jobs A packages ?s"
    using assms j unfolding wave_inv_def by (auto simp: delete_conv')
  ultimately show ?thesis by blast
qed

lemma remove_nth_mset: "i < length xs \<Longrightarrow> mset xs = add_mset (xs ! i) (mset (take i xs @ drop (Suc i) xs))"
  by (metis append_take_drop_id Cons_nth_drop_Suc mset.simps(2) mset_append union_mset_add_mset_right)

lemma join_next_ok:
  assumes "wave_inv env c jobs A packages s" "i < length (ws_flight s)"
  shows "wave_inv env c jobs A packages (join_next env i s)"
proof -
  obtain j a where ja: "ws_flight s ! i = (j, a)" by fastforce
  then have j: "map_of jobs (bj_package j) = Some j" "A (bj_package j) = Some a"
    using assms nth_mem [OF assms(2)] unfolding wave_inv_def by fastforce+
  obtain fin where fin: "mset packages = mset (ws_pending s) + mset (map (bj_package \<circ> fst) (ws_flight s)) + mset fin"
    "accounts env jobs A fin (ws_summary s)"
    using assms(1) by (auto simp: wave_inv_def)
  let ?f = "take i (ws_flight s) @ drop (Suc i) (ws_flight s)"
  have sum: "ws_summary (join_next env i s) =
      record_job_result j (case be_build env a of Inl e \<Rightarrow> Inl e | Inr _ \<Rightarrow> Inr ()) (ws_summary s)"
    using ja by (simp add: join_next_def split: sum.splits)
  have "mset (map (bj_package \<circ> fst) (ws_flight s)) = add_mset (bj_package j) (mset (map (bj_package \<circ> fst) ?f))"
    using arg_cong [OF remove_nth_mset [OF assms(2)], of "image_mset (bj_package \<circ> fst)"] ja by simp
  then have "mset packages = mset (ws_pending s) + mset (map (bj_package \<circ> fst) ?f) + mset (fin @ [bj_package j])"
    using fin(1) by simp
  moreover note accounts_snoc [OF fin(2) j]
  moreover have "set ?f \<subseteq> set (ws_flight s)" using set_take_subset set_drop_subset by fastforce
  moreover have "length ?f \<le> c" using assms by (auto simp: wave_inv_def)
  ultimately show ?thesis
    using assms(1) unfolding wave_inv_def sum join_next_simps by (intro conjI) blast+
qed

lemma wave_step_inv:
  assumes "wave_step env c jobs s s'" "wave_inv env c jobs A packages s"
  shows "wave_inv env c jobs A packages s'"
  using assms(1)
proof cases
  case (spawn p ps)
  then show ?thesis using start_build_ok [OF assms(2) spawn(2,1)] by auto
next
  case (finish i)
  then show ?thesis using join_next_ok [OF assms(2)] by simp
qed

lemma wave_steps_inv:
  "(wave_step env c jobs)\<^sup>*\<^sup>* s s' \<Longrightarrow> wave_inv env c jobs A packages s \<Longrightarrow> wave_inv env c jobs A packages s'"
  by (induction rule: rtranclp_induct) (auto intro: wave_step_inv)

lemma wave_not_stuck:
  assumes "wave_inv env c jobs A packages s" "c > 0 \<or> packages = []" "\<nexists>s'. wave_step env c jobs s s'"
  shows "ws_pending s = [] \<and> ws_flight s = []"
proof -
  have fl: "ws_flight s = []" if "\<not> length (ws_flight s) < c \<or> ws_pending s = []"
    using assms(3) finish [OF that, of 0 env jobs] by auto
  have "ws_pending s = []"
  proof (rule ccontr)
    assume ne: "ws_pending s \<noteq> []"
    then obtain p ps where p: "ws_pending s = p # ps" by (cases "ws_pending s") auto
    have "length (ws_flight s) < c"
    proof (rule ccontr)
      assume full: "\<not> length (ws_flight s) < c"
      then have "ws_flight s = []" using fl by blast
      with full have "c = 0" by simp
      then show False using assms(1,2) p by (auto simp: wave_inv_def)
    qed
    then show False using start_build_ok [OF assms(1) p] spawn p assms(3) by blast
  qed
  with fl show ?thesis by blast
qed

lemma wave_step_measure:
  "wave_step env c jobs s s' \<Longrightarrow>
   2 * length (ws_pending s') + length (ws_flight s') < 2 * length (ws_pending s) + length (ws_flight s)"
  by (elim wave_stepE) (auto simp: start_build_def split: option.splits)

section \<open>The loop runs the transition system\<close>

lemma fill_wave_steps:
  assumes "wave_inv env c jobs A packages s"
  shows "\<exists>s'. fill_wave c jobs s = Inr s' \<and> (wave_step env c jobs)\<^sup>*\<^sup>* s s' \<and>
    (\<not> length (ws_flight s') < c \<or> ws_pending s' = [])"
  using assms
proof (induction c jobs s rule: fill_wave.induct)
  case (1 c jobs s)
  show ?case
  proof (cases "length (ws_flight s) < c \<and> ws_pending s \<noteq> []")
    case True
    then obtain p ps where p: "ws_pending s = p # ps" by (cases "ws_pending s") auto
    obtain s1 where s1: "start_build jobs p s = Inr s1" "wave_inv env c jobs A packages s1"
      using start_build_ok [OF "1.prems" p] True by blast
    have step: "wave_step env c jobs s s1" using spawn [OF _ p s1(1)] True by blast
    have "fill_wave c jobs s = fill_wave c jobs s1" using True p s1(1) by (subst fill_wave.simps) simp
    with "1.IH" [OF _ p s1(1) s1(2)] True step show ?thesis
      by (metis converse_rtranclp_into_rtranclp)
  next
    case False
    then show ?thesis by (subst fill_wave.simps) (auto split: list.splits)
  qed
qed

lemma wave_loop_steps:
  assumes "wave_inv env c jobs A packages s" "c > 0 \<or> packages = []"
  shows "\<exists>s'. wave_loop env c jobs schedule s = Inr s' \<and> (wave_step env c jobs)\<^sup>*\<^sup>* s s' \<and>
    ws_pending s' = [] \<and> ws_flight s' = []"
  using assms
proof (induction env c jobs schedule s rule: wave_loop.induct)
  case (1 env c jobs schedule s)
  obtain s1 where s1: "fill_wave c jobs s = Inr s1" "(wave_step env c jobs)\<^sup>*\<^sup>* s s1"
    "\<not> length (ws_flight s1) < c \<or> ws_pending s1 = []"
    using fill_wave_steps [OF "1.prems"(1)] by blast
  note inv1 = wave_steps_inv [OF s1(2) "1.prems"(1)]
  show ?case
  proof (cases "ws_flight s1 = []")
    case True
    then have "ws_pending s1 = []" using s1(3) "1.prems"(2) inv1 by (auto simp: wave_inv_def)
    then show ?thesis using True s1 by (subst wave_loop.simps) simp
  next
    case False
    let ?i = "pick schedule (length (ws_flight s1))" and ?s = "join_next env (pick schedule (length (ws_flight s1))) s1"
    have i: "?i < length (ws_flight s1)" using False by (simp add: pick_less)
    have step: "wave_step env c jobs s1 ?s" using finish [OF s1(3) i] .
    have run: "wave_loop env c jobs schedule s = wave_loop env c jobs (tl schedule) ?s"
      using s1(1) False by (subst wave_loop.simps) simp
    obtain s' where "wave_loop env c jobs (tl schedule) ?s = Inr s'" "(wave_step env c jobs)\<^sup>*\<^sup>* ?s s'"
        "ws_pending s' = []" "ws_flight s' = []"
      using "1.IH" [OF s1(1) False wave_step_inv [OF step inv1] "1.prems"(2)] by blast
    moreover have "(wave_step env c jobs)\<^sup>*\<^sup>* s ?s" using s1(2) step by simp
    ultimately show ?thesis unfolding run by (meson rtranclp_trans)
  qed
qed

lemma outs_mset: "outs jobs ps = \<Sum>\<^sub># (image_mset (\<lambda>p. mset (case map_of jobs p of None \<Rightarrow> [] | Some j \<Rightarrow> bj_outputs j)) (mset ps))"
  unfolding outs_def by (induction ps) auto

lemma outs_append [simp]: "outs jobs (ps @ qs) = outs jobs ps + outs jobs qs" "outs jobs [] = {#}"
  by (simp_all add: outs_def)

lemma accounts_perm:
  assumes "mset ps = mset qs" "accounts env jobs A ps s"
  shows "accounts env jobs A qs s"
proof -
  have "mset (filter P ps) = mset (filter P qs)" for P using assms(1) by (metis mset_filter)
  then show ?thesis using assms(2) unfolding accounts_def outs_mset by simp
qed

lemma wave_done:
  assumes "wave_inv env c jobs A packages s" "ws_pending s = []" "ws_flight s = []"
  shows "accounts env jobs A packages (ws_summary s)"
proof -
  obtain fin where "mset packages = mset fin" "accounts env jobs A fin (ws_summary s)"
    using assms by (auto simp: wave_inv_def)
  then show ?thesis using accounts_perm [of fin packages] by simp
qed

text \<open>What a wave needs to be started: distinct packages, each with its job and its authorization.\<close>

definition prepared :: "(string \<times> build_job) list \<Rightarrow> (string \<rightharpoonup> 'a) \<Rightarrow> (string \<times> 'a) list \<Rightarrow> string list \<Rightarrow> bool" where
  "prepared jobs A authorized packages \<longleftrightarrow>
     distinct packages \<and>
     (\<forall>p \<in> set packages. map_of authorized p = A p \<and> A p \<noteq> None \<and> (\<exists>j. map_of jobs p = Some j \<and> bj_package j = p))"

lemma wave_inv_start:
  assumes "prepared jobs A authorized packages" "\<forall>q. q \<notin> set packages \<longrightarrow> map_of authorized q = A q"
  shows "wave_inv env c jobs A packages (wave_start packages authorized)"
proof -
  have "accounts env jobs A [] summary_default" by (simp add: accounts_def summary_default_def)
  then show ?thesis using assms by (auto simp: wave_inv_def prepared_def wave_start_def intro!: exI [of _ "[]"])
qed

lemma concurrency_pos: "concurrency_for_level m (length ps) > 0 \<or> ps = []"
  by (auto simp: concurrency_for_level_def)

lemma build_level_spec:
  assumes "prepared jobs A authorized packages" "\<forall>q. q \<notin> set packages \<longrightarrow> map_of authorized q = A q"
    "build_level env m packages jobs schedule authorized = r"
  shows "(\<exists>e. r = Inl (ExternalError e)) \<or> (\<exists>sm authorized'. r = Inr (sm, authorized') \<and>
    accounts env jobs A packages sm \<and> (\<forall>q. q \<notin> set packages \<longrightarrow> map_of authorized' q = A q))"
proof -
  let ?s = "wave_start packages authorized"
  let ?c = "concurrency_for_level m (length packages)"
  obtain s' where s': "wave_loop env ?c jobs schedule ?s = Inr s'" "(wave_step env ?c jobs)\<^sup>*\<^sup>* ?s s'"
    "ws_pending s' = []" "ws_flight s' = []"
    using wave_loop_steps [OF wave_inv_start [OF assms(1,2)] concurrency_pos] by blast
  have inv: "wave_inv env ?c jobs A packages s'" using wave_steps_inv [OF s'(2) wave_inv_start [OF assms(1,2)]] .
  then have "accounts env jobs A packages (ws_summary s')" using s'(3,4) by (rule wave_done)
  moreover have "\<forall>q. q \<notin> set packages \<longrightarrow> map_of (ws_authorized s') q = A q" using inv by (simp add: wave_inv_def)
  ultimately show ?thesis
    using assms(3) s'(1) by (auto simp: build_level_def split: sum.splits)
qed

lemma skip_all_spec:
  "skip_all jobs ps s = Inr s' \<Longrightarrow>
   bs_succeeded s' = bs_succeeded s \<and> bs_failed s' = bs_failed s \<and> mset (bs_skipped s') = mset (bs_skipped s) + outs jobs ps"
proof (induction ps arbitrary: s)
  case (Cons p ps)
  then obtain j where j: "map_of jobs p = Some j" "skip_all jobs ps (record_skipped j s) = Inr s'"
    by (auto split: option.splits)
  from Cons.IH [OF j(2)] j(1) show ?case by (simp add: record_skipped_def outs_def ac_simps)
qed (simp add: outs_def)

lemma accounts_cong:
  assumes "\<forall>p \<in> set ps. A p = B p"
  shows "accounts env jobs A ps s = accounts env jobs B ps s"
proof -
  have "filter (built env A) ps = filter (built env B) ps"
    "filter (\<lambda>p. \<not> built env A p) ps = filter (\<lambda>p. \<not> built env B p) ps"
    using assms by (auto intro!: filter_cong simp: built_def)
  then show ?thesis by (simp add: accounts_def)
qed

lemma outs_empty:
  assumes "outs jobs ps = {#}" "\<forall>p \<in> set ps. \<exists>j. map_of jobs p = Some j \<and> bj_outputs j \<noteq> []"
  shows "ps = []"
  using assms by (cases ps) (auto simp: outs_def)

definition ran :: "'a build_env \<Rightarrow> (string \<times> build_job) list \<Rightarrow> (string \<rightharpoonup> 'a) \<Rightarrow> build_summary \<Rightarrow> string list list \<Rightarrow> nat \<Rightarrow> build_summary \<Rightarrow> bool" where
  "ran env jobs A s0 levels k s \<longleftrightarrow>
     k \<le> length levels \<and>
     mset (bs_succeeded s) = mset (bs_succeeded s0) + outs jobs (filter (built env A) (concat (take k levels))) \<and>
     mset (bs_failed s) = mset (bs_failed s0) + outs jobs (filter (\<lambda>p. \<not> built env A p) (concat (take k levels))) \<and>
     mset (bs_skipped s) = mset (bs_skipped s0) + outs jobs (concat (drop k levels)) \<and>
     (\<forall>i < k - 1. \<forall>p \<in> set (levels ! i). built env A p) \<and>
     (concat (drop k levels) \<noteq> [] \<longrightarrow> (\<exists>p \<in> set (concat (take k levels)). \<not> built env A p))"

lemma run_waves_spec:
  assumes "run_waves env m jobs schedules i levels authorized s0 = Inr s"
    "prepared jobs A authorized (concat levels)"
    "\<forall>p \<in> set (concat levels). \<exists>j. map_of jobs p = Some j \<and> bj_outputs j \<noteq> []"
  shows "\<exists>k. ran env jobs A s0 levels k s"
  using assms
proof (induction levels arbitrary: i authorized s0)
  case Nil
  then show ?case by (auto simp: ran_def)
next
  case (Cons level later)
  let ?B = "map_of authorized"
  have AB: "\<forall>p \<in> set level. ?B p = A p" using Cons.prems(2) by (auto simp: prepared_def)
  have prep: "prepared jobs ?B authorized level" using Cons.prems(2) by (auto simp: prepared_def)
  obtain sm authorized' where lev: "build_level env m level jobs (schedules i) authorized = Inr (sm, authorized')"
    using Cons.prems(1) by (auto split: sum.splits)
  have acc: "accounts env jobs A level sm" and auth: "\<forall>q. q \<notin> set level \<longrightarrow> map_of authorized' q = ?B q"
    using build_level_spec [OF prep _ lev] accounts_cong [OF AB] by auto
  let ?s = "merge_summary s0 sm"
  have sum: "mset (bs_succeeded ?s) = mset (bs_succeeded s0) + outs jobs (filter (built env A) level)"
    "mset (bs_failed ?s) = mset (bs_failed s0) + outs jobs (filter (\<lambda>p. \<not> built env A p) level)"
    "bs_skipped ?s = bs_skipped s0"
    using acc by (simp_all add: accounts_def merge_summary_def)
  have outputs: "\<forall>p \<in> set (filter (\<lambda>p. \<not> built env A p) level). \<exists>j. map_of jobs p = Some j \<and> bj_outputs j \<noteq> []"
    using Cons.prems(3) by simp
  show ?case
  proof (cases "failed_output_count sm > 0")
    case True
    then have "skip_all jobs (concat later) ?s = Inr s" using Cons.prems(1) lev by (simp add: Let_def)
    note skip = skip_all_spec [OF this]
    have "outs jobs (filter (\<lambda>p. \<not> built env A p) level) \<noteq> {#}"
      using True acc by (auto simp: failed_output_count_def accounts_def)
    then have "\<exists>p \<in> set level. \<not> built env A p" by (metis filter_False outs_append(2))
    with skip sum show ?thesis unfolding ran_def by (intro exI [of _ 1]) simp
  next
    case False
    then have rest: "run_waves env m jobs schedules (Suc i) later authorized' ?s = Inr s"
      using Cons.prems(1) lev by (simp add: Let_def)
    have "outs jobs (filter (\<lambda>p. \<not> built env A p) level) = {#}"
      using False acc by (auto simp: failed_output_count_def accounts_def)
    then have all: "\<forall>p \<in> set level. built env A p"
      using outs_empty [OF _ outputs] by (metis (mono_tags, lifting) filter_empty_conv)
    have "p \<notin> set level" if "p \<in> set (concat later)" for p
      using that Cons.prems(2) by (auto simp: prepared_def)
    then have "map_of authorized' p = A p" if "p \<in> set (concat later)" for p
      using that auth Cons.prems(2) by (metis UnCI concat.simps(2) prepared_def set_append)
    then have "prepared jobs A authorized' (concat later)"
      using Cons.prems(2) unfolding prepared_def by simp
    from Cons.IH [OF rest this] Cons.prems(3) obtain k where k: "ran env jobs A ?s later k s" by auto
    have early: "built env A p" if "n < k - 1" "p \<in> set (later ! n)" for n p using k that unfolding ran_def by blast
    have "built env A p" if "n < Suc k - 1" "p \<in> set ((level # later) ! n)" for n p
      using that all early [of "n - 1" p] by (cases n) auto
    with k sum show ?thesis
      unfolding ran_def by (intro exI [of _ "Suc k"]) (auto simp: ac_simps)
  qed
qed

lemma authorize_all_spec:
  "authorize_all env jobs ps acc = Inr acc' \<Longrightarrow> distinct ps \<Longrightarrow>
   (\<forall>p \<in> set ps. \<exists>j a. map_of jobs p = Some j \<and> be_authorize env (bj_package j) (bj_outputs j) = Inr a \<and>
      map_of acc' p = Some a) \<and>
   (\<forall>q. q \<notin> set ps \<longrightarrow> map_of acc' q = map_of acc q)"
proof (induction ps arbitrary: acc)
  case (Cons p ps)
  then obtain j a where j: "map_of jobs p = Some j" "be_authorize env (bj_package j) (bj_outputs j) = Inr a"
    "authorize_all env jobs ps (AList.update p a acc) = Inr acc'"
    by (auto split: option.splits sum.splits)
  have "map_of acc' p = Some a" using Cons.IH [OF j(3)] Cons.prems(2) by (simp add: update_conv')
  with Cons.IH [OF j(3)] Cons.prems(2) j(1,2) show ?case by (auto simp: update_conv')
qed simp

section \<open>Properties\<close>

text \<open>Whether the package base of a job can be authorized and builds.\<close>

definition job_builds :: "'a build_env \<Rightarrow> build_job \<Rightarrow> bool" where
  "job_builds env j =
     (case be_authorize env (bj_package j) (bj_outputs j) of Inl _ \<Rightarrow> False | Inr a \<Rightarrow> is_ok (be_build env a))"

abbreviation outputs_of :: "build_job list \<Rightarrow> string multiset" where
  "outputs_of js \<equiv> mset (concat (map bj_outputs js))"

lemma outs_jobs:
  assumes "distinct (map bj_package jobs)" "set js \<subseteq> set jobs"
  shows "outs (jobs_by_package jobs) (map bj_package js) = outputs_of js"
  using assms(2)
proof (induction js)
  case (Cons j js)
  then have "map_of (jobs_by_package jobs) (bj_package j) = Some j"
    using assms(1) by (subst jobs_by_package_eq) (auto simp: map_of_jobs)
  with Cons show ?case by (simp add: outs_def)
qed (simp add: outs_def)

lemma names_of_jobs:
  assumes "set ps \<subseteq> bj_package ` set jobs"
  shows "\<exists>js. set js \<subseteq> set jobs \<and> map bj_package js = ps"
  using assms
proof (induction ps)
  case (Cons p ps)
  then obtain j js where "j \<in> set jobs" "bj_package j = p" "set js \<subseteq> set jobs" "map bj_package js = ps" by auto
  then show ?case by (intro exI [of _ "j # js"]) simp
qed simp

lemma build_packages_runs:
  assumes "build_packages env m schedules jobs = Inr s" "\<forall>j \<in> set jobs. bj_outputs j \<noteq> []" "jobs \<noteq> []"
  obtains levels A k where "distinct (map bj_package jobs)" "layered (build_dependency_graph jobs) {} levels"
    "distinct (concat levels)" "set (concat levels) = bj_package ` set jobs"
    "\<forall>j \<in> set jobs. built env A (bj_package j) \<longleftrightarrow> job_builds env j"
    "ran env (jobs_by_package jobs) A summary_default levels k s"
proof -
  let ?J = "jobs_by_package jobs" and ?g = "build_dependency_graph jobs"
  obtain levels authorized where dist: "distinct (map bj_package jobs)" and lev: "topological_levels ?g = Inr levels"
    and auth: "authorize_all env ?J (concat levels) [] = Inr authorized"
    and run: "run_waves env (max m 1) ?J schedules 0 levels authorized summary_default = Inr s"
    using assms(1,3) by (auto simp: build_packages_def Let_def validate_unique_Inr)
  note new = topological_levels_Inr [OF lev]
  have d: "distinct (concat levels)" "set (concat levels) = bj_package ` set jobs"
    using new(1,2) graph_deps(1) [OF dist] dist by simp_all
  have job: "map_of ?J p = Some j \<longleftrightarrow> j \<in> set jobs \<and> bj_package j = p" for p j
    using dist by (auto simp: jobs_by_package_eq map_of_jobs)
  note au = authorize_all_spec [OF auth d(1)]
  have prep: "prepared ?J (map_of authorized) authorized (concat levels)"
    using au d job unfolding prepared_def by (metis option.distinct(1))
  have "\<forall>p \<in> set (concat levels). \<exists>j. map_of ?J p = Some j \<and> bj_outputs j \<noteq> []"
    using d(2) assms(2) job by (metis imageE)
  from run_waves_spec [OF run prep this] obtain k where k: "ran env ?J (map_of authorized) summary_default levels k s" ..
  have "\<forall>j \<in> set jobs. built env (map_of authorized) (bj_package j) \<longleftrightarrow> job_builds env j"
  proof
    fix j
    assume j: "j \<in> set jobs"
    then have "bj_package j \<in> set (concat levels)" using d(2) by simp
    then obtain j' a where "map_of ?J (bj_package j) = Some j'" "be_authorize env (bj_package j') (bj_outputs j') = Inr a"
      "map_of authorized (bj_package j) = Some a"
      using au by blast
    moreover have "map_of ?J (bj_package j) = Some j" using job j by simp
    ultimately show "built env (map_of authorized) (bj_package j) \<longleftrightarrow> job_builds env j"
      by (simp add: built_def job_builds_def)
  qed
  with that dist new d k show ?thesis by blast
qed

text \<open>A list of names that is the jobs' names in some order, cut in two, is the jobs cut in two.\<close>

lemma split_jobs:
  assumes "distinct (map bj_package jobs)" "distinct (ps @ qs)" "set (ps @ qs) = bj_package ` set jobs"
  obtains tried skipped where "mset tried + mset skipped = mset jobs" "map bj_package tried = ps" "map bj_package skipped = qs"
    "set tried \<subseteq> set jobs" "set skipped \<subseteq> set jobs"
proof -
  obtain tried where tr: "set tried \<subseteq> set jobs" "map bj_package tried = ps"
    using names_of_jobs [of ps jobs] assms(3) by auto
  obtain skipped where sk: "set skipped \<subseteq> set jobs" "map bj_package skipped = qs"
    using names_of_jobs [of qs jobs] assms(3) by auto
  have names: "map bj_package (tried @ skipped) = ps @ qs" using tr(2) sk(2) by simp
  have "bj_package ` set (tried @ skipped) = bj_package ` set jobs" using names assms(3) by (metis list.set_map)
  then have "set (tried @ skipped) = set jobs"
    using assms(1) tr(1) sk(1) by (metis Un_least distinct_map inj_on_image_eq_iff order_refl set_append)
  moreover have "distinct (tried @ skipped)" using names assms(2) by (metis distinct_map)
  moreover have "distinct jobs" using assms(1) by (simp add: distinct_map)
  ultimately have "mset tried + mset skipped = mset jobs" by (metis mset_append set_eq_iff_mset_eq_distinct)
  with that tr sk show ?thesis by blast
qed

lemma tried_dependencies:
  assumes dist: "distinct (map bj_package jobs)" and lay: "layered (build_dependency_graph jobs) {} levels"
    and dl: "distinct (concat levels)" and bu: "\<forall>j \<in> set jobs. built env A (bj_package j) \<longleftrightarrow> job_builds env j"
    and ran: "ran env J A s0 levels k s"
    and tr: "set tried \<subseteq> set jobs" "map bj_package tried = concat (take k levels)"
    and j: "j \<in> set tried" and d: "d \<in> set jobs" and dep: "bj_package d \<in> set (bj_dependencies j)"
  shows "d \<in> set tried \<and> job_builds env d"
proof -
  have "bj_package j \<in> set (concat (take k levels))" using j tr(2) by (metis imageI list.set_map)
  then obtain i where i: "i < k" "i < length levels" "bj_package j \<in> set (levels ! i)"
    by (auto simp: in_set_conv_nth [of _ "take k levels"])
  have "bj_package d \<in> deps_of (build_dependency_graph jobs) (bj_package j)"
    using j d dep tr(1) by (auto simp: graph_deps(2) [OF dist])
  then obtain i' where i': "i' < i" "bj_package d \<in> set (levels ! i')"
    using layered_rank [OF lay dl i(3,2)] by blast
  have "i' < k - 1" using i(1) i'(1) by linarith
  then have "job_builds env d" using ran i'(2) bu d unfolding ran_def by blast
  moreover have "levels ! i' \<in> set (take k levels)" 
    using i(1,2) i'(1) nth_mem [of i' "take k levels"] by simp
  then have "bj_package d \<in> set (concat (take k levels))" using i'(2) unfolding set_concat by (rule UN_I)
  then obtain t where t: "t \<in> set tried" "bj_package t = bj_package d"
    unfolding tr(2) [symmetric] list.set_map by (elim imageE) simp
  have "inj_on bj_package (set jobs)" using dist by (simp add: distinct_map)
  then have "t = d" using t(2) subsetD [OF tr(1) t(1)] d by (rule inj_onD)
  then have "d \<in> set tried" using t(1) by simp
  ultimately show ?thesis by blast
qed

lemma build_packages_accounts:
  assumes "build_packages env m schedules jobs = Inr s" "\<forall>j \<in> set jobs. bj_outputs j \<noteq> []"
  shows "\<exists>tried skipped. mset tried + mset skipped = mset jobs \<and>
    mset (bs_succeeded s) = outputs_of (filter (job_builds env) tried) \<and>
    mset (bs_failed s) = outputs_of (filter (\<lambda>j. \<not> job_builds env j) tried) \<and>
    mset (bs_skipped s) = outputs_of skipped \<and>
    (\<forall>j \<in> set tried. \<forall>d \<in> set jobs. bj_package d \<in> set (bj_dependencies j) \<longrightarrow> d \<in> set tried \<and> job_builds env d) \<and>
    (skipped \<noteq> [] \<longrightarrow> (\<exists>j \<in> set tried. \<not> job_builds env j))"
proof (cases "jobs = []")
  case True
  then show ?thesis using assms(1) by (auto simp: build_packages_def summary_default_def)
next
  case False
  obtain levels A k where dist: "distinct (map bj_package jobs)" and lay: "layered (build_dependency_graph jobs) {} levels"
    and dl: "distinct (concat levels)" and sl: "set (concat levels) = bj_package ` set jobs"
    and bu: "\<forall>j \<in> set jobs. built env A (bj_package j) \<longleftrightarrow> job_builds env j"
    and ran: "ran env (jobs_by_package jobs) A summary_default levels k s"
    using build_packages_runs [OF assms False] by metis
  have parts: "concat (take k levels) @ concat (drop k levels) = concat levels"
    by (metis append_take_drop_id concat_append)
  obtain tried skipped where ms: "mset tried + mset skipped = mset jobs"
    and tr: "map bj_package tried = concat (take k levels)" "set tried \<subseteq> set jobs"
    and sk: "map bj_package skipped = concat (drop k levels)" "set skipped \<subseteq> set jobs"
    by (rule split_jobs [OF dist, of "concat (take k levels)" "concat (drop k levels)"]) (use dl sl parts in simp_all)
  have fil: "filter (built env A) (map bj_package tried) = map bj_package (filter (job_builds env) tried)"
    "filter (\<lambda>p. \<not> built env A p) (map bj_package tried) = map bj_package (filter (\<lambda>j. \<not> job_builds env j) tried)"
    using bu tr(2) by (auto simp: filter_map comp_def intro!: arg_cong [where f = "map bj_package"] filter_cong)
  have outs: "mset (bs_succeeded s) = outputs_of (filter (job_builds env) tried)"
    "mset (bs_failed s) = outputs_of (filter (\<lambda>j. \<not> job_builds env j) tried)"
    "mset (bs_skipped s) = outputs_of skipped"
    using ran tr sk fil outs_jobs [OF dist, of "filter (job_builds env) tried"]
      outs_jobs [OF dist, of "filter (\<lambda>j. \<not> job_builds env j) tried"] outs_jobs [OF dist, of skipped]
    by (auto simp: ran_def summary_default_def)
  have "\<exists>j \<in> set tried. \<not> job_builds env j" if "skipped \<noteq> []"
  proof -
    have "concat (drop k levels) \<noteq> []" using that unfolding sk(1) [symmetric] by simp
    then obtain p where p: "p \<in> set (concat (take k levels))" "\<not> built env A p" using ran unfolding ran_def by blast
    then obtain j where "j \<in> set tried" "bj_package j = p" using tr(1) by (metis imageE list.set_map)
    with p(2) show ?thesis using bu tr(2) by blast
  qed
  with ms outs tried_dependencies [OF dist lay dl bu ran tr(2,1)] show ?thesis by blast
qed

text \<open>
  C9: every output is accounted for, whatever order concurrent builds finish in, when every job has an
  output. A run that returns splits the jobs into those it tried and those it skipped: the outputs of tried jobs that build are
  reported as succeeded, those of tried jobs that do not as failed, those of skipped jobs as skipped,
  each exactly once. A job was tried only after every job of the set it depends on was tried and
  built, and jobs are skipped only when some tried job did not build.
\<close>

theorem build_accounts_for_every_output:
  assumes "build_packages env m schedules jobs = Inr s" "\<forall>j \<in> set jobs. bj_outputs j \<noteq> []"
  shows "\<exists>tried skipped. mset tried + mset skipped = mset jobs \<and>
    mset (bs_succeeded s) = outputs_of (filter (job_builds env) tried) \<and>
    mset (bs_failed s) = outputs_of (filter (\<lambda>j. \<not> job_builds env j) tried) \<and>
    mset (bs_skipped s) = outputs_of skipped \<and>
    (\<forall>j \<in> set tried. \<forall>d \<in> set jobs. bj_package d \<in> set (bj_dependencies j) \<longrightarrow> d \<in> set tried \<and> job_builds env d) \<and>
    (skipped \<noteq> [] \<longrightarrow> (\<exists>j \<in> set tried. \<not> job_builds env j))"
  by (rule build_packages_accounts [OF assms])

text \<open>
  The waves of distinct jobs exist exactly when no job depends on itself through others;
  otherwise the error is a circular dependency. Together the waves hold every package base exactly
  once, none is empty, and every package base comes in a later wave than all of its dependencies.
\<close>

theorem waves_order_dependencies:
  assumes "distinct (map bj_package jobs)"
  shows "(is_ok (topological_levels (build_dependency_graph jobs)) \<longleftrightarrow> acyclic (dep_pairs (build_dependency_graph jobs))) \<and>
    (\<forall>e. topological_levels (build_dependency_graph jobs) = Inl e \<longrightarrow> (\<exists>ps. e = CircularDependency ps)) \<and>
    (\<forall>levels. topological_levels (build_dependency_graph jobs) = Inr levels \<longrightarrow>
      distinct (concat levels) \<and> set (concat levels) = bj_package ` set jobs \<and> [] \<notin> set levels \<and>
      (\<forall>i < length levels. \<forall>j \<in> set jobs. \<forall>d \<in> set jobs.
        bj_package j \<in> set (levels ! i) \<and> bj_package d \<in> set (bj_dependencies j) \<longrightarrow>
          (\<exists>i' < i. bj_package d \<in> set (levels ! i'))))"
proof -
  let ?g = "build_dependency_graph jobs"
  have err: "\<exists>ps. e = CircularDependency ps" if "topological_levels ?g = Inl e" for e
    using levels_loop_Inl [OF that [unfolded topological_levels_def]] by blast
  have ok: "distinct (concat levels) \<and> set (concat levels) = bj_package ` set jobs \<and> layered ?g {} levels"
    if "topological_levels ?g = Inr levels" for levels
    using topological_levels_Inr [OF that] graph_deps(1) [OF assms] assms by simp
  have nonempty: "[] \<notin> set levels" if "layered ?g {} levels" for levels
    using that by (auto simp: layered_def in_set_conv_nth)
  have later: "\<exists>i' < i. bj_package d \<in> set (levels ! i')"
    if "topological_levels ?g = Inr levels" "i < length levels" "j \<in> set jobs" "d \<in> set jobs"
      "bj_package j \<in> set (levels ! i)" "bj_package d \<in> set (bj_dependencies j)" for levels i j d
  proof -
    have "bj_package d \<in> deps_of ?g (bj_package j)" using that(3,4,6) by (auto simp: graph_deps(2) [OF assms])
    then show ?thesis using layered_rank [OF _ _ that(5,2)] ok [OF that(1)] by blast
  qed
  show ?thesis using topological_levels_ok [OF assms] err ok nonempty later by meson
qed

text \<open>
  C11: every interleaving of a wave behaves. From the start of a wave, whatever builds finish first,
  never more than the configured number of builds are in flight (one, if that is zero); each step
  makes progress; a state without a next step has finished every package of the wave and reports
  each under the result of its build; and the loop of the builder reaches such a state, for every
  order in which builds finish.
\<close>

theorem every_interleaving_of_a_wave_finishes:
  assumes "prepared jobs (map_of authorized) authorized packages"
    and "(wave_step env (concurrency_for_level m (length packages)) jobs)\<^sup>*\<^sup>* (wave_start packages authorized) s"
  shows "length (ws_flight s) \<le> max m 1 \<and>
    (\<forall>s'. wave_step env (concurrency_for_level m (length packages)) jobs s s' \<longrightarrow>
      2 * length (ws_pending s') + length (ws_flight s') < 2 * length (ws_pending s) + length (ws_flight s)) \<and>
    ((\<nexists>s'. wave_step env (concurrency_for_level m (length packages)) jobs s s') \<longrightarrow>
      accounts env jobs (map_of authorized) packages (ws_summary s)) \<and>
    (\<exists>s'. wave_loop env (concurrency_for_level m (length packages)) jobs schedule (wave_start packages authorized) = Inr s' \<and>
      (wave_step env (concurrency_for_level m (length packages)) jobs)\<^sup>*\<^sup>* (wave_start packages authorized) s' \<and>
      (\<nexists>s''. wave_step env (concurrency_for_level m (length packages)) jobs s' s''))"
proof -
  let ?c = "concurrency_for_level m (length packages)"
  have inv0: "wave_inv env ?c jobs (map_of authorized) packages (wave_start packages authorized)"
    using assms(1) by (intro wave_inv_start) auto
  have inv: "wave_inv env ?c jobs (map_of authorized) packages s" using wave_steps_inv [OF assms(2) inv0] .
  have "length (ws_flight s) \<le> max m 1"
    using inv by (simp add: wave_inv_def concurrency_for_level_def)
  moreover have "accounts env jobs (map_of authorized) packages (ws_summary s)"
    if "\<nexists>s'. wave_step env ?c jobs s s'"
    using wave_not_stuck [OF inv concurrency_pos that] wave_done [OF inv] by blast
  moreover obtain s' where s': "wave_loop env ?c jobs schedule (wave_start packages authorized) = Inr s'"
    "(wave_step env ?c jobs)\<^sup>*\<^sup>* (wave_start packages authorized) s'" "ws_pending s' = []" "ws_flight s' = []"
    using wave_loop_steps [OF inv0 concurrency_pos] by blast
  moreover have "\<nexists>s''. wave_step env ?c jobs s' s''" using s'(3,4) by (auto elim!: wave_stepE)
  ultimately show ?thesis using wave_step_measure by blast
qed

section \<open>Examples\<close>

text \<open>Two jobs, the second of which needs the first, whose build fails when its name is \<open>bad\<close>.\<close>

definition example_env :: "string build_env" where
  "example_env =
     \<lparr>be_requires_review = False, be_attended = False, be_authorize = (\<lambda>p outputs. Inr p), be_can_write_db = True,
      be_preacquire = Inr (), be_build = (\<lambda>p. if p = ''bad'' then Inl ''broken'' else Inr [p]),
      be_install = (\<lambda>archives. Inr ())\<rparr>"

definition example_jobs :: "build_job list" where
  "example_jobs = [build_job_new ''app'' [''bad'', ''glibc''], build_job_new ''bad'' [], build_job_new ''lib'' []]"

lemma example_outcome:
  "build_packages example_env 0 (\<lambda>i. [1]) example_jobs =
     Inr \<lparr>bs_succeeded = [''lib''], bs_failed = [''bad''], bs_skipped = [''app''], bs_failures = [(''bad'', ''broken'')]\<rparr>"
  by code_simp

theorem build_accounts_for_every_output_witness:
  "\<exists>s tried skipped. build_packages example_env 0 (\<lambda>i. [1]) example_jobs = Inr s \<and>
     mset tried + mset skipped = mset example_jobs \<and> mset (bs_skipped s) = outputs_of skipped"
proof -
  have "\<forall>j \<in> set example_jobs. bj_outputs j \<noteq> []" by (simp add: example_jobs_def build_job_new_def)
  from build_accounts_for_every_output [OF example_outcome this] example_outcome show ?thesis by blast
qed

theorem waves_order_dependencies_witness:
  "\<exists>levels. topological_levels (build_dependency_graph example_jobs) = Inr levels \<and> distinct (concat levels) \<and>
     acyclic (dep_pairs (build_dependency_graph example_jobs))"
proof -
  have lev: "topological_levels (build_dependency_graph example_jobs) = Inr [[''bad'', ''lib''], [''app'']]" by code_simp
  have "distinct (map bj_package example_jobs)" by code_simp
  from waves_order_dependencies [OF this] lev show ?thesis by simp
qed

theorem every_interleaving_of_a_wave_finishes_witness:
  "length (ws_flight (wave_start [''lib'', ''bad''] [(''lib'', ''lib''), (''bad'', ''bad'')])) \<le> max 0 1 \<and>
   (\<exists>s'. wave_loop example_env 1 (jobs_by_package example_jobs) []
      (wave_start [''lib'', ''bad''] [(''lib'', ''lib''), (''bad'', ''bad'')]) = Inr s')"
proof -
  let ?a = "[(''lib'', ''lib''), (''bad'', ''bad'')]" and ?J = "jobs_by_package example_jobs"
  have "map_of ?J ''lib'' = Some (build_job_new ''lib'' [])" "map_of ?J ''bad'' = Some (build_job_new ''bad'' [])"
    by code_simp+
  then have "prepared ?J (map_of ?a) ?a [''lib'', ''bad'']" by (simp add: prepared_def build_job_new_def)
  moreover have "concurrency_for_level 0 (length [''lib'', ''bad'']) = 1" by (simp add: concurrency_for_level_def)
  ultimately show ?thesis
    using every_interleaving_of_a_wave_finishes [of ?J ?a "[''lib'', ''bad'']" example_env 0 "wave_start [''lib'', ''bad''] ?a" "[]"]
    by (metis rtranclp.rtrancl_refl)
qed

end
