(* ===== verification/Aur_Deps.thy ===== *)
theory Aur_Deps
  imports Aur_Waves Input_Validation
begin

text \<open>
  From AUR metadata to build jobs: the dependency plan of a package base,
  \<^verbatim>\<open>package_managers/aur_deps.rs\<close>, and the construction of the jobs of an update in
  \<^verbatim>\<open>package_managers/aur/client.rs\<close>.

  A parsed \<^verbatim>\<open>.SRCINFO\<close> is the record
  \<open>srcinfo\<close>, with the packages as the parser merges them for the host architecture. The libalpm
  operations (parsing of a dependency expression, version comparison, searching the databases for
  a package that satisfies an expression), the AUR service and percent-encoding are arguments.
\<close>

section \<open>The dependency plan of a package base\<close>

record source_package =
  sp_version :: string
  sp_dependencies :: "string list"
  sp_make_dependencies :: "string list"
  sp_check_dependencies :: "string list"

record srcinfo =
  si_package_names :: "string list"
  si_host_packages :: "(string \<times> source_package) list"

datatype depmod = ModAny | ModEq | ModGe | ModLe | ModGt | ModLt

record alpm_env =
  alpm_depend :: "string \<Rightarrow> depmod \<times> string option"
  alpm_vercmp :: "string \<Rightarrow> string \<Rightarrow> ordering"

datatype plan_error =
    AbsentOutput string
  | SiblingVersion string string string
  | SiblingUnavailable string string
  | SameBaseBuildInputs "string list"
  | UnsupportedArchitecture
  | SrcinfoError string
  | PlanPanic
  | NoSrcinfo string
  | InfoError string
  | Unresolvable "string list"

definition dependency_name :: "string \<Rightarrow> string" where
  "dependency_name dependency = takeWhile (\<lambda>c. c \<notin> {CHR ''>'', CHR ''<'', CHR ''=''}) dependency"

definition output_version_satisfies :: "alpm_env \<Rightarrow> string \<Rightarrow> string \<Rightarrow> bool" where
  "output_version_satisfies alpm dependency candidate =
     (case alpm_depend alpm dependency of
        (_, None) \<Rightarrow> True
      | (depmod, Some required) \<Rightarrow>
          let comparison = alpm_vercmp alpm candidate required
          in (case depmod of
                ModAny \<Rightarrow> True
              | ModEq \<Rightarrow> comparison = Equal
              | ModGe \<Rightarrow> comparison \<noteq> Less
              | ModLe \<Rightarrow> comparison \<noteq> Greater
              | ModGt \<Rightarrow> comparison = Greater
              | ModLt \<Rightarrow> comparison = Less))"

type_synonym packages = "(string \<times> source_package) list"

text \<open>The inner loop over the dependencies of one output; the state is the selected and the pending outputs.\<close>

fun select_siblings ::
  "alpm_env \<Rightarrow> string list \<Rightarrow> packages \<Rightarrow> string \<Rightarrow> string list \<Rightarrow> string list \<times> string list \<Rightarrow>
     (plan_error, string list \<times> string list) result" where
  "select_siblings alpm names packages output [] st = Inr st"
| "select_siblings alpm names packages output (dependency # rest) (selected, pending) =
     (let name = dependency_name dependency
      in case map_of packages name of
           Some sibling \<Rightarrow>
             rbind (ensure (output_version_satisfies alpm dependency (sp_version sibling))
                (SiblingVersion dependency name (sp_version sibling))) (\<lambda>_.
             select_siblings alpm names packages output rest
               (if name \<in> set selected then (selected, pending)
                else (btree_insert name selected, name # pending)))
         | None \<Rightarrow>
             rbind (ensure (name \<notin> set names) (SiblingUnavailable name output)) (\<lambda>_.
             select_siblings alpm names packages output rest (selected, pending)))"

text \<open>Outputs not yet selected; every new selection takes one away.\<close>

definition unselected :: "packages \<Rightarrow> string list \<Rightarrow> nat" where
  "unselected packages selected = card (fst ` set packages - set selected)"

lemma select_siblings_measure:
  "select_siblings alpm names packages output deps (selected, pending) = Inr (selected', pending') \<Longrightarrow>
     unselected packages selected' + length pending' \<le> unselected packages selected + length pending
     \<and> (unselected packages selected' < unselected packages selected \<or> (selected', pending') = (selected, pending))"
proof (induction deps arbitrary: selected pending)
  case (Cons d deps)
  let ?n = "dependency_name d"
  show ?case
  proof (cases "\<exists>s. map_of packages ?n = Some s \<and> ?n \<notin> set selected")
    case True
    then have n: "?n \<in> fst ` set packages - set selected" by (force dest: map_of_SomeD)
    have "unselected packages (btree_insert ?n selected) < unselected packages selected"
      unfolding unselected_def by (rule psubset_card_mono) (use n in auto)
    then show ?thesis using Cons True by (fastforce simp: Let_def)
  next
    case False
    then show ?thesis using Cons by (auto simp: Let_def split: option.splits if_splits)
  qed
qed simp

function close_outputs ::
  "alpm_env \<Rightarrow> string list \<Rightarrow> packages \<Rightarrow> string list \<Rightarrow> string list \<Rightarrow> (plan_error, string list) result" where
  "close_outputs alpm names packages selected [] = Inr selected"
| "close_outputs alpm names packages selected (output # pending) =
     (case map_of packages output of
        None \<Rightarrow> Inl PlanPanic
      | Some package \<Rightarrow>
          (case select_siblings alpm names packages output (sp_dependencies package) (selected, pending) of
             Inl e \<Rightarrow> Inl e
           | Inr (selected', pending') \<Rightarrow> close_outputs alpm names packages selected' pending'))"
  by pat_completeness auto

termination close_outputs
proof (relation "measures [\<lambda>(alpm, names, packages, selected, pending). unselected packages selected,
    \<lambda>(alpm, names, packages, selected, pending). length pending]", goal_cases)
  case (2 alpm names packages selected out pending package st selected' pending')
  then show ?case using select_siblings_measure [of alpm names packages out] by fastforce
qed simp

text \<open>The dependency expressions to satisfy before building the selected outputs.\<close>

definition output_dependencies :: "string list \<Rightarrow> source_package \<Rightarrow> string list" where
  "output_dependencies all_outputs package =
     filter (\<lambda>d. dependency_name d \<notin> set all_outputs) (sp_dependencies package)
     @ sp_make_dependencies package @ sp_check_dependencies package"

text \<open>Collected into a \<^verbatim>\<open>BTreeMap\<close>, the last package of a name stays.\<close>

definition host_packages :: "srcinfo \<Rightarrow> (string \<times> source_package) list" where
  "host_packages si = rev (si_host_packages si)"

definition dependency_plan ::
  "alpm_env \<Rightarrow> bool \<Rightarrow> srcinfo \<Rightarrow> string list \<Rightarrow> (plan_error, string list \<times> string list) result" where
  "dependency_plan alpm supported srcinfo requested_outputs =
     rbind (ensure supported UnsupportedArchitecture) (\<lambda>_.
     let packages = host_packages srcinfo;
         all_outputs = btree_set (map fst packages);
         selected_outputs = (if requested_outputs = [] then all_outputs else btree_set requested_outputs)
     in rbind (for_result (\<lambda>output. ensure (output \<in> set all_outputs) (AbsentOutput output)) selected_outputs) (\<lambda>_.
        rbind (close_outputs alpm (si_package_names srcinfo) packages selected_outputs (rev selected_outputs))
          (\<lambda>selected_outputs.
        rbind (map_result (\<lambda>output. case map_of packages output of
              None \<Rightarrow> Inl PlanPanic
            | Some package \<Rightarrow> Inr (output_dependencies all_outputs package)) selected_outputs) (\<lambda>dependencies.
        Inr (remdups_adj (sort (concat dependencies)), selected_outputs)))))"


record dependency_info_result =
  di_missing :: "string list"
  di_package_outputs :: "string list"

definition dependency_info ::
  "alpm_env \<Rightarrow> bool \<Rightarrow> srcinfo \<Rightarrow> string list \<Rightarrow> (string \<Rightarrow> bool) \<Rightarrow> (plan_error, dependency_info_result) result" where
  "dependency_info alpm supported srcinfo requested_outputs is_installed =
     rbind (dependency_plan alpm supported srcinfo requested_outputs) (\<lambda>(all_deps, package_outputs).
     let missing = filter (\<lambda>d. \<not> is_installed d) all_deps;
         missing_build_inputs = filter (\<lambda>d. dependency_name d \<in> set (si_package_names srcinfo)) missing
     in rbind (ensure (missing_build_inputs = []) (SameBaseBuildInputs missing_build_inputs)) (\<lambda>_.
        Inr \<lparr>di_missing = missing, di_package_outputs = package_outputs\<rparr>))"

text \<open>\<^verbatim>\<open>read\<close>: None when the recipe has no \<^verbatim>\<open>.SRCINFO\<close>, else the result of reading and parsing it.\<close>

definition check_dependencies_for_outputs ::
  "alpm_env \<Rightarrow> bool \<Rightarrow> (string, srcinfo) result option \<Rightarrow> (string \<Rightarrow> bool) \<Rightarrow> string list \<Rightarrow>
     (plan_error, dependency_info_result) result" where
  "check_dependencies_for_outputs alpm supported read is_installed requested_outputs =
     (case read of
        None \<Rightarrow> Inr \<lparr>di_missing = [], di_package_outputs = requested_outputs\<rparr>
      | Some (Inl e) \<Rightarrow> Inl (SrcinfoError e)
      | Some (Inr srcinfo) \<Rightarrow> dependency_info alpm supported srcinfo requested_outputs is_installed)"

section \<open>Where missing dependencies come from\<close>

record dependency_plan_result =
  dp_aur :: "string list"
  dp_official :: "string list"
  dp_outputs :: "string list"

text \<open>The loop over the missing expressions, each with the official package that satisfies it, if any.\<close>

fun classify ::
  "(string \<Rightarrow> (string, bool) result) \<Rightarrow> string \<Rightarrow> (string \<times> string option) list \<Rightarrow>
     string list \<times> string list \<times> string list \<Rightarrow> (plan_error, string list \<times> string list \<times> string list) result" where
  "classify info package [] st = Inr st"
| "classify info package ((dependency, official_package) # rest) (aur, official, unresolved) =
     (let name = dependency_name dependency
      in if name = [] \<or> name = package then classify info package rest (aur, official, unresolved)
         else case official_package of
                Some p \<Rightarrow> classify info package rest (aur, official @ [p], unresolved)
              | None \<Rightarrow>
                  (case info name of
                     Inl e \<Rightarrow> Inl (InfoError e)
                   | Inr True \<Rightarrow> classify info package rest (aur @ [name], official, unresolved)
                   | Inr False \<Rightarrow> classify info package rest (aur, official, unresolved @ [dependency])))"

definition aur_dependency_plan ::
  "alpm_env \<Rightarrow> bool \<Rightarrow> (string, srcinfo) result option \<Rightarrow> (string \<Rightarrow> bool) \<Rightarrow> (string \<Rightarrow> string option) \<Rightarrow>
     (string \<Rightarrow> (string, bool) result) \<Rightarrow> string \<Rightarrow> string list \<Rightarrow> (plan_error, dependency_plan_result) result" where
  "aur_dependency_plan alpm supported read is_installed satisfier info package requested_outputs =
     rbind (ensure (read \<noteq> None) (NoSrcinfo package)) (\<lambda>_.
     rbind (check_dependencies_for_outputs alpm supported read is_installed requested_outputs) (\<lambda>dep_info.
     rbind (classify info package (map (\<lambda>d. (d, satisfier d)) (di_missing dep_info)) ([], [], []))
       (\<lambda>(aur, official, unresolved).
     rbind (ensure (unresolved = []) (Unresolvable unresolved)) (\<lambda>_.
     Inr \<lparr>dp_aur = remdups_adj (sort aur), dp_official = remdups_adj (sort official),
       dp_outputs = di_package_outputs dep_info\<rparr>))))"

section \<open>Requests to the AUR service\<close>

definition AUR_RPC_MAX_URI :: nat where "AUR_RPC_MAX_URI = 4400"
definition AUR_RPC_INFO_BASE_LEN :: nat where "AUR_RPC_INFO_BASE_LEN = 47"
definition AUR_RPC_URL :: string where "AUR_RPC_URL = ''https://aur.archlinux.org/rpc''"

definition arg_len :: "(string \<Rightarrow> string) \<Rightarrow> string \<Rightarrow> nat" where
  "arg_len encode name = str_len ''&arg[]='' + str_len (encode name)"

fun chunk_names ::
  "(string \<Rightarrow> string) \<Rightarrow> string list \<Rightarrow> string list list \<Rightarrow> string list \<Rightarrow> nat \<Rightarrow> string list list" where
  "chunk_names encode [] chunks current current_len = (if current \<noteq> [] then chunks @ [current] else chunks)"
| "chunk_names encode (name # names) chunks current current_len =
     (if current \<noteq> [] \<and> AUR_RPC_MAX_URI < current_len + arg_len encode name
      then chunk_names encode names (chunks @ [current]) [name] (AUR_RPC_INFO_BASE_LEN + arg_len encode name)
      else chunk_names encode names chunks (current @ [name]) (current_len + arg_len encode name))"

definition chunk_aur_names :: "(string \<Rightarrow> string) \<Rightarrow> string list \<Rightarrow> string list list" where
  "chunk_aur_names encode names = chunk_names encode names [] [] AUR_RPC_INFO_BASE_LEN"

definition rpc_info_url :: "(string \<Rightarrow> string) \<Rightarrow> string list \<Rightarrow> string" where
  "rpc_info_url encode chunk =
     fold (\<lambda>name url. url @ ''&arg[]='' @ encode name) chunk (AUR_RPC_URL @ ''?v=5&type=info'')"

section \<open>The jobs of an update\<close>

record aur_json_package =
  aj_name :: string
  aj_package_base :: "string option"
  aj_depends :: "string list option"
  aj_make_depends :: "string list option"
  aj_check_depends :: "string list option"

datatype jobs_error =
    InvalidName validation_error
  | InvalidSplitName validation_error
  | InvalidBase validation_error
  | NoInformation string
  | NoDependencyInformation string
  | RpcError string
  | JobsPanic

definition package_base_of :: "aur_json_package \<Rightarrow> string" where
  "package_base_of info = (case aj_package_base info of Some b \<Rightarrow> b | None \<Rightarrow> aj_name info)"

definition map_error :: "('e \<Rightarrow> 'f) \<Rightarrow> ('e, 'a) result \<Rightarrow> ('f, 'a) result" where
  "map_error f r = (case r of Inl e \<Rightarrow> Inl (f e) | Inr a \<Rightarrow> Inr a)"

fun index_info ::
  "aur_json_package list \<Rightarrow> (string \<times> aur_json_package) list \<times> (string \<times> string) list \<Rightarrow>
     (jobs_error, (string \<times> aur_json_package) list \<times> (string \<times> string) list) result" where
  "index_info [] st = Inr st"
| "index_info (info # infos) (info_by_name, base_by_output) =
     rbind (map_error InvalidSplitName (validate_package_name (aj_name info))) (\<lambda>_.
     rbind (map_error InvalidBase (validate_package_name (package_base_of info))) (\<lambda>_.
     index_info infos (AList.update (aj_name info) info info_by_name,
       AList.update (aj_name info) (package_base_of info) base_by_output)))"

definition info_dependencies :: "aur_json_package \<Rightarrow> string list" where
  "info_dependencies info =
     concat (map (\<lambda>l. case l of None \<Rightarrow> [] | Some ds \<Rightarrow> ds)
       [aj_depends info, aj_make_depends info, aj_check_depends info])"

definition entry_insert :: "string \<Rightarrow> string \<Rightarrow> (string \<times> string list) list \<Rightarrow> (string \<times> string list) list" where
  "entry_insert k x m = AList.update k (btree_insert x (case map_of m k of None \<Rightarrow> [] | Some xs \<Rightarrow> xs)) m"

fun add_dependencies ::
  "string list \<Rightarrow> (string \<times> string) list \<Rightarrow> string \<Rightarrow> string list \<Rightarrow> (string \<times> string list) list \<Rightarrow>
     (jobs_error, (string \<times> string list) list) result" where
  "add_dependencies requested base_by_output package_base [] dependencies_by_base = Inr dependencies_by_base"
| "add_dependencies requested base_by_output package_base (d # ds) dependencies_by_base =
     (let dependency = dependency_name d
      in if dependency \<notin> set requested
         then add_dependencies requested base_by_output package_base ds dependencies_by_base
         else case map_of base_by_output dependency of
                None \<Rightarrow> Inl (NoDependencyInformation dependency)
              | Some dependency_base \<Rightarrow>
                  add_dependencies requested base_by_output package_base ds
                    (if dependency_base \<noteq> package_base
                     then entry_insert package_base dependency_base dependencies_by_base else dependencies_by_base))"

fun collect_jobs ::
  "string list \<Rightarrow> (string \<times> aur_json_package) list \<Rightarrow> (string \<times> string) list \<Rightarrow> string list \<Rightarrow>
     (string \<times> string list) list \<times> (string \<times> string list) list \<Rightarrow>
     (jobs_error, (string \<times> string list) list \<times> (string \<times> string list) list) result" where
  "collect_jobs requested info_by_name base_by_output [] st = Inr st"
| "collect_jobs requested info_by_name base_by_output (package # packages) (outputs_by_base, dependencies_by_base) =
     (case map_of info_by_name package of
        None \<Rightarrow> Inl (NoInformation package)
      | Some info \<Rightarrow>
          (case map_of base_by_output (aj_name info) of
             None \<Rightarrow> Inl JobsPanic
           | Some package_base \<Rightarrow>
               rbind (add_dependencies requested base_by_output package_base (info_dependencies info)
                 dependencies_by_base) (\<lambda>dependencies_by_base.
               collect_jobs requested info_by_name base_by_output packages
                 (entry_insert package_base (aj_name info) outputs_by_base, dependencies_by_base))))"

definition build_jobs_from_package_info ::
  "string list \<Rightarrow> aur_json_package list \<Rightarrow> (jobs_error, build_job list) result" where
  "build_jobs_from_package_info packages package_info =
     rbind (index_info package_info ([], [])) (\<lambda>(info_by_name, base_by_output).
     rbind (collect_jobs packages info_by_name base_by_output packages ([], []))
       (\<lambda>(outputs_by_base, dependencies_by_base).
     Inr (map (\<lambda>package_base. for_package_base package_base
            (case map_of outputs_by_base package_base of None \<Rightarrow> [] | Some outputs \<Rightarrow> outputs)
            (case map_of dependencies_by_base package_base of None \<Rightarrow> [] | Some ds \<Rightarrow> ds))
          (sort (map fst outputs_by_base)))))"

definition build_jobs_for_updates ::
  "(string \<Rightarrow> string) \<Rightarrow> (string \<Rightarrow> (string, aur_json_package list) result) \<Rightarrow> string list \<Rightarrow>
     (jobs_error, build_job list) result" where
  "build_jobs_for_updates encode rpc packages =
     (if packages = [] then Inr []
      else
        rbind (map_error InvalidName (for_result validate_package_name packages)) (\<lambda>_.
        rbind (map_result (\<lambda>chunk. map_error RpcError (rpc (rpc_info_url encode chunk))) (chunk_aur_names encode packages))
          (\<lambda>results. build_jobs_from_package_info packages (concat results))))"


section \<open>The plan is the closure of the request\<close>

lemma btree_set_simps [simp]: "set (btree_set xs) = set xs" "sorted (btree_set xs)" "distinct (btree_set xs)"
proof -
  have "set (fold btree_insert xs ys) = set xs \<union> set ys \<and> (sorted ys \<longrightarrow> sorted (fold btree_insert xs ys))
      \<and> (distinct ys \<longrightarrow> distinct (fold btree_insert xs ys))" for ys
    by (induction xs arbitrary: ys) auto
  then show "set (btree_set xs) = set xs" "sorted (btree_set xs)" "distinct (btree_set xs)"
    by (simp_all add: btree_set_def)
qed

definition siblings :: "packages \<Rightarrow> (string \<times> string) set" where
  "siblings packages = {(a, b). \<exists>p. map_of packages a = Some p \<and> b \<in> dependency_name ` set (sp_dependencies p) \<and>
     b \<in> dom (map_of packages)}"

text \<open>A runtime dependency that names an output of the base is met by that output's version.\<close>

definition dependency_fits :: "alpm_env \<Rightarrow> string list \<Rightarrow> packages \<Rightarrow> string \<Rightarrow> bool" where
  "dependency_fits alpm names packages d =
     (case map_of packages (dependency_name d) of
        Some sibling \<Rightarrow> output_version_satisfies alpm d (sp_version sibling)
      | None \<Rightarrow> dependency_name d \<notin> set names)"

lemma select_siblings_Inr:
  assumes "select_siblings alpm names packages out deps (selected, pending) = Inr (selected', pending')"
  defines "N \<equiv> dependency_name ` set deps \<inter> dom (map_of packages)"
  shows "set selected' = set selected \<union> N" "set pending' = set pending \<union> (N - set selected)"
    "sorted selected \<Longrightarrow> sorted selected'" "distinct selected \<Longrightarrow> distinct selected'"
    "\<forall>d \<in> set deps. dependency_fits alpm names packages d"
proof -
  have "set selected' = set selected \<union> N \<and> set pending' = set pending \<union> (N - set selected) \<and>
      (sorted selected \<longrightarrow> sorted selected') \<and> (distinct selected \<longrightarrow> distinct selected') \<and>
      (\<forall>d \<in> set deps. dependency_fits alpm names packages d)"
    using assms(1) unfolding N_def
  proof (induction deps arbitrary: selected pending)
    case (Cons d deps)
    show ?case
    proof (cases "map_of packages (dependency_name d)")
      case None
      then show ?thesis using Cons by (auto simp: dependency_fits_def Let_def)
    next
      case (Some s)
      then have fits: "dependency_fits alpm names packages d"
        and run: "select_siblings alpm names packages out deps
          (if dependency_name d \<in> set selected then (selected, pending)
           else (btree_insert (dependency_name d) selected, dependency_name d # pending)) = Inr (selected', pending')"
        using Cons.prems by (auto simp: dependency_fits_def Let_def)
      show ?thesis
        using Cons.IH run fits Some
        by (cases "dependency_name d \<in> set selected") (fastforce simp: dom_def)+
    qed
  qed simp
  then show "set selected' = set selected \<union> N" "set pending' = set pending \<union> (N - set selected)"
    "sorted selected \<Longrightarrow> sorted selected'" "distinct selected \<Longrightarrow> distinct selected'"
    "\<forall>d \<in> set deps. dependency_fits alpm names packages d" by blast+
qed

lemma select_siblings_no_panic: "select_siblings alpm names packages out deps st \<noteq> Inl PlanPanic"
proof (induction deps arbitrary: st)
  case (Cons d deps)
  then show ?case
    by (cases st) (simp add: Let_def ensure_def rbind_def split: option.splits)
qed simp

lemma siblings_image:
  "map_of packages a = Some p \<Longrightarrow> siblings packages `` {a} = dependency_name ` set (sp_dependencies p) \<inter> dom (map_of packages)"
  by (auto simp: siblings_def)

text \<open>Selected outputs that are not pending have all their siblings selected, and fit.\<close>

definition settled :: "alpm_env \<Rightarrow> string list \<Rightarrow> packages \<Rightarrow> string \<Rightarrow> string set \<Rightarrow> bool" where
  "settled alpm names packages a S =
     (siblings packages `` {a} \<subseteq> S \<and>
      (\<forall>p. map_of packages a = Some p \<longrightarrow> (\<forall>d \<in> set (sp_dependencies p). dependency_fits alpm names packages d)))"

lemma close_outputs_no_panic:
  "set pending \<subseteq> dom (map_of packages) \<Longrightarrow> close_outputs alpm names packages selected pending \<noteq> Inl PlanPanic"
proof (induction alpm names packages selected pending rule: close_outputs.induct)
  case (2 alpm names packages selected out pending)
  then obtain p where p: "map_of packages out = Some p" by auto
  show ?case
  proof (cases "select_siblings alpm names packages out (sp_dependencies p) (selected, pending)")
    case (Inl e)
    then show ?thesis using p select_siblings_no_panic [of alpm names packages out] by auto
  next
    case (Inr st)
    obtain selected' pending' where st: "st = (selected', pending')" by fastforce
    have "set pending' \<subseteq> dom (map_of packages)"
      using select_siblings_Inr(2) [OF Inr [unfolded st]] 2(2) by auto
    then show ?thesis using 2(1) [OF p Inr st [symmetric]] p Inr st by simp
  qed
qed simp

lemma close_outputs_Inr:
  assumes "close_outputs alpm names packages selected pending = Inr result"
    "set pending \<subseteq> set selected" "\<forall>a \<in> set selected - set pending. settled alpm names packages a (set selected)"
    "sorted selected" "distinct selected"
  shows "set selected \<subseteq> set result \<and> set result \<subseteq> (siblings packages)\<^sup>* `` set selected \<and>
    (\<forall>a \<in> set result. settled alpm names packages a (set result)) \<and> sorted result \<and> distinct result"
  using assms
proof (induction alpm names packages selected pending rule: close_outputs.induct)
  case (1 alpm names packages selected)
  then show ?case by auto
next
  case (2 alpm names packages selected out pending)
  obtain p selected' pending' where p: "map_of packages out = Some p"
    and sel: "select_siblings alpm names packages out (sp_dependencies p) (selected, pending) = Inr (selected', pending')"
    and run: "close_outputs alpm names packages selected' pending' = Inr result"
    using 2(2) by (auto split: option.splits sum.splits)
  note step = select_siblings_Inr [OF sel, folded siblings_image [OF p]]
  have "out \<in> set selected" using 2(3) by simp
  then have reach: "(siblings packages)\<^sup>* `` set selected' \<subseteq> (siblings packages)\<^sup>* `` set selected"
    unfolding step(1) by (auto intro: converse_rtrancl_into_rtrancl)
  have settled: "settled alpm names packages a (set selected')" if "a \<in> set selected' - set pending'" for a
  proof (cases "a = out")
    case True
    then show ?thesis using step(1,5) p by (auto simp: settled_def)
  next
    case False
    then have "a \<in> set selected - set (out # pending)" using that unfolding step(1,2) by auto
    then show ?thesis using 2(4) unfolding settled_def step(1) by blast
  qed
  have "set pending' \<subseteq> set selected'" using 2(3) unfolding step(1,2) by auto
  with 2(1) [OF p sel refl run] settled step(3,4) 2(5,6)
  have "set selected' \<subseteq> set result \<and> set result \<subseteq> (siblings packages)\<^sup>* `` set selected' \<and>
    (\<forall>a \<in> set result. settled alpm names packages a (set result)) \<and> sorted result \<and> distinct result" by blast
  then show ?case using reach step(1) by blast
qed


definition requested_set :: "srcinfo \<Rightarrow> string list \<Rightarrow> string set" where
  "requested_set si requested = (if requested = [] then dom (map_of (host_packages si)) else set requested)"

lemma dom_map_of_set: "set (map fst m) = dom (map_of m)"
  by (simp add: dom_map_of_conv_image_fst)

lemma siblings_closed: "(siblings packages)\<^sup>* `` S \<subseteq> T" if "S \<subseteq> T" "\<And>a. a \<in> T \<Longrightarrow> siblings packages `` {a} \<subseteq> T"
proof
  fix b
  assume "b \<in> (siblings packages)\<^sup>* `` S"
  then obtain a where "(a, b) \<in> (siblings packages)\<^sup>*" "a \<in> S" by blast
  then show "b \<in> T" using that by (induction rule: rtrancl_induct) blast+
qed

lemma map_result_total: "map_result f xs = Inr ys \<Longrightarrow> (\<And>x. x \<in> set xs \<Longrightarrow> f x = Inr (g x)) \<Longrightarrow> ys = map g xs"
  by (induction xs arbitrary: ys) auto

lemma distinct_remdups_adj_sorted: "sorted xs \<Longrightarrow> distinct (remdups_adj xs)"
  by (induction xs rule: remdups_adj.induct) (auto simp: order_less_le)

lemma set_remdups_adj_sort: "set (remdups_adj (sort xs)) = set xs" "sorted (remdups_adj (sort xs))"
  "distinct (remdups_adj (sort xs))"
  by (simp_all add: sorted_remdups_adj distinct_remdups_adj_sorted)

lemma dependency_plan_obtains:
  assumes "dependency_plan alpm supported si requested = Inr (deps, chosen)"
  obtains start ds where "set start = requested_set si requested" "sorted start" "distinct start"
    "set start \<subseteq> dom (map_of (host_packages si))"
    "close_outputs alpm (si_package_names si) (host_packages si) start (rev start) = Inr chosen"
    "map_result (\<lambda>out. case map_of (host_packages si) out of None \<Rightarrow> Inl PlanPanic
      | Some package \<Rightarrow> Inr (output_dependencies (btree_set (map fst (host_packages si))) package)) chosen = Inr ds"
    "deps = remdups_adj (sort (concat ds))"
proof -
  note claim = that
  define start where "start = (if requested = [] then btree_set (map fst (host_packages si)) else btree_set requested)"
  have start: "set start = requested_set si requested" "sorted start" "distinct start"
    by (simp_all add: start_def requested_set_def dom_map_of_conv_image_fst)
  obtain ds where "set start \<subseteq> dom (map_of (host_packages si))"
    "close_outputs alpm (si_package_names si) (host_packages si) start (rev start) = Inr chosen"
    "map_result (\<lambda>out. case map_of (host_packages si) out of None \<Rightarrow> Inl PlanPanic
      | Some package \<Rightarrow> Inr (output_dependencies (btree_set (map fst (host_packages si))) package)) chosen = Inr ds"
    "deps = remdups_adj (sort (concat ds))"
    using assms unfolding start_def
    by (auto simp: dependency_plan_def Let_def rbind_eq_Inr result_simps ensure_def dom_map_of_conv_image_fst split: if_splits)
  then show thesis by (rule claim [OF start])
qed

text \<open>
  C14: A dependency plan is the closure of the request: the outputs are exactly those reached from
  the requested ones through runtime dependencies on outputs of the same base, in order, and every
  such dependency is met by the version of the output. The expressions to satisfy beforehand are
  exactly the runtime dependencies on other packages and the build and check dependencies of these
  outputs. Cyclic recipes have a plan too.
\<close>

theorem dependency_plan_is_closure:
  assumes "dependency_plan alpm supported si requested = Inr (deps, chosen)"
  defines "P \<equiv> host_packages si"
  shows "set chosen = (siblings P)\<^sup>* `` requested_set si requested \<and> sorted chosen \<and> distinct chosen \<and>
    set deps = {d. \<exists>a \<in> set chosen. \<exists>p. map_of P a = Some p \<and> d \<in> set (output_dependencies (map fst P) p)} \<and>
    sorted deps \<and> distinct deps \<and>
    (\<forall>a \<in> set chosen. \<exists>p. map_of P a = Some p \<and>
       (\<forall>d \<in> set (sp_dependencies p). dependency_fits alpm (si_package_names si) P d))"
proof -
  obtain start ds where start: "set start = requested_set si requested" "sorted start" "distinct start"
    and known: "set start \<subseteq> dom (map_of P)"
    and close: "close_outputs alpm (si_package_names si) P start (rev start) = Inr chosen"
    and each: "map_result (\<lambda>out. case map_of P out of None \<Rightarrow> Inl PlanPanic
      | Some package \<Rightarrow> Inr (output_dependencies (btree_set (map fst P)) package)) chosen = Inr ds"
    and deps: "deps = remdups_adj (sort (concat ds))"
    using dependency_plan_obtains [OF assms(1)] unfolding P_def by metis
  note closed = close_outputs_Inr [OF close, unfolded set_rev, OF subset_refl _ start(2,3), simplified]
  have chosen: "set chosen = (siblings P)\<^sup>* `` set start"
    using closed siblings_closed [of "set start" "set chosen" P] unfolding settled_def by blast
  have pick: "\<exists>p. map_of P a = Some p" if "a \<in> set chosen" for a
  proof -
    have "(siblings P)\<^sup>* `` set start \<subseteq> dom (map_of P)"
      by (rule siblings_closed [OF known]) (auto simp: siblings_def)
    then show ?thesis using that chosen by blast
  qed
  have od: "set (output_dependencies (btree_set xs) p) = set (output_dependencies xs p)" for xs p
    by (simp add: output_dependencies_def)
  have "ds = map (\<lambda>a. output_dependencies (btree_set (map fst P)) (the (map_of P a))) chosen"
    by (rule map_result_total [OF each]) (use pick in fastforce)
  then have "set (concat ds) = (\<Union>a \<in> set chosen. set (output_dependencies (map fst P) (the (map_of P a))))"
    by (simp add: od)
  also have "\<dots> = {d. \<exists>a \<in> set chosen. \<exists>p. map_of P a = Some p \<and> d \<in> set (output_dependencies (map fst P) p)}"
    using pick by fastforce
  finally have "set deps = {d. \<exists>a \<in> set chosen. \<exists>p. map_of P a = Some p \<and> d \<in> set (output_dependencies (map fst P) p)}"
    by (simp only: deps set_remdups_adj_sort)
  moreover have "\<forall>a \<in> set chosen. \<exists>p. map_of P a = Some p \<and>
      (\<forall>d \<in> set (sp_dependencies p). dependency_fits alpm (si_package_names si) P d)"
  proof
    fix a
    assume a: "a \<in> set chosen"
    then obtain p where p: "map_of P a = Some p" using pick by blast
    have "settled alpm (si_package_names si) P a (set chosen)" using closed a by blast
    then show "\<exists>p. map_of P a = Some p \<and> (\<forall>d \<in> set (sp_dependencies p). dependency_fits alpm (si_package_names si) P d)"
      using p by (simp add: settled_def)
  qed
  moreover have "sorted deps" "distinct deps" by (simp_all add: deps set_remdups_adj_sort)
  moreover have "sorted chosen" "distinct chosen" using closed by blast+
  ultimately show ?thesis
    using chosen unfolding start(1) by (intro conjI)
qed


text \<open>A split package whose outputs depend on each other in a cycle.\<close>

definition example_alpm :: alpm_env where
  "example_alpm = \<lparr>alpm_depend = (\<lambda>d. (ModEq, if dependency_name d = d then None else Some ''1'')),
     alpm_vercmp = (\<lambda>a b. if a = b then Equal else Less)\<rparr>"

definition example_srcinfo :: srcinfo where
  "example_srcinfo = \<lparr>si_package_names = [''tool'', ''tool-libs'', ''tool-docs''],
     si_host_packages = [
       (''tool'', \<lparr>sp_version = ''1'', sp_dependencies = [''tool-libs=1'', ''glibc''], sp_make_dependencies = [''cmake''],
          sp_check_dependencies = []\<rparr>),
       (''tool-docs'', \<lparr>sp_version = ''1'', sp_dependencies = [], sp_make_dependencies = [], sp_check_dependencies = []\<rparr>),
       (''tool-libs'', \<lparr>sp_version = ''1'', sp_dependencies = [''tool''], sp_make_dependencies = [],
          sp_check_dependencies = [''python'']\<rparr>)]\<rparr>"

theorem dependency_plan_is_closure_witness:
  "(siblings (host_packages example_srcinfo))\<^sup>* `` requested_set example_srcinfo [''tool''] = {''tool'', ''tool-libs''}"
proof -
  have "dependency_plan example_alpm True example_srcinfo [''tool''] =
      Inr ([''cmake'', ''glibc'', ''python''], [''tool'', ''tool-libs''])"
    by code_simp
  from dependency_plan_is_closure [OF this] show ?thesis by simp
qed

section \<open>Requests are bounded\<close>

definition args_len :: "(string \<Rightarrow> string) \<Rightarrow> string list \<Rightarrow> nat" where
  "args_len encode names = sum_list (map (arg_len encode) names)"

lemma rpc_info_url_len: "str_len (rpc_info_url encode chunk) = 43 + args_len encode chunk"
proof -
  have "str_len (fold (\<lambda>name url. url @ ''&arg[]='' @ encode name) chunk url) = str_len url + args_len encode chunk" for url
    by (induction chunk arbitrary: url) (simp_all add: args_len_def arg_len_def)
  moreover have "str_len (AUR_RPC_URL @ ''?v=5&type=info'') = 43" by code_simp
  ultimately show ?thesis by (simp add: rpc_info_url_def)
qed

lemma chunk_names_concat: "concat (chunk_names encode names chunks current l) = concat chunks @ current @ names"
  by (induction encode names chunks current l rule: chunk_names.induct) auto

lemma chunk_names_bounded:
  assumes "\<And>n. n \<in> set names \<Longrightarrow> AUR_RPC_INFO_BASE_LEN + arg_len encode n \<le> AUR_RPC_MAX_URI"
    "l = AUR_RPC_INFO_BASE_LEN + args_len encode current" "l \<le> AUR_RPC_MAX_URI"
    "\<forall>c \<in> set chunks. c \<noteq> [] \<and> AUR_RPC_INFO_BASE_LEN + args_len encode c \<le> AUR_RPC_MAX_URI"
  shows "\<forall>c \<in> set (chunk_names encode names chunks current l). c \<noteq> [] \<and>
    AUR_RPC_INFO_BASE_LEN + args_len encode c \<le> AUR_RPC_MAX_URI"
  using assms
  by (induction encode names chunks current l rule: chunk_names.induct) (auto simp: args_len_def not_less)

lemma valid_name_len: "validate_package_name n = Inr () \<Longrightarrow> str_len n \<le> 255"
  by (auto simp: validate_package_name_def MAX_PACKAGE_NAME_LENGTH_def rbind_eq_Inr ensure_def split: if_splits)

text \<open>
  C40: Every request to the AUR service stays below the limit on its address. Splitting the
  names loses none and keeps their order, leaves no chunk empty, and for names that pass validation
  the whole address of each chunk is at most 4400 bytes. Percent-encoding turns a byte into at most
  three.
\<close>

theorem aur_requests_are_bounded:
  assumes "\<And>n. str_len (encode n) \<le> 3 * str_len n" and "for_result validate_package_name names = Inr ()"
  shows "concat (chunk_aur_names encode names) = names \<and>
    (\<forall>c \<in> set (chunk_aur_names encode names). c \<noteq> [] \<and> str_len (rpc_info_url encode c) \<le> AUR_RPC_MAX_URI)"
proof -
  have "AUR_RPC_INFO_BASE_LEN + arg_len encode n \<le> AUR_RPC_MAX_URI" if "n \<in> set names" for n
  proof -
    have "str_len n \<le> 255" using that assms(2) by (simp add: for_result_Inr valid_name_len)
    moreover have "str_len ''&arg[]='' = 7" by code_simp
    ultimately show ?thesis
      using assms(1) [of n] by (simp add: arg_len_def AUR_RPC_INFO_BASE_LEN_def AUR_RPC_MAX_URI_def)
  qed
  then have "\<forall>c \<in> set (chunk_aur_names encode names). c \<noteq> [] \<and> AUR_RPC_INFO_BASE_LEN + args_len encode c \<le> AUR_RPC_MAX_URI"
    unfolding chunk_aur_names_def
    by (intro chunk_names_bounded) (simp_all add: args_len_def AUR_RPC_INFO_BASE_LEN_def AUR_RPC_MAX_URI_def)
  then show ?thesis
    by (auto simp: chunk_aur_names_def chunk_names_concat rpc_info_url_len AUR_RPC_INFO_BASE_LEN_def)
qed

theorem aur_requests_are_bounded_witness:
  "concat (chunk_aur_names (\<lambda>n. n) [''yay'', ''paru-bin'']) = [''yay'', ''paru-bin''] \<and>
   list_all (\<lambda>c. str_len (rpc_info_url (\<lambda>n. n) c) \<le> AUR_RPC_MAX_URI) (chunk_aur_names (\<lambda>n. n) [''yay'', ''paru-bin''])"
proof -
  have "for_result validate_package_name [''yay'', ''paru-bin''] = Inr ()" by code_simp
  from aur_requests_are_bounded [OF _ this, of "\<lambda>n. n"] show ?thesis by (simp add: list_all_iff)
qed


lemma rpc_base_address_len: "str_len (AUR_RPC_URL @ ''?v=5&type=info'') = 43" "AUR_RPC_INFO_BASE_LEN = 47"
  by code_simp+

section \<open>Jobs partition the requested packages\<close>

text \<open>When the service returns several entries of one name, the last one counts.\<close>

definition latest_info :: "aur_json_package list \<Rightarrow> string \<Rightarrow> aur_json_package option" where
  "latest_info infos name = find (\<lambda>i. aj_name i = name) (rev infos)"

definition base_of :: "aur_json_package list \<Rightarrow> string \<Rightarrow> string option" where
  "base_of infos name = map_option package_base_of (latest_info infos name)"

definition lookup :: "(string \<times> string list) list \<Rightarrow> string \<Rightarrow> string list" where
  "lookup m k = (case map_of m k of None \<Rightarrow> [] | Some xs \<Rightarrow> xs)"

lemma map_error_Inr [simp]: "map_error f r = Inr a \<longleftrightarrow> r = Inr a"
  by (cases r) (simp_all add: map_error_def)

lemma find_append: "find P (xs @ ys) = (case find P xs of Some x \<Rightarrow> Some x | None \<Rightarrow> find P ys)"
  by (induction xs) auto

lemma latest_info_name: "latest_info infos name = Some i \<Longrightarrow> aj_name i = name"
  by (auto simp: latest_info_def find_Some_iff)

lemma index_info_Inr:
  "index_info infos (I, B) = Inr (I', B') \<Longrightarrow>
     map_of I' n = (case latest_info infos n of Some i \<Rightarrow> Some i | None \<Rightarrow> map_of I n) \<and>
     map_of B' n = (case base_of infos n of Some b \<Rightarrow> Some b | None \<Rightarrow> map_of B n)"
proof (induction infos arbitrary: I B)
  case (Cons info infos)
  then have run: "index_info infos (AList.update (aj_name info) info I,
      AList.update (aj_name info) (package_base_of info) B) = Inr (I', B')"
    by (simp add: rbind_eq_Inr)
  show ?case
    using Cons.IH [OF run]
    by (auto simp: latest_info_def base_of_def find_append update_conv' split: option.splits)
qed (simp add: latest_info_def base_of_def)

lemma lookup_entry_insert: "lookup (entry_insert k x m) k' = (if k' = k then btree_insert x (lookup m k) else lookup m k')"
  by (simp add: lookup_def entry_insert_def update_conv')

lemma keys_entry_insert:
  "fst ` set (entry_insert k x m) = insert k (fst ` set m)"
  "distinct (map fst m) \<Longrightarrow> distinct (map fst (entry_insert k x m))"
  by (simp_all add: entry_insert_def dom_update distinct_update)

definition dependency_bases :: "string list \<Rightarrow> (string \<times> string) list \<Rightarrow> string list \<Rightarrow> string set" where
  "dependency_bases requested B ds = {b. \<exists>d \<in> set ds. dependency_name d \<in> set requested \<and> map_of B (dependency_name d) = Some b}"

lemma dependency_bases_simps [simp]:
  "dependency_bases requested B [] = {}"
  "dependency_bases requested B (d # ds) =
     (if dependency_name d \<in> set requested then set_option (map_of B (dependency_name d)) else {}) \<union> dependency_bases requested B ds"
  by (auto simp: dependency_bases_def)

lemma add_dependencies_Inr:
  "add_dependencies requested B pb ds D = Inr D' \<Longrightarrow>
     set (lookup D' b) = set (lookup D b) \<union> (if b = pb then dependency_bases requested B ds - {pb} else {})"
proof (induction ds arbitrary: D)
  case (Cons d ds)
  then show ?case
    by (auto simp: Let_def lookup_entry_insert split: if_splits option.splits)
qed simp

lemma collect_jobs_Inr:
  assumes "collect_jobs requested I B ps (out, D) = Inr (out', D')"
    "\<And>p i. map_of I p = Some i \<Longrightarrow> aj_name i = p" "distinct (map fst out)"
  shows "distinct (map fst out') \<and> (\<forall>p \<in> set ps. map_of I p \<noteq> None \<and> map_of B p \<noteq> None) \<and>
    fst ` set out' = fst ` set out \<union> (\<lambda>p. the (map_of B p)) ` set ps \<and>
    set (lookup out' b) = set (lookup out b) \<union> {p \<in> set ps. map_of B p = Some b} \<and>
    set (lookup D' b) = set (lookup D b) \<union>
      (\<Union>p \<in> {p \<in> set ps. map_of B p = Some b}. dependency_bases requested B (info_dependencies (the (map_of I p))) - {b})"
  using assms(1,3)
proof (induction ps arbitrary: out D)
  case (Cons p ps)
  obtain i pb D1 where i: "map_of I p = Some i" "map_of B p = Some pb"
    and deps: "add_dependencies requested B pb (info_dependencies i) D = Inr D1"
    and run: "collect_jobs requested I B ps (entry_insert pb p out, D1) = Inr (out', D')"
    using Cons.prems(1) assms(2) by (auto simp: rbind_eq_Inr split: option.splits)
  note IH = Cons.IH [OF run keys_entry_insert(2) [OF Cons.prems(2)]]
  have "set (lookup out' b) = set (lookup out b) \<union> {q \<in> set (p # ps). map_of B q = Some b}"
    using IH i by (auto simp: lookup_entry_insert)
  moreover have "set (lookup D' b) = set (lookup D b) \<union>
      (\<Union>q \<in> {q \<in> set (p # ps). map_of B q = Some b}. dependency_bases requested B (info_dependencies (the (map_of I q))) - {b})"
    using IH i add_dependencies_Inr [OF deps, of b] by (cases "b = pb") auto
  ultimately show ?case
    using IH i by (simp add: keys_entry_insert(1))
qed simp


lemma build_jobs_Inr:
  assumes "build_jobs_from_package_info packages infos = Inr jobs"
  shows "sorted (map bj_package jobs)" "distinct (map bj_package jobs)"
    "p \<in> set packages \<Longrightarrow> base_of infos p \<noteq> None"
    "set (map Some (map bj_package jobs)) = base_of infos ` set packages"
    "j \<in> set jobs \<Longrightarrow> set (bj_outputs j) = {p \<in> set packages. base_of infos p = Some (bj_package j)}"
    "j \<in> set jobs \<Longrightarrow> set (bj_dependencies j) =
      {b. \<exists>p \<in> set (bj_outputs j). \<exists>d \<in> set (info_dependencies (the (latest_info infos p))).
        dependency_name d \<in> set packages \<and> base_of infos (dependency_name d) = Some b} - {bj_package j}"
    "j \<in> set jobs \<Longrightarrow> distinct (bj_outputs j) \<and> distinct (bj_dependencies j)"
proof -
  obtain I B out D where ix: "index_info infos ([], []) = Inr (I, B)"
    and run: "collect_jobs packages I B packages ([], []) = Inr (out, D)"
    and jobs: "jobs = map (\<lambda>b. for_package_base b (lookup out b) (lookup D b)) (sort (map fst out))"
    using assms by (auto simp: build_jobs_from_package_info_def rbind_eq_Inr lookup_def)
  have I: "map_of I n = latest_info infos n" and B: "map_of B n = base_of infos n" for n
    using index_info_Inr [OF ix, of n] by (simp_all split: option.splits)
  have "aj_name i = p" if "map_of I p = Some i" for p i using that I latest_info_name by metis
  note all = collect_jobs_Inr [OF run this, unfolded I B lookup_def [of "[]"], simplified]
  have names: "map bj_package jobs = sort (map fst out)"
    by (simp add: jobs for_package_base_def comp_def)
  show "sorted (map bj_package jobs)" "distinct (map bj_package jobs)"
    using all unfolding names by simp_all
  show known: "base_of infos p \<noteq> None" if "p \<in> set packages" for p using all that by blast
  have keys: "fst ` set out = (\<lambda>p. the (base_of infos p)) ` set packages" using all by blast
  have "Some (the (base_of infos p)) = base_of infos p" if "p \<in> set packages" for p
    using known [OF that] by simp
  then show "set (map Some (map bj_package jobs)) = base_of infos ` set packages"
    unfolding names by (simp add: keys image_image)
  assume "j \<in> set jobs"
  then obtain b where j: "j = for_package_base b (lookup out b) (lookup D b)" by (auto simp: jobs)
  have b: "bj_package j = b" "set (bj_outputs j) = set (lookup out b)" "set (bj_dependencies j) = set (lookup D b)"
    by (simp_all add: j for_package_base_def)
  show outputs: "set (bj_outputs j) = {p \<in> set packages. base_of infos p = Some (bj_package j)}"
    unfolding b using all by blast
  have "set (lookup D b) = (\<Union>p \<in> {p \<in> set packages. base_of infos p = Some b}.
      dependency_bases packages B (info_dependencies (the (latest_info infos p)))) - {b}"
    using all [of b] by (elim conjE)
  then show "set (bj_dependencies j) = {b. \<exists>p \<in> set (bj_outputs j). \<exists>d \<in> set (info_dependencies (the (latest_info infos p))).
      dependency_name d \<in> set packages \<and> base_of infos (dependency_name d) = Some b} - {bj_package j}"
    unfolding outputs unfolding b dependency_bases_def B by blast
  show "distinct (bj_outputs j) \<and> distinct (bj_dependencies j)"
    by (simp add: j for_package_base_def set_remdups_adj_sort)
qed


lemma build_jobs_nonempty:
  assumes "build_jobs_from_package_info packages infos = Inr jobs" "j \<in> set jobs"
  shows "bj_outputs j \<noteq> []"
proof -
  have "Some (bj_package j) \<in> base_of infos ` set packages"
    using assms(2) unfolding build_jobs_Inr(4) [OF assms(1), symmetric] by simp
  then obtain p where "p \<in> set packages" "base_of infos p = Some (bj_package j)" by (auto simp: image_iff)
  then have "p \<in> set (bj_outputs j)" unfolding build_jobs_Inr(5) [OF assms] by simp
  then show ?thesis by auto
qed

text \<open>
  The jobs of an update partition the requested packages by package base. Every requested
  package is an output of exactly the job of its base, no two jobs have the same base, and no job is
  empty. A job depends on exactly the other bases that provide a requested package some output of
  it needs at run time, to build or to check.
\<close>

theorem jobs_partition_requested_packages:
  assumes "build_jobs_from_package_info packages infos = Inr jobs"
  shows "sorted (map bj_package jobs) \<and> distinct (map bj_package jobs) \<and>
    set (map Some (map bj_package jobs)) = base_of infos ` set packages \<and>
    (\<forall>j \<in> set jobs. bj_outputs j \<noteq> [] \<and> distinct (bj_outputs j) \<and>
      set (bj_outputs j) = {p \<in> set packages. base_of infos p = Some (bj_package j)} \<and>
      set (bj_dependencies j) = {b. \<exists>p \<in> set (bj_outputs j). \<exists>d \<in> set (info_dependencies (the (latest_info infos p))).
        dependency_name d \<in> set packages \<and> base_of infos (dependency_name d) = Some b} - {bj_package j})"
  by (intro conjI ballI build_jobs_Inr(1,2,4,5,6) [OF assms] build_jobs_nonempty [OF assms])
    (simp_all add: build_jobs_Inr(7) [OF assms])

definition example_infos :: "aur_json_package list" where
  "example_infos =
     [\<lparr>aj_name = ''app'', aj_package_base = None, aj_depends = Some [''libfoo>=2'', ''glibc''], aj_make_depends = None,
       aj_check_depends = None\<rparr>,
      \<lparr>aj_name = ''libfoo'', aj_package_base = Some ''foo'', aj_depends = None, aj_make_depends = Some [''foo-tools''],
       aj_check_depends = None\<rparr>,
      \<lparr>aj_name = ''foo-tools'', aj_package_base = Some ''foo'', aj_depends = None, aj_make_depends = None,
       aj_check_depends = None\<rparr>]"

lemma example_jobs_built:
  "build_jobs_from_package_info [''app'', ''libfoo'', ''foo-tools''] example_infos =
     Inr [for_package_base ''app'' [''app''] [''foo''], for_package_base ''foo'' [''foo-tools'', ''libfoo''] []]"
  by code_simp

theorem jobs_partition_requested_packages_witness:
  "distinct (map bj_package [for_package_base ''app'' [''app''] [''foo''], for_package_base ''foo'' [''foo-tools'', ''libfoo''] []])"
  using jobs_partition_requested_packages [OF example_jobs_built] by blast

end
