(* ===== verification/Package_Index.thy ===== *)
theory Package_Index
  imports Rust_Str "HOL-Library.AList" "HOL-Library.List_Lexorder" "HOL-Library.Product_Lexorder" "HOL-Library.Multiset"
begin

text \<open>
  The in-memory package index of the daemon, \<^verbatim>\<open>daemon/index.rs\<close>: the Bloom filter, the string pool, the
  trigram postings, construction, exact lookup and ranked search, with the name matching of
  \<^verbatim>\<open>package_managers/mod.rs\<close> and the RPM ranking of \<^verbatim>\<open>core/packages/search.rs\<close>.

  Handles and posting entries are \<^verbatim>\<open>u32\<close>, hash values \<^verbatim>\<open>u64\<close>. The hash of a name (\<^verbatim>\<open>ahash\<close>) and the
  fuzzy score of the \<^verbatim>\<open>nucleo\<close> matcher are arguments. \<^verbatim>\<open>select_nth_unstable\<close>, \<^verbatim>\<open>truncate\<close> and the sort
  after them leave the best entries in order, since no two entries have equal scores.
\<close>

section \<open>The Bloom filter\<close>

record bloom_filter =
  bf_bits :: "64 word list"
  bf_num_bits :: nat

definition bloom_new :: "nat \<Rightarrow> bloom_filter" where
  "bloom_new expected_items =
     (let num_bits = max (expected_items * 8) 4096
      in \<lparr>bf_bits = replicate ((num_bits + 63) div 64) 0, bf_num_bits = num_bits\<rparr>)"

definition hash_positions :: "(string \<Rightarrow> 64 word) \<Rightarrow> bloom_filter \<Rightarrow> string \<Rightarrow> nat list" where
  "hash_positions hash b name =
     (let h1 = hash name;
          h2 = h1 * 0x9e3779b97f4a7c15;
          h3 = h2 * 0x9e3779b97f4a7c15
      in [unat h1 mod bf_num_bits b, unat h2 mod bf_num_bits b, unat h3 mod bf_num_bits b])"

definition set_position :: "nat \<Rightarrow> 64 word list \<Rightarrow> 64 word list" where
  "set_position pos bits = bits[pos div 64 := or (bits ! (pos div 64)) (push_bit (pos mod 64) 1)]"

definition bloom_insert :: "(string \<Rightarrow> 64 word) \<Rightarrow> string \<Rightarrow> bloom_filter \<Rightarrow> bloom_filter" where
  "bloom_insert hash name b = b\<lparr>bf_bits := fold set_position (hash_positions hash b name) (bf_bits b)\<rparr>"

definition test_position :: "64 word list \<Rightarrow> nat \<Rightarrow> bool" where
  "test_position bits pos = (and (bits ! (pos div 64)) (push_bit (pos mod 64) 1) \<noteq> 0)"

definition might_contain :: "(string \<Rightarrow> 64 word) \<Rightarrow> bloom_filter \<Rightarrow> string \<Rightarrow> bool" where
  "might_contain hash b name = list_all (test_position (bf_bits b)) (hash_positions hash b name)"

section \<open>The string pool\<close>

record string_pool =
  sp_strings :: "string list"
  sp_dedup :: "(string \<times> 32 word) list"

definition pool_empty :: string_pool where
  "pool_empty = \<lparr>sp_strings = [], sp_dedup = []\<rparr>"

definition intern :: "string \<Rightarrow> string_pool \<Rightarrow> 32 word \<times> string_pool" where
  "intern s p =
     (case map_of (sp_dedup p) s of
        Some handle \<Rightarrow> (handle, p)
      | None \<Rightarrow>
          let handle = of_nat (length (sp_strings p))
          in (handle, p\<lparr>sp_strings := sp_strings p @ [s], sp_dedup := AList.update s handle (sp_dedup p)\<rparr>))"

definition pool_get :: "string_pool \<Rightarrow> 32 word \<Rightarrow> string" where
  "pool_get p handle = sp_strings p ! unat handle"

section \<open>The trigram postings\<close>

type_synonym trigram = "nat \<times> nat \<times> nat"

fun windows3 :: "nat list \<Rightarrow> trigram list" where
  "windows3 (a # b # c # rest) = (a, b, c) # windows3 (b # c # rest)"
| "windows3 _ = []"

type_synonym postings = "(trigram \<times> 32 word list) list"

definition posting :: "postings \<Rightarrow> trigram \<Rightarrow> 32 word list" where
  "posting ps t = (case map_of ps t of None \<Rightarrow> [] | Some l \<Rightarrow> l)"

fun add_trigrams :: "32 word \<Rightarrow> trigram list \<Rightarrow> trigram list \<Rightarrow> postings \<Rightarrow> postings" where
  "add_trigrams idx seen [] ps = ps"
| "add_trigrams idx seen (t # ts) ps =
     (if t \<in> set seen then add_trigrams idx seen ts ps
      else add_trigrams idx (t # seen) ts (AList.update t (posting ps t @ [idx]) ps))"

definition trigram_insert :: "string \<Rightarrow> 32 word \<Rightarrow> postings \<Rightarrow> postings" where
  "trigram_insert name_lower idx ps =
     (let bytes = as_bytes name_lower
      in if length bytes < 3 then ps else add_trigrams idx [] (windows3 bytes) ps)"

fun intersect_postings :: "postings \<Rightarrow> trigram list \<Rightarrow> 32 word list option \<Rightarrow> 32 word list option" where
  "intersect_postings ps [] result = result"
| "intersect_postings ps (t # ts) result =
     (case map_of ps t of
        None \<Rightarrow> Some []
      | Some l \<Rightarrow>
          intersect_postings ps ts (Some (case result of
              None \<Rightarrow> l
            | Some prev \<Rightarrow> filter (\<lambda>idx. idx \<in> set l) prev)))"

definition candidates :: "postings \<Rightarrow> string \<Rightarrow> 32 word list option" where
  "candidates ps query_lower =
     (let bytes = as_bytes query_lower
      in if length bytes < 3 then None else intersect_postings ps (windows3 bytes) None)"

section \<open>The index\<close>

datatype search_name_kind = Literal | RpmIdentity

datatype wire_source = WireOfficial | WireAur | WireApt

record compact_package =
  cp_rpm_eligible :: bool
  cp_name :: "32 word"
  cp_name_lower :: "32 word"
  cp_version :: "32 word"
  cp_description :: "32 word"
  cp_description_lower :: "32 word"
  cp_url :: "32 word"
  cp_size :: "64 word"
  cp_download_size :: "64 word"
  cp_repo :: "32 word"
  cp_depends :: "string list"
  cp_licenses :: "string list"
  cp_source :: wire_source

record package_index =
  pi_name_kind :: search_name_kind
  pi_items :: "compact_package list"
  pi_pool :: string_pool
  pi_name_to_idx :: "(string \<times> nat) list"
  pi_bloom :: bloom_filter
  pi_trigrams :: postings

definition with_capacity :: "nat \<Rightarrow> package_index" where
  "with_capacity capacity =
     \<lparr>pi_name_kind = Literal, pi_items = [], pi_pool = pool_empty, pi_name_to_idx = [],
      pi_bloom = bloom_new capacity, pi_trigrams = []\<rparr>"

text \<open>The arguments of \<^verbatim>\<open>PackageIndex::push\<close>.\<close>

record package_record =
  pr_name :: string
  pr_version :: string
  pr_description :: string
  pr_url :: string
  pr_size :: "64 word"
  pr_download_size :: "64 word"
  pr_repo :: string
  pr_depends :: "string list"
  pr_licenses :: "string list"

definition index_push :: "(string \<Rightarrow> 64 word) \<Rightarrow> package_record \<Rightarrow> package_index \<Rightarrow> package_index" where
  "index_push hash r ix =
     (let name_lower = to_ascii_lowercase (pr_name r);
          idx = length (pi_items ix);
          (name_h, p1) = intern (pr_name r) (pi_pool ix);
          (lower_h, p2) = intern name_lower p1;
          (version_h, p3) = intern (pr_version r) p2;
          (desc_h, p4) = intern (pr_description r) p3;
          (desc_lower_h, p5) = intern (to_ascii_lowercase (pr_description r)) p4;
          (url_h, p6) = intern (pr_url r) p5;
          (repo_h, p7) = intern (pr_repo r) p6
      in ix\<lparr>pi_items := pi_items ix @
              [\<lparr>cp_rpm_eligible = True, cp_name = name_h, cp_name_lower = lower_h, cp_version = version_h,
                cp_description = desc_h, cp_description_lower = desc_lower_h, cp_url = url_h,
                cp_size = pr_size r, cp_download_size = pr_download_size r, cp_repo = repo_h,
                cp_depends = pr_depends r, cp_licenses = pr_licenses r, cp_source = WireOfficial\<rparr>],
            pi_pool := p7,
            pi_trigrams := trigram_insert name_lower (of_nat idx) (pi_trigrams ix),
            pi_name_to_idx := (case map_of (pi_name_to_idx ix) (pr_name r) of
                Some _ \<Rightarrow> pi_name_to_idx ix
              | None \<Rightarrow> AList.update (pr_name r) idx (pi_name_to_idx ix)),
            pi_bloom := bloom_insert hash (pr_name r) (pi_bloom ix)\<rparr>)"

definition index_of_records :: "(string \<Rightarrow> 64 word) \<Rightarrow> package_record list \<Rightarrow> package_index" where
  "index_of_records hash rs = fold (index_push hash) rs (with_capacity (length rs))"

text \<open>\<^verbatim>\<open>from_packages\<close>: the records of a manager's inventory, with whether each is an official package.\<close>

definition inventory_record :: "string \<Rightarrow> string \<Rightarrow> string \<Rightarrow> package_record" where
  "inventory_record name version description =
     \<lparr>pr_name = name, pr_version = version, pr_description = description, pr_url = [], pr_size = 0,
      pr_download_size = 0, pr_repo = ''official'', pr_depends = [], pr_licenses = []\<rparr>"

definition from_package :: "(string \<Rightarrow> 64 word) \<Rightarrow> string \<times> string \<times> string \<times> bool \<Rightarrow> package_index \<Rightarrow> package_index" where
  "from_package hash = (\<lambda>(name, version, description, official) ix.
     let idx = length (pi_items ix);
         ix' = index_push hash (inventory_record name version description) ix
     in ix'\<lparr>pi_items := (pi_items ix')[idx := (pi_items ix' ! idx)\<lparr>cp_rpm_eligible := official\<rparr>]\<rparr>)"

definition from_packages ::
  "(string \<Rightarrow> 64 word) \<Rightarrow> (string \<times> string \<times> string \<times> bool) list \<Rightarrow> search_name_kind \<Rightarrow> package_index" where
  "from_packages hash packages name_kind =
     fold (from_package hash) packages ((with_capacity (length packages))\<lparr>pi_name_kind := name_kind\<rparr>)"

section \<open>Exact lookup\<close>

record detailed_package =
  dpi_name :: string
  dpi_version :: string
  dpi_description :: string
  dpi_url :: string
  dpi_size :: "64 word"
  dpi_download_size :: "64 word"
  dpi_repo :: string
  dpi_depends :: "string list"
  dpi_licenses :: "string list"
  dpi_source :: wire_source

definition detail :: "package_index \<Rightarrow> compact_package \<Rightarrow> detailed_package" where
  "detail ix item =
     \<lparr>dpi_name = pool_get (pi_pool ix) (cp_name item), dpi_version = pool_get (pi_pool ix) (cp_version item),
      dpi_description = pool_get (pi_pool ix) (cp_description item), dpi_url = pool_get (pi_pool ix) (cp_url item),
      dpi_size = cp_size item, dpi_download_size = cp_download_size item,
      dpi_repo = pool_get (pi_pool ix) (cp_repo item), dpi_depends = cp_depends item,
      dpi_licenses = cp_licenses item, dpi_source = cp_source item\<rparr>"

definition index_get :: "(string \<Rightarrow> 64 word) \<Rightarrow> package_index \<Rightarrow> string \<Rightarrow> detailed_package option" where
  "index_get hash ix name =
     (if \<not> might_contain hash (pi_bloom ix) name then None
      else map_option (\<lambda>idx. detail ix (pi_items ix ! idx)) (map_of (pi_name_to_idx ix) name))"

definition index_len :: "package_index \<Rightarrow> nat" where
  "index_len ix = length (pi_items ix)"

section \<open>Ranked search\<close>

definition exact_key :: "search_name_kind \<Rightarrow> string \<Rightarrow> string \<Rightarrow> string option" where
  "exact_key kind query name =
     (if name = query then Some name
      else if kind = RpmIdentity then
        (case rsplit_once CHR ''.'' name of
           None \<Rightarrow> None
         | Some (basename, architecture) \<Rightarrow>
             if basename \<noteq> [] \<and> architecture \<noteq> [] \<and> basename = query then Some basename else None)
      else None)"

text \<open>A score: the rank, then shorter names, then earlier entries; the larger score is the better one.\<close>

type_synonym relevance_score = "int \<times> int \<times> int"

definition relevance_score :: "int \<Rightarrow> nat \<Rightarrow> nat \<Rightarrow> relevance_score" where
  "relevance_score rank name_len idx =
     (rank, max 0 (18446744073709551615 - int name_len), max 0 (18446744073709551615 - int idx))"

text \<open>\<^verbatim>\<open>str::match_indices\<close> of a nonempty pattern: the starts of its disjoint occurrences, from the left.\<close>

function match_indices :: "string \<Rightarrow> nat \<Rightarrow> string \<Rightarrow> nat list" where
  "match_indices q pos s =
     (if s = [] \<or> q = [] then []
      else if take (length q) s = q then pos # match_indices q (pos + length q) (drop (length q) s)
      else match_indices q (pos + 1) (tl s))"
  by pat_completeness auto

termination match_indices
  by (relation "measure (\<lambda>(q, pos, s). length s)") auto

declare match_indices.simps [simp del]

definition boundary_char :: "char \<Rightarrow> bool" where
  "boundary_char c = (c = CHR ''-'' \<or> c = CHR ''_'' \<or> c = CHR ''.'' \<or> is_ascii_whitespace c)"

text \<open>
  The byte before an occurrence is the character before it, or, for a character outside ASCII, a
  byte that is not a boundary; such a character is no boundary either.
\<close>

fun score_occurrences :: "string \<Rightarrow> string \<Rightarrow> nat \<Rightarrow> bool \<Rightarrow> nat list \<Rightarrow> relevance_score option" where
  "score_occurrences query_lower name_lower idx found [] =
     (if found then Some (relevance_score 1 (str_len name_lower) idx) else None)"
| "score_occurrences query_lower name_lower idx found (pos # rest) =
     (if pos = 0 \<and> str_len name_lower = str_len query_lower then Some (relevance_score 5 (str_len name_lower) idx)
      else if pos = 0 then Some (relevance_score 3 (str_len name_lower) idx)
      else if boundary_char (name_lower ! (pos - 1)) then Some (relevance_score 2 (str_len name_lower) idx)
      else score_occurrences query_lower name_lower idx True rest)"

definition score_name_match :: "package_index \<Rightarrow> string \<Rightarrow> string \<Rightarrow> nat \<Rightarrow> relevance_score option" where
  "score_name_match ix query_lower name_lower idx =
     (if name_lower \<noteq> query_lower \<and> cp_rpm_eligible (pi_items ix ! idx) \<and>
         cp_source (pi_items ix ! idx) = WireOfficial \<and> exact_key (pi_name_kind ix) query_lower name_lower \<noteq> None
      then Some (relevance_score 4 (str_len name_lower) idx)
      else score_occurrences query_lower name_lower idx False (match_indices query_lower 0 name_lower))"


text \<open>\<^verbatim>\<open>memmem::Finder::find\<close> of the query's bytes in a description's bytes.\<close>

fun find_bytes :: "nat list \<Rightarrow> nat list \<Rightarrow> bool" where
  "find_bytes needle [] = (needle = [])"
| "find_bytes needle (b # bs) = (take (length needle) (b # bs) = needle \<or> find_bytes needle bs)"

definition item_name_lower :: "package_index \<Rightarrow> nat \<Rightarrow> string" where
  "item_name_lower ix idx = pool_get (pi_pool ix) (cp_name_lower (pi_items ix ! idx))"

definition item_description_lower :: "package_index \<Rightarrow> nat \<Rightarrow> string" where
  "item_description_lower ix idx = pool_get (pi_pool ix) (cp_description_lower (pi_items ix ! idx))"

type_synonym scored_match = "relevance_score \<times> 32 word"

text \<open>The loop over the trigram candidates.\<close>

fun score_candidates :: "package_index \<Rightarrow> string \<Rightarrow> 32 word list \<Rightarrow> scored_match list" where
  "score_candidates ix query_lower [] = []"
| "score_candidates ix query_lower (idx # rest) =
     (case score_name_match ix query_lower (item_name_lower ix (unat idx)) (unat idx) of
        Some score \<Rightarrow> (score, idx) # score_candidates ix query_lower rest
      | None \<Rightarrow> score_candidates ix query_lower rest)"

definition description_match :: "package_index \<Rightarrow> nat \<Rightarrow> scored_match" where
  "description_match ix idx = (relevance_score 0 (str_len (item_name_lower ix idx)) idx, of_nat idx)"

text \<open>
  The description scan after the candidates, over the remaining item positions. The product
  \<^verbatim>\<open>limit * 4\<close> is that of a limit below 2^62, where it does not overflow.
\<close>

fun scan_descriptions ::
  "package_index \<Rightarrow> string \<Rightarrow> nat \<Rightarrow> nat \<Rightarrow> nat list \<Rightarrow> scored_match list \<Rightarrow> scored_match list" where
  "scan_descriptions ix query_lower limit name_match_count [] scored_matches = scored_matches"
| "scan_descriptions ix query_lower limit name_match_count (idx # rest) scored_matches =
     (if limit * 4 \<le> name_match_count + length scored_matches then scored_matches
      else
        scan_descriptions ix query_lower limit name_match_count rest
          (if find_bytes (as_bytes query_lower) (as_bytes (item_description_lower ix idx)) \<and>
              score_name_match ix query_lower (item_name_lower ix idx) idx = None
           then scored_matches @ [description_match ix idx] else scored_matches))"

text \<open>The full scan for queries shorter than three bytes.\<close>

fun scan_items :: "package_index \<Rightarrow> string \<Rightarrow> nat \<Rightarrow> nat \<Rightarrow> nat list \<Rightarrow> scored_match list \<Rightarrow> scored_match list" where
  "scan_items ix query_lower limit name_match_count [] scored_matches = scored_matches"
| "scan_items ix query_lower limit name_match_count (idx # rest) scored_matches =
     (case score_name_match ix query_lower (item_name_lower ix idx) idx of
        Some score \<Rightarrow>
          scan_items ix query_lower limit (name_match_count + 1) rest (scored_matches @ [(score, of_nat idx)])
      | None \<Rightarrow>
          scan_items ix query_lower limit name_match_count rest
            (if name_match_count < limit \<and>
                find_bytes (as_bytes query_lower) (as_bytes (item_description_lower ix idx))
             then scored_matches @ [description_match ix idx] else scored_matches))"

definition scored_matches :: "package_index \<Rightarrow> string \<Rightarrow> nat \<Rightarrow> scored_match list" where
  "scored_matches ix query_lower limit =
     (case candidates (pi_trigrams ix) query_lower of
        Some cs \<Rightarrow>
          let named = score_candidates ix query_lower cs;
              name_match_count = length named
          in if name_match_count < limit
             then scan_descriptions ix query_lower limit name_match_count [0..<length (pi_items ix)] named
             else named
      | None \<Rightarrow> scan_items ix query_lower limit 0 [0..<length (pi_items ix)] [])"

definition best_matches :: "nat \<Rightarrow> scored_match list \<Rightarrow> scored_match list" where
  "best_matches limit ms = take limit (rev (sort_key fst ms))"

record package_info =
  pk_name :: string
  pk_version :: string
  pk_description :: string
  pk_source :: wire_source

definition item_info :: "package_index \<Rightarrow> nat \<Rightarrow> package_info" where
  "item_info ix idx =
     (let item = pi_items ix ! idx
      in \<lparr>pk_name = pool_get (pi_pool ix) (cp_name item), pk_version = pool_get (pi_pool ix) (cp_version item),
          pk_description = pool_get (pi_pool ix) (cp_description item), pk_source = cp_source item\<rparr>)"

definition search_literal :: "package_index \<Rightarrow> string \<Rightarrow> nat \<Rightarrow> package_info list" where
  "search_literal ix query limit =
     (let query_lower = to_ascii_lowercase query
      in map (\<lambda>m. item_info ix (unat (snd m)))
           (filter (\<lambda>m. unat (snd m) < length (pi_items ix))
              (best_matches limit (scored_matches ix query_lower limit))))"

section \<open>Ranking of RPM catalogs\<close>

text \<open>\<^verbatim>\<open>str::to_lowercase\<close> below U+0100: the letters of ASCII and of Latin-1.\<close>

definition to_lowercase_char :: "char \<Rightarrow> char" where
  "to_lowercase_char c =
     (let n = code_of c
      in if 65 \<le> n \<and> n \<le> 90 \<or> 192 \<le> n \<and> n \<le> 222 \<and> n \<noteq> 215 then char_of (n + 32) else c)"

definition to_lowercase :: "string \<Rightarrow> string" where
  "to_lowercase s = map to_lowercase_char s"

datatype match_tier = TierExact | TierRpmBasenameExact | TierPrefix | TierWordBoundary | TierFuzzy | TierSubstring

primrec tier_rank :: "match_tier \<Rightarrow> nat" where
  "tier_rank TierExact = 0"
| "tier_rank TierRpmBasenameExact = 1"
| "tier_rank TierPrefix = 2"
| "tier_rank TierWordBoundary = 3"
| "tier_rank TierFuzzy = 4"
| "tier_rank TierSubstring = 5"

lemma tier_rank_inj [simp]: "tier_rank a = tier_rank b \<longleftrightarrow> a = b"
  by (cases a; cases b) simp_all

instantiation match_tier :: linorder
begin

definition less_eq_match_tier :: "match_tier \<Rightarrow> match_tier \<Rightarrow> bool" where
  "less_eq_match_tier a b = (tier_rank a \<le> tier_rank b)"

definition less_match_tier :: "match_tier \<Rightarrow> match_tier \<Rightarrow> bool" where
  "less_match_tier a b = (tier_rank a < tier_rank b)"

instance
  by intro_classes (auto simp: less_eq_match_tier_def less_match_tier_def)

end

definition is_langpack :: "string \<Rightarrow> bool" where
  "is_langpack name =
     (let lower = to_lowercase name
      in str_contains ''-i18n-'' lower \<or> suffix ''-i18n'' lower \<or> suffix ''-l10n'' lower \<or>
         suffix ''-lang'' lower \<or> suffix ''-locale'' lower)"

definition match_tier_of :: "string \<Rightarrow> string \<Rightarrow> match_tier" where
  "match_tier_of query name =
     (if name = query then TierExact
      else if prefix query name then TierPrefix
      else if list_ex (\<lambda>word. word = query) (split_on (\<lambda>c. c = CHR ''-'' \<or> c = CHR ''_'' \<or> c = CHR '' '') name) then TierWordBoundary
      else TierSubstring)"

text \<open>\<^verbatim>\<open>SearchRanker::score\<close>; \<^verbatim>\<open>fuzzy query haystack\<close> is the matcher's score, 0 for no match; larger is better.\<close>

type_synonym search_score = "match_tier \<times> bool \<times> int"

definition rank_score ::
  "(string \<Rightarrow> string \<Rightarrow> nat) \<Rightarrow> string \<Rightarrow> string \<Rightarrow> search_name_kind \<Rightarrow> search_score" where
  "rank_score fuzzy query_lower name_lower name_kind =
     (let key = exact_key name_kind query_lower name_lower;
          tier = (if name_lower \<noteq> query_lower \<and> key \<noteq> None then TierRpmBasenameExact
                  else match_tier_of query_lower name_lower);
          score = fuzzy query_lower (case key of Some k \<Rightarrow> k | None \<Rightarrow> name_lower);
          tier = (if tier = TierSubstring \<and> 0 < score then TierFuzzy else tier)
      in (tier, is_langpack name_lower, - int score))"

definition item_name :: "package_index \<Rightarrow> nat \<Rightarrow> string" where
  "item_name ix idx = pool_get (pi_pool ix) (cp_name (pi_items ix ! idx))"

definition rpm_row :: "package_index \<Rightarrow> string \<Rightarrow> nat \<Rightarrow> bool" where
  "rpm_row ix query_lower idx =
     (str_contains query_lower (to_lowercase (item_name ix idx)) \<or>
      str_contains query_lower (to_lowercase (pool_get (pi_pool ix) (cp_description (pi_items ix ! idx)))))"

definition rpm_score :: "(string \<Rightarrow> string \<Rightarrow> nat) \<Rightarrow> package_index \<Rightarrow> string \<Rightarrow> nat \<Rightarrow> search_score" where
  "rpm_score fuzzy ix query_lower idx =
     rank_score fuzzy query_lower (to_lowercase (item_name ix idx))
       (if cp_rpm_eligible (pi_items ix ! idx) \<and> cp_source (pi_items ix ! idx) = WireOfficial
        then RpmIdentity else Literal)"

definition search_rpm ::
  "(string \<Rightarrow> string \<Rightarrow> nat) \<Rightarrow> package_index \<Rightarrow> string \<Rightarrow> nat \<Rightarrow> package_info list" where
  "search_rpm fuzzy ix query limit =
     (let query_lower = to_lowercase query;
          scored = map (\<lambda>idx. (rpm_score fuzzy ix query_lower idx, idx))
                     (filter (rpm_row ix query_lower) [0..<length (pi_items ix)]);
          compare = (\<lambda>(score, idx). (score, as_bytes (item_name ix idx), idx))
      in map (\<lambda>(_, idx). item_info ix idx) (take limit (sort_key compare scored)))"

definition search :: "(string \<Rightarrow> string \<Rightarrow> nat) \<Rightarrow> package_index \<Rightarrow> string \<Rightarrow> nat \<Rightarrow> package_info list" where
  "search fuzzy ix query limit =
     (if query = [] \<or> limit = 0 then []
      else if pi_name_kind ix = RpmIdentity then search_rpm fuzzy ix query limit
      else search_literal ix query limit)"


section \<open>The filter never hides a name\<close>

locale membership_filter =
  fixes ok :: "'f \<Rightarrow> bool" and insert :: "'k \<Rightarrow> 'f \<Rightarrow> 'f" and may_hold :: "'f \<Rightarrow> 'k \<Rightarrow> bool"
  assumes insert_ok: "ok f \<Longrightarrow> ok (insert k f)"
    and insert_held: "ok f \<Longrightarrow> may_hold (insert k f) k"
    and insert_keeps: "ok f \<Longrightarrow> may_hold f k \<Longrightarrow> may_hold (insert k' f) k"
begin

lemma fold_insert_ok: "ok f \<Longrightarrow> ok (fold insert ks f)"
  by (induction ks arbitrary: f) (simp_all add: insert_ok)

lemma fold_insert_keeps: "ok f \<Longrightarrow> may_hold f k \<Longrightarrow> may_hold (fold insert ks f) k"
  by (induction ks arbitrary: f) (simp_all add: insert_ok insert_keeps)

lemma fold_insert_holds: "ok f \<Longrightarrow> k \<in> set ks \<Longrightarrow> may_hold (fold insert ks f) k"
  by (induction ks arbitrary: f) (auto simp: insert_ok insert_held fold_insert_keeps)

end

definition bloom_ok :: "bloom_filter \<Rightarrow> bool" where
  "bloom_ok b = (0 < bf_num_bits b \<and> bf_num_bits b \<le> 64 * length (bf_bits b))"

lemma bloom_ok_new: "bloom_ok (bloom_new n)"
proof -
  have "m \<le> 64 * ((m + 63) div 64)" for m :: nat by linarith
  then show ?thesis
    unfolding bloom_ok_def bloom_new_def Let_def by (simp only: bloom_filter.simps length_replicate) simp
qed

lemma test_position_bit: "test_position bits pos = bit (bits ! (pos div 64)) (pos mod 64)"
  by (simp add: test_position_def bit_iff_and_push_bit_not_eq_0)

lemma length_set_position [simp]: "length (set_position pos bits) = length bits"
  by (simp add: set_position_def)

lemma length_set_positions [simp]: "length (fold set_position ps bits) = length bits"
  by (induction ps arbitrary: bits) simp_all

lemma set_position_keeps: "test_position bits q \<Longrightarrow> test_position (set_position pos bits) q"
  by (cases "pos div 64 < length bits"; cases "q div 64 = pos div 64")
    (simp_all add: test_position_bit set_position_def bit_or_iff not_less list_update_beyond)

lemma set_position_sets:
  assumes "pos div 64 < length bits"
  shows "test_position (set_position pos bits) pos"
proof -
  have "bit ((2 :: 64 word) ^ (pos mod 64)) (pos mod 64)"
    by (simp add: bit_simps)
  then show ?thesis
    using assms by (simp add: test_position_bit set_position_def bit_or_iff)
qed

lemma set_positions_keep: "test_position bits q \<Longrightarrow> test_position (fold set_position ps bits) q"
  by (induction ps arbitrary: bits) (simp_all add: set_position_keeps)

lemma set_positions_set:
  "q \<in> set ps \<Longrightarrow> q div 64 < length bits \<Longrightarrow> test_position (fold set_position ps bits) q"
  by (induction ps arbitrary: bits) (auto simp: set_position_sets set_positions_keep)

lemma hash_positions_bits [simp]: "hash_positions hash (b\<lparr>bf_bits := bits\<rparr>) name = hash_positions hash b name"
  by (simp add: hash_positions_def Let_def)

lemma hash_position_in_range:
  assumes "bloom_ok b" "pos \<in> set (hash_positions hash b name)"
  shows "pos div 64 < length (bf_bits b)"
proof -
  have "pos < bf_num_bits b"
    using assms by (auto simp: hash_positions_def Let_def bloom_ok_def)
  then show ?thesis using assms(1) by (simp add: bloom_ok_def less_mult_imp_div_less mult.commute)
qed

interpretation bloom: membership_filter bloom_ok "bloom_insert hash" "might_contain hash"
proof
  fix f k k'
  assume ok: "bloom_ok f"
  show "bloom_ok (bloom_insert hash k f)"
    using ok by (simp add: bloom_ok_def bloom_insert_def)
  show "might_contain hash (bloom_insert hash k f) k"
    using hash_position_in_range [OF ok]
    by (auto simp: might_contain_def bloom_insert_def list_all_iff intro: set_positions_set)
  show "might_contain hash f k \<Longrightarrow> might_contain hash (bloom_insert hash k' f) k"
    by (auto simp: might_contain_def bloom_insert_def list_all_iff intro: set_positions_keep)
qed

section \<open>The pool gives back what was interned\<close>

text \<open>\<^verbatim>\<open>ok n p\<close>: the pool is consistent and has room for \<^verbatim>\<open>n\<close> more strings.\<close>

locale interner =
  fixes ok :: "nat \<Rightarrow> 'p \<Rightarrow> bool" and put :: "string \<Rightarrow> 'p \<Rightarrow> 'h \<times> 'p" and get :: "'p \<Rightarrow> 'h \<Rightarrow> string"
    and valid :: "'p \<Rightarrow> 'h \<Rightarrow> bool"
  assumes put_ok: "ok (Suc n) p \<Longrightarrow> put s p = (h, p') \<Longrightarrow> ok n p'"
    and put_get: "ok (Suc n) p \<Longrightarrow> put s p = (h, p') \<Longrightarrow> valid p' h \<and> get p' h = s"
    and put_keeps: "ok (Suc n) p \<Longrightarrow> put s p = (h, p') \<Longrightarrow> valid p h' \<Longrightarrow> valid p' h' \<and> get p' h' = get p h'"
begin

definition extends :: "'p \<Rightarrow> 'p \<Rightarrow> bool" where
  "extends p p' = (\<forall>h. valid p h \<longrightarrow> valid p' h \<and> get p' h = get p h)"

lemma extends_trans: "extends p p' \<Longrightarrow> extends p' p'' \<Longrightarrow> extends p p''"
  by (simp add: extends_def)

lemma extends_get: "extends p p' \<Longrightarrow> valid p h \<Longrightarrow> valid p' h \<and> get p' h = get p h"
  by (simp add: extends_def)

lemma put_extends: "ok (Suc n) p \<Longrightarrow> put s p = (h, p') \<Longrightarrow> extends p p'"
  by (auto simp: extends_def dest: put_keeps)

primrec put_all :: "string list \<Rightarrow> 'p \<Rightarrow> 'h list \<times> 'p" where
  "put_all [] p = ([], p)"
| "put_all (s # ss) p = (let (h, p') = put s p; (hs, p'') = put_all ss p' in (h # hs, p''))"

lemma put_all_get:
  "ok (n + length ss) p \<Longrightarrow> put_all ss p = (hs, p') \<Longrightarrow>
     ok n p' \<and> extends p p' \<and> list_all (valid p') hs \<and> map (get p') hs = ss"
proof (induction ss arbitrary: p hs)
  case Nil
  then show ?case by (simp add: extends_def)
next
  case (Cons s ss)
  obtain h p1 where put: "put s p = (h, p1)" by fastforce
  obtain hs' where rest: "put_all ss p1 = (hs', p')" and hs: "hs = h # hs'"
    using Cons.prems(2) by (auto simp: put split: prod.splits)
  have ok: "ok (Suc (n + length ss)) p" using Cons.prems(1) by simp
  note IH = Cons.IH [OF put_ok [OF ok put] rest]
  then have "extends p1 p'" by blast
  with IH show ?case
    using extends_get [OF \<open>extends p1 p'\<close>] put_get [OF ok put] extends_trans [OF put_extends [OF ok put]] hs
    by auto
qed

end

definition pool_ok :: "nat \<Rightarrow> string_pool \<Rightarrow> bool" where
  "pool_ok room p = (length (sp_strings p) + room \<le> 2 ^ 32 \<and>
     (\<forall>s h. map_of (sp_dedup p) s = Some h \<longrightarrow> unat h < length (sp_strings p) \<and> sp_strings p ! unat h = s))"

definition valid_handle :: "string_pool \<Rightarrow> 32 word \<Rightarrow> bool" where
  "valid_handle p h = (unat h < length (sp_strings p))"

lemma unat_of_nat_32: "n < 2 ^ 32 \<Longrightarrow> unat (of_nat n :: 32 word) = n"
  by (simp add: unat_of_nat take_bit_nat_eq_self)

lemma pool_ok_mono: "pool_ok m p \<Longrightarrow> n \<le> m \<Longrightarrow> pool_ok n p"
  by (auto simp: pool_ok_def)

lemma intern_cases:
  assumes "pool_ok (Suc n) p" "intern s p = (h, p')"
  obtains (old) "map_of (sp_dedup p) s = Some h" "p' = p"
    | (new) "map_of (sp_dedup p) s = None" "h = of_nat (length (sp_strings p))"
        "unat h = length (sp_strings p)" "sp_strings p' = sp_strings p @ [s]"
        "sp_dedup p' = AList.update s h (sp_dedup p)"
  using assms by (cases "map_of (sp_dedup p) s") (auto simp: intern_def Let_def pool_ok_def unat_of_nat_32)

interpretation pool: interner pool_ok intern pool_get valid_handle
proof
  fix n p s h p' h'
  assume ok: "pool_ok (Suc n) p" and put: "intern s p = (h, p')"
  show "pool_ok n p'"
    using ok put by (cases rule: intern_cases [OF ok put])
      (auto simp: pool_ok_def update_conv' nth_append split: if_splits dest: less_SucI)
  show "valid_handle p' h \<and> pool_get p' h = s"
    using ok by (cases rule: intern_cases [OF ok put]) (auto simp: pool_ok_def pool_get_def valid_handle_def)
  show "valid_handle p h' \<Longrightarrow> valid_handle p' h' \<and> pool_get p' h' = pool_get p h'"
    by (cases rule: intern_cases [OF ok put]) (auto simp: pool_get_def valid_handle_def nth_append)
qed


section \<open>What an index represents\<close>

definition item_represents :: "string_pool \<Rightarrow> compact_package \<Rightarrow> package_record \<Rightarrow> bool" where
  "item_represents p item r =
     (list_all (valid_handle p) [cp_name item, cp_name_lower item, cp_version item, cp_description item,
        cp_description_lower item, cp_url item, cp_repo item] \<and>
      pool_get p (cp_name item) = pr_name r \<and> pool_get p (cp_name_lower item) = to_ascii_lowercase (pr_name r) \<and>
      pool_get p (cp_version item) = pr_version r \<and> pool_get p (cp_description item) = pr_description r \<and>
      pool_get p (cp_description_lower item) = to_ascii_lowercase (pr_description r) \<and>
      pool_get p (cp_url item) = pr_url r \<and> pool_get p (cp_repo item) = pr_repo r \<and>
      cp_size item = pr_size r \<and> cp_download_size item = pr_download_size r \<and>
      cp_depends item = pr_depends r \<and> cp_licenses item = pr_licenses r \<and> cp_source item = WireOfficial)"

fun first_position :: "('a \<Rightarrow> bool) \<Rightarrow> 'a list \<Rightarrow> nat option" where
  "first_position P [] = None"
| "first_position P (x # xs) = (if P x then Some 0 else map_option Suc (first_position P xs))"

definition has_trigram :: "package_record list \<Rightarrow> trigram \<Rightarrow> nat \<Rightarrow> bool" where
  "has_trigram rs t i = (t \<in> set (windows3 (as_bytes (to_ascii_lowercase (pr_name (rs ! i))))))"

definition represents :: "(string \<Rightarrow> 64 word) \<Rightarrow> package_index \<Rightarrow> package_record list \<Rightarrow> bool" where
  "represents hash ix rs =
     (list_all2 (item_represents (pi_pool ix)) (pi_items ix) rs \<and>
      (\<forall>name. map_of (pi_name_to_idx ix) name = first_position (\<lambda>r. pr_name r = name) rs) \<and>
      bloom_ok (pi_bloom ix) \<and> (\<forall>r \<in> set rs. might_contain hash (pi_bloom ix) (pr_name r)) \<and>
      (\<forall>t. posting (pi_trigrams ix) t = map of_nat (filter (has_trigram rs t) [0..<length rs])))"

lemma item_represents_extends:
  "pool.extends p p' \<Longrightarrow> item_represents p item r \<Longrightarrow> item_represents p' item r"
  by (simp add: item_represents_def pool.extends_get)

lemma first_position_append:
  "first_position P (xs @ [x]) =
     (case first_position P xs of Some i \<Rightarrow> Some i | None \<Rightarrow> if P x then Some (length xs) else None)"
  by (induction xs) (auto split: option.splits)

lemma first_position_Some:
  "first_position P xs = Some i \<Longrightarrow> i < length xs \<and> P (xs ! i) \<and> (\<forall>j < i. \<not> P (xs ! j))"
proof (induction xs arbitrary: i)
  case (Cons x xs)
  then show ?case
    by (auto simp: nth_Cons' less_Suc_eq_0_disj split: if_splits)
qed simp

lemma first_position_None: "first_position P xs = None \<longleftrightarrow> (\<forall>x \<in> set xs. \<not> P x)"
  by (induction xs) auto

lemma find_first_position: "find P xs = map_option ((!) xs) (first_position P xs)"
  by (induction xs) (simp_all add: option.map_comp comp_def)

lemma posting_update: "posting (AList.update t l ps) t' = (if t' = t then l else posting ps t')"
  by (simp add: posting_def update_conv')

lemma posting_add_trigrams:
  "posting (add_trigrams idx seen ts ps) t = posting ps t @ (if t \<in> set ts \<and> t \<notin> set seen then [idx] else [])"
  by (induction idx seen ts ps rule: add_trigrams.induct) (auto simp: posting_update)

lemma windows3_short: "length bs < 3 \<Longrightarrow> windows3 bs = []"
  by (induction bs rule: windows3.induct) simp_all

lemma posting_trigram_insert:
  "posting (trigram_insert name idx ps) t =
     posting ps t @ (if t \<in> set (windows3 (as_bytes name)) then [idx] else [])"
  by (simp add: trigram_insert_def Let_def posting_add_trigrams windows3_short)

text \<open>One push, its handles and pools named.\<close>

lemma index_push_obtains:
  assumes "pool_ok (n + 7) (pi_pool ix)"
  obtains item where
    "pi_items (index_push hash r ix) = pi_items ix @ [item]"
    "item_represents (pi_pool (index_push hash r ix)) item r"
    "pool.extends (pi_pool ix) (pi_pool (index_push hash r ix))"
    "pool_ok n (pi_pool (index_push hash r ix))"
proof -
  note claim = that
  let ?ss = "[pr_name r, to_ascii_lowercase (pr_name r), pr_version r, pr_description r,
    to_ascii_lowercase (pr_description r), pr_url r, pr_repo r]"
  obtain hs p' where all: "pool.put_all ?ss (pi_pool ix) = (hs, p')" by fastforce
  have "pool_ok (n + length ?ss) (pi_pool ix)" using assms by (simp add: eval_nat_numeral)
  then have laws: "pool_ok n p'" "pool.extends (pi_pool ix) p'" "list_all (valid_handle p') hs" "map (pool_get p') hs = ?ss"
    using pool.put_all_get [OF _ all] by blast+
  obtain h1 h2 h3 h4 h5 h6 h7 where hs: "hs = [h1, h2, h3, h4, h5, h6, h7]"
    using laws(4) by (auto simp: map_eq_Cons_conv)
  define item where "item = \<lparr>cp_rpm_eligible = True, cp_name = h1, cp_name_lower = h2, cp_version = h3,
    cp_description = h4, cp_description_lower = h5, cp_url = h6, cp_size = pr_size r,
    cp_download_size = pr_download_size r, cp_repo = h7, cp_depends = pr_depends r,
    cp_licenses = pr_licenses r, cp_source = WireOfficial\<rparr>"
  have push: "pi_pool (index_push hash r ix) = p'" "pi_items (index_push hash r ix) = pi_items ix @ [item]"
    using all by (simp_all add: index_push_def Let_def hs item_def split: prod.splits)
  have "item_represents p' item r"
    using laws(3,4) by (simp add: item_represents_def item_def hs)
  then show thesis
    using laws(1,2) by (intro claim [of item]) (simp_all add: push)
qed

lemma filter_snoc_upt: "filter P [0..<Suc n] = filter P [0..<n] @ (if P n then [n] else [])"
  by simp

lemma has_trigram_snoc: "i < length rs \<Longrightarrow> has_trigram (rs @ [r]) t i = has_trigram rs t i"
  by (simp add: has_trigram_def nth_append)

lemma index_push_represents:
  assumes rep: "represents hash ix rs" and room: "pool_ok (n + 7) (pi_pool ix)"
  shows "represents hash (index_push hash r ix) (rs @ [r])" and "pool_ok n (pi_pool (index_push hash r ix))"
proof -
  let ?ix = "index_push hash r ix"
  obtain item where push: "pi_items ?ix = pi_items ix @ [item]" "item_represents (pi_pool ?ix) item r"
      "pool.extends (pi_pool ix) (pi_pool ?ix)" and ok: "pool_ok n (pi_pool ?ix)"
    using index_push_obtains [OF room] by metis
  show "pool_ok n (pi_pool ?ix)" by (rule ok)
  have items: "list_all2 (item_represents (pi_pool ix)) (pi_items ix) rs"
    and names: "\<And>name. map_of (pi_name_to_idx ix) name = first_position (\<lambda>r. pr_name r = name) rs"
    and bloom: "bloom_ok (pi_bloom ix)" "\<forall>r \<in> set rs. might_contain hash (pi_bloom ix) (pr_name r)"
    and posts: "\<And>t. posting (pi_trigrams ix) t = map of_nat (filter (has_trigram rs t) [0..<length rs])"
    using rep unfolding represents_def by blast+
  have len: "length (pi_items ix) = length rs" using items by (rule list_all2_lengthD)
  have "list_all2 (item_represents (pi_pool ?ix)) (pi_items ?ix) (rs @ [r])"
    using push(2) list_all2_mono [OF items item_represents_extends [OF push(3)]]
    by (simp add: push(1) list_all2_appendI)
  moreover have "map_of (pi_name_to_idx ?ix) name = first_position (\<lambda>r. pr_name r = name) (rs @ [r])" for name
    using names [of name]
    by (auto simp: index_push_def Let_def names first_position_append update_conv' len split: prod.splits option.splits)
  moreover have "pi_bloom ?ix = bloom_insert hash (pr_name r) (pi_bloom ix)"
    by (simp add: index_push_def Let_def split: prod.splits)
  moreover have "posting (pi_trigrams ?ix) t = map of_nat (filter (has_trigram (rs @ [r]) t) [0..<length (rs @ [r])])" for t
  proof -
    have "pi_trigrams ?ix = trigram_insert (to_ascii_lowercase (pr_name r)) (of_nat (length rs)) (pi_trigrams ix)"
      by (simp add: index_push_def Let_def len split: prod.splits)
    moreover have "filter (has_trigram (rs @ [r]) t) [0..<length rs] = filter (has_trigram rs t) [0..<length rs]"
      by (rule filter_cong) (simp_all add: has_trigram_snoc)
    ultimately show ?thesis
      by (simp add: posting_trigram_insert posts has_trigram_def [of "rs @ [r]" t "length rs"])
  qed
  ultimately show "represents hash ?ix (rs @ [r])"
    using bloom by (simp add: represents_def bloom.insert_ok bloom.insert_held bloom.insert_keeps)
qed

lemma represents_empty: "represents hash (with_capacity n) []"
  by (simp add: represents_def with_capacity_def bloom_ok_new posting_def)

lemma pool_ok_empty: "n \<le> 2 ^ 32 \<Longrightarrow> pool_ok n pool_empty"
  by (simp add: pool_ok_def pool_empty_def)

lemma fold_push_represents:
  assumes "represents hash ix rs" "pool_ok (n + 7 * length rs') (pi_pool ix)"
  shows "represents hash (fold (index_push hash) rs' ix) (rs @ rs')
    \<and> pool_ok n (pi_pool (fold (index_push hash) rs' ix))"
  using assms
proof (induction rs' arbitrary: ix rs)
  case (Cons r rs')
  have room: "pool_ok ((n + 7 * length rs') + 7) (pi_pool ix)" using Cons.prems(2) by (simp add: algebra_simps)
  show ?case
    using Cons.IH [OF index_push_represents [OF Cons.prems(1) room]] by simp
qed simp

lemma index_of_records_represents:
  assumes "7 * length rs \<le> 2 ^ 32"
  shows "represents hash (index_of_records hash rs) rs"
  using fold_push_represents [OF represents_empty, of 0 rs "length rs" hash] pool_ok_empty [OF assms]
  by (simp add: index_of_records_def with_capacity_def)


lemma represents_eligible:
  "represents hash (ix\<lparr>pi_items := (pi_items ix)[i := (pi_items ix ! i)\<lparr>cp_rpm_eligible := b\<rparr>]\<rparr>) rs"
  if rep: "represents hash ix rs"
proof -
  have "item_represents p (item\<lparr>cp_rpm_eligible := b\<rparr>) r = item_represents p item r" for p item r
    by (simp add: item_represents_def)
  then have "list_all2 (item_represents p) ((items)[i := (items ! i)\<lparr>cp_rpm_eligible := b\<rparr>]) rs"
    if "list_all2 (item_represents p) items rs" for p items
    using that by (cases "i < length items") (simp_all add: list_all2_conv_all_nth nth_list_update list_update_beyond)
  then show ?thesis using rep unfolding represents_def by simp
qed

definition inventory_records :: "(string \<times> string \<times> string \<times> bool) list \<Rightarrow> package_record list" where
  "inventory_records packages = map (\<lambda>(name, version, description, _). inventory_record name version description) packages"

lemma fold_from_package_represents:
  assumes "represents hash ix rs" "pool_ok (n + 7 * length ps) (pi_pool ix)"
  shows "represents hash (fold (from_package hash) ps ix) (rs @ inventory_records ps)
    \<and> pool_ok n (pi_pool (fold (from_package hash) ps ix))"
  using assms
proof (induction ps arbitrary: ix rs)
  case (Cons p ps)
  obtain name version description official where p: "p = (name, version, description, official)" by (cases p)
  have room: "pool_ok ((n + 7 * length ps) + 7) (pi_pool ix)" using Cons.prems(2) by (simp add: algebra_simps)
  note push = index_push_represents [OF Cons.prems(1) room, where r = "inventory_record name version description"]
  have "represents hash (from_package hash p ix) (rs @ [inventory_record name version description])"
    using represents_eligible [OF push(1)] by (simp add: from_package_def p Let_def)
  moreover have "pool_ok (n + 7 * length ps) (pi_pool (from_package hash p ix))"
    using push(2) by (simp add: from_package_def p Let_def)
  ultimately show ?case
    using Cons.IH [of "from_package hash p ix" "rs @ [inventory_record name version description]"]
    by (simp add: inventory_records_def p)
qed (simp add: inventory_records_def)

lemma represents_name_kind: "represents hash (ix\<lparr>pi_name_kind := k\<rparr>) rs = represents hash ix rs"
  by (simp add: represents_def)

lemma from_packages_represents:
  assumes "7 * length ps \<le> 2 ^ 32"
  shows "represents hash (from_packages hash ps kind) (inventory_records ps)"
    and "pool_ok 0 (pi_pool (from_packages hash ps kind))"
proof -
  let ?ix = "(with_capacity (length ps))\<lparr>pi_name_kind := kind\<rparr>"
  have "represents hash ?ix []" by (simp add: represents_name_kind represents_empty)
  moreover have "pool_ok (0 + 7 * length ps) (pi_pool ?ix)"
    using pool_ok_empty [OF assms] by (simp add: with_capacity_def)
  ultimately have "represents hash (fold (from_package hash) ps ?ix) ([] @ inventory_records ps)
      \<and> pool_ok 0 (pi_pool (fold (from_package hash) ps ?ix))"
    by (rule fold_from_package_represents)
  then show "represents hash (from_packages hash ps kind) (inventory_records ps)"
    and "pool_ok 0 (pi_pool (from_packages hash ps kind))"
    by (simp_all add: from_packages_def)
qed

section \<open>Well-formed indexes\<close>

text \<open>Every handle, position and posting of the index is in range, so no access of it can fail.\<close>

definition item_ok :: "string_pool \<Rightarrow> compact_package \<Rightarrow> bool" where
  "item_ok p item = list_all (valid_handle p) [cp_name item, cp_name_lower item, cp_version item,
     cp_description item, cp_description_lower item, cp_url item, cp_repo item]"

definition index_ok :: "package_index \<Rightarrow> bool" where
  "index_ok ix =
     (list_all (item_ok (pi_pool ix)) (pi_items ix) \<and>
      list_all (\<lambda>(name, _). case map_of (pi_name_to_idx ix) name of
          None \<Rightarrow> False
        | Some idx \<Rightarrow> idx < length (pi_items ix) \<and> item_name ix idx = name) (pi_name_to_idx ix) \<and>
      list_all (\<lambda>(t, _). list_all (\<lambda>idx. unat idx < length (pi_items ix)) (posting (pi_trigrams ix) t) \<and>
        distinct (posting (pi_trigrams ix) t)) (pi_trigrams ix) \<and>
      list_all (\<lambda>(s, _). case map_of (sp_dedup (pi_pool ix)) s of
          None \<Rightarrow> False
        | Some h \<Rightarrow> valid_handle (pi_pool ix) h \<and> pool_get (pi_pool ix) h = s) (sp_dedup (pi_pool ix)) \<and>
      bloom_ok (pi_bloom ix))"

lemma list_all_keys:
  assumes "\<And>k v. map_of m k = Some v \<Longrightarrow> P k v"
  shows "list_all (\<lambda>(k, _). case map_of m k of None \<Rightarrow> False | Some v \<Rightarrow> P k v) m"
proof -
  have "map_of m k \<noteq> None" if "(k, v) \<in> set m" for k v
    using that weak_map_of_SomeI [of k v m] by auto
  then show ?thesis using assms by (fastforce simp: list_all_iff split: option.splits)
qed

lemma inj_on_of_nat_32: "inj_on (of_nat :: nat \<Rightarrow> 32 word) {..< 2 ^ 32}"
  by (rule inj_on_inverseI [where g = unat]) (simp add: unat_of_nat_32)

lemma represents_item:
  assumes "represents hash ix rs" "i < length rs"
  shows "item_represents (pi_pool ix) (pi_items ix ! i) (rs ! i)"
  using assms unfolding represents_def by (simp add: list_all2_nthD2)

lemma represents_length: "represents hash ix rs \<Longrightarrow> length (pi_items ix) = length rs"
  unfolding represents_def by (blast dest: list_all2_lengthD)

lemma represents_names:
  assumes "represents hash ix rs" "i < length rs"
  shows "item_name ix i = pr_name (rs ! i)" "item_name_lower ix i = to_ascii_lowercase (pr_name (rs ! i))"
    "item_description_lower ix i = to_ascii_lowercase (pr_description (rs ! i))"
  using represents_item [OF assms]
  by (simp_all add: item_represents_def item_name_def item_name_lower_def item_description_lower_def)

lemma represents_index_ok:
  assumes rep: "represents hash ix rs" and ok: "pool_ok 0 (pi_pool ix)" and len: "length rs \<le> 2 ^ 32"
  shows "index_ok ix"
proof -
  have "list_all (item_ok (pi_pool ix)) (pi_items ix)"
    using represents_item [OF rep] represents_length [OF rep]
    by (auto simp: list_all_length item_ok_def item_represents_def)
  moreover have "idx < length (pi_items ix) \<and> item_name ix idx = name"
    if "map_of (pi_name_to_idx ix) name = Some idx" for name idx
  proof -
    have "first_position (\<lambda>r. pr_name r = name) rs = Some idx"
      using that rep unfolding represents_def by simp
    then show ?thesis
      using first_position_Some represents_names(1) [OF rep] represents_length [OF rep] by fastforce
  qed
  note names = list_all_keys [of "pi_name_to_idx ix" "\<lambda>name idx. idx < length (pi_items ix) \<and> item_name ix idx = name", OF this]
  moreover have "list_all (\<lambda>idx. unat idx < length (pi_items ix)) (posting (pi_trigrams ix) t) \<and>
      distinct (posting (pi_trigrams ix) t)" for t
  proof -
    have post: "posting (pi_trigrams ix) t = map of_nat (filter (has_trigram rs t) [0..<length rs])"
      using rep unfolding represents_def by blast
    have "inj_on (of_nat :: nat \<Rightarrow> 32 word) {0..<length rs}"
      using len by (auto intro: inj_on_subset [OF inj_on_of_nat_32])
    then show ?thesis
      using len unfolding post
      by (auto simp: list_all_iff distinct_map unat_of_nat_32 represents_length [OF rep] intro: inj_on_subset)
  qed
  then have "list_all (\<lambda>(t, _). list_all (\<lambda>idx. unat idx < length (pi_items ix)) (posting (pi_trigrams ix) t) \<and>
      distinct (posting (pi_trigrams ix) t)) (pi_trigrams ix)"
    by (simp add: list_all_iff)
  moreover note list_all_keys [of "sp_dedup (pi_pool ix)" "\<lambda>s h. valid_handle (pi_pool ix) h \<and> pool_get (pi_pool ix) h = s"]
  ultimately show ?thesis
    using rep ok unfolding index_ok_def represents_def pool_ok_def valid_handle_def pool_get_def by blast
qed

end
