(* ===== verification/Package_Search.thy ===== *)
theory Package_Search
  imports Package_Index
begin

text \<open>
  What the daemon's package index promises, \<^verbatim>\<open>daemon/index.rs\<close>: an index built from package records
  is well formed, exact lookup is lookup in the list of records, and search through the trigram
  postings finds what a scan of all names finds.
\<close>

section \<open>Lookup\<close>

definition record_detail :: "package_record \<Rightarrow> detailed_package" where
  "record_detail r =
     \<lparr>dpi_name = pr_name r, dpi_version = pr_version r, dpi_description = pr_description r, dpi_url = pr_url r,
      dpi_size = pr_size r, dpi_download_size = pr_download_size r, dpi_repo = pr_repo r,
      dpi_depends = pr_depends r, dpi_licenses = pr_licenses r, dpi_source = WireOfficial\<rparr>"

text \<open>The specification: the first record of that name.\<close>

definition lookup_record :: "package_record list \<Rightarrow> string \<Rightarrow> detailed_package option" where
  "lookup_record rs name = map_option record_detail (find (\<lambda>r. pr_name r = name) rs)"

lemma represents_detail:
  assumes "represents hash ix rs" "i < length rs"
  shows "detail ix (pi_items ix ! i) = record_detail (rs ! i)"
  using represents_item [OF assms] by (simp add: item_represents_def detail_def record_detail_def)

lemma represents_get:
  assumes rep: "represents hash ix rs"
  shows "index_get hash ix name = lookup_record rs name"
proof (cases "first_position (\<lambda>r. pr_name r = name) rs")
  case None
  then have "map_of (pi_name_to_idx ix) name = None" using rep unfolding represents_def by simp
  then show ?thesis using None by (simp add: index_get_def lookup_record_def find_first_position)
next
  case (Some i)
  note at = first_position_Some [OF Some]
  then have "might_contain hash (pi_bloom ix) name"
    using rep unfolding represents_def by (metis nth_mem)
  moreover have "map_of (pi_name_to_idx ix) name = Some i" using rep Some unfolding represents_def by simp
  ultimately show ?thesis
    using at represents_detail [OF rep] by (simp add: index_get_def lookup_record_def find_first_position Some)
qed

section \<open>Candidates\<close>

lemma intersect_postings_Some:
  "intersect_postings ps ts (Some prev) = Some (filter (\<lambda>i. \<forall>t \<in> set ts. i \<in> set (posting ps t)) prev)"
proof (induction ts arbitrary: prev)
  case (Cons t ts)
  then show ?case
    by (cases "map_of ps t") (simp_all add: posting_def filter_filter conj_commute)
qed simp

lemma intersect_postings_None:
  "intersect_postings ps (t # ts) None = Some (filter (\<lambda>i. \<forall>t \<in> set ts. i \<in> set (posting ps t)) (posting ps t))"
  by (cases "map_of ps t") (simp_all add: intersect_postings_Some posting_def)

lemma windows3_nonempty: "3 \<le> length bs \<Longrightarrow> windows3 bs \<noteq> []"
  by (induction bs rule: windows3.induct) simp_all

lemma windows3_append: "set (windows3 ys) \<subseteq> set (windows3 (xs @ ys))"
proof (induction xs)
  case (Cons x xs)
  have "set (windows3 zs) \<subseteq> set (windows3 (x # zs))" for zs
    by (cases zs; cases "tl zs") (auto simp: neq_Nil_conv)
  then show ?case using Cons by (metis append_Cons order_trans)
qed simp

lemma windows3_take: "set (windows3 xs) \<subseteq> set (windows3 (xs @ ys))"
  by (induction xs rule: windows3.induct) auto

lemma windows3_sublist: "set (windows3 q) \<subseteq> set (windows3 (a @ q @ b))"
  using windows3_append [of "q @ b" a] windows3_take [of q b] by blast

text \<open>The candidates are the positions of the names with all trigrams of the query, in order.\<close>

lemma candidates_represents:
  assumes rep: "represents hash ix rs" and len: "length rs \<le> 2 ^ 32" and long: "3 \<le> length (as_bytes q)"
  shows "candidates (pi_trigrams ix) q =
    Some (map of_nat (filter (\<lambda>i. \<forall>t \<in> set (windows3 (as_bytes q)). has_trigram rs t i) [0..<length rs]))"
proof -
  have post: "posting (pi_trigrams ix) t = map of_nat (filter (has_trigram rs t) [0..<length rs])" for t
    using rep unfolding represents_def by blast
  have mem: "of_nat i \<in> set (posting (pi_trigrams ix) t) \<longleftrightarrow> has_trigram rs t i" if "i < length rs" for i t
  proof -
    have "of_nat i = (of_nat j :: 32 word) \<longleftrightarrow> i = j" if "j < length rs" for j
      using \<open>i < length rs\<close> that len unat_of_nat_32 [of i] unat_of_nat_32 [of j] by (metis order_less_le_trans)
    then show ?thesis using that by (auto simp: post)
  qed
  obtain t ts where ts: "windows3 (as_bytes q) = t # ts" using windows3_nonempty [OF long] by (cases "windows3 (as_bytes q)") auto
  have "candidates (pi_trigrams ix) q =
      Some (filter (\<lambda>i. \<forall>t \<in> set ts. i \<in> set (posting (pi_trigrams ix) t)) (posting (pi_trigrams ix) t))"
    using long by (simp add: candidates_def Let_def ts intersect_postings_None del: intersect_postings.simps)
  also have "\<dots> = Some (map of_nat (filter (\<lambda>i. \<forall>t \<in> set (windows3 (as_bytes q)). has_trigram rs t i) [0..<length rs]))"
    unfolding post [of t] filter_map filter_filter ts by (auto simp: comp_def mem intro!: arg_cong [where f = "map of_nat"] filter_cong)
  finally show ?thesis .
qed


section \<open>Scoring names\<close>

definition lower_name :: "package_record list \<Rightarrow> nat \<Rightarrow> string" where
  "lower_name rs i = to_ascii_lowercase (pr_name (rs ! i))"

definition lower_description :: "package_record list \<Rightarrow> nat \<Rightarrow> string" where
  "lower_description rs i = to_ascii_lowercase (pr_description (rs ! i))"

definition name_score :: "string \<Rightarrow> package_record list \<Rightarrow> nat \<Rightarrow> relevance_score option" where
  "name_score q rs i = score_occurrences q (lower_name rs i) i False (match_indices q 0 (lower_name rs i))"

lemma prefix_take: "prefix q s \<longleftrightarrow> take (length q) s = q"
  by (metis append_eq_conv_conj prefix_def append_take_drop_id)

lemma match_indices_Nil: "q \<noteq> [] \<Longrightarrow> match_indices q pos s = [] \<longleftrightarrow> \<not> str_contains q s"
proof (induction q pos s rule: match_indices.induct)
  case (1 q pos s)
  then show ?case
    by (cases s) (simp_all add: match_indices.simps [of q pos] prefix_take sublist_Cons_right)
qed

lemma score_occurrences_None: "score_occurrences q name i found ps = None \<longleftrightarrow> \<not> found \<and> ps = []"
  by (induction q name i found ps rule: score_occurrences.induct) (simp_all del: not_None_eq)

lemma score_occurrences_Some:
  "score_occurrences q name i found ps = Some s \<Longrightarrow> \<exists>rank \<ge> 1. s = relevance_score rank (str_len name) i"
  by (induction q name i found ps rule: score_occurrences.induct)
    (auto simp: relevance_score_def split: if_splits)

lemma name_score_None: "q \<noteq> [] \<Longrightarrow> name_score q rs i = None \<longleftrightarrow> \<not> str_contains q (lower_name rs i)"
  by (simp add: name_score_def score_occurrences_None match_indices_Nil)

lemma represents_score:
  assumes "represents hash ix rs" "pi_name_kind ix = Literal" "i < length rs"
  shows "score_name_match ix q (item_name_lower ix i) i = name_score q rs i"
  using represents_names(2) [OF assms(1,3)] assms(2)
  by (simp add: score_name_match_def name_score_def lower_name_def exact_key_def)

lemma str_contains_bytes: "str_contains q s \<Longrightarrow> \<exists>a b. as_bytes s = a @ as_bytes q @ b"
  by (auto simp: sublist_def) blast

lemma name_score_trigrams:
  assumes "q \<noteq> []" "name_score q rs i \<noteq> None" "t \<in> set (windows3 (as_bytes q))"
  shows "has_trigram rs t i"
  using assms name_score_None [of q rs i] str_contains_bytes [of q "lower_name rs i"] windows3_sublist
  unfolding has_trigram_def lower_name_def by (metis in_mono)

section \<open>The matches a search collects\<close>

definition name_matches :: "string \<Rightarrow> package_record list \<Rightarrow> nat list \<Rightarrow> (relevance_score \<times> nat) list" where
  "name_matches q rs is = map (\<lambda>i. (the (name_score q rs i), i)) (filter (\<lambda>i. name_score q rs i \<noteq> None) is)"

definition description_only :: "string \<Rightarrow> package_record list \<Rightarrow> nat \<Rightarrow> bool" where
  "description_only q rs i =
     (find_bytes (as_bytes q) (as_bytes (lower_description rs i)) \<and> name_score q rs i = None)"

definition description_matches :: "package_record list \<Rightarrow> nat list \<Rightarrow> (relevance_score \<times> nat) list" where
  "description_matches rs is = map (\<lambda>i. (relevance_score 0 (str_len (lower_name rs i)) i, i)) is"

definition as_scored :: "(relevance_score \<times> nat) list \<Rightarrow> scored_match list" where
  "as_scored ms = map (apsnd of_nat) ms"

lemma as_scored_simps [simp]:
  "as_scored [] = []" "as_scored (m # ms) = apsnd of_nat m # as_scored ms"
  "as_scored (ms @ ms') = as_scored ms @ as_scored ms'" "length (as_scored ms) = length ms"
  by (simp_all add: as_scored_def)

lemma name_matches_simps [simp]:
  "name_matches q rs [] = []"
  "name_matches q rs (i # is) =
     (case name_score q rs i of None \<Rightarrow> name_matches q rs is | Some s \<Rightarrow> (s, i) # name_matches q rs is)"
  by (simp_all add: name_matches_def split: option.split)

lemma name_matches_filter:
  "(\<And>i. name_score q rs i \<noteq> None \<Longrightarrow> P i) \<Longrightarrow> name_matches q rs (filter P is) = name_matches q rs is"
  by (induction "is") (force split: option.splits)+

lemma description_matches_simps [simp]:
  "description_matches rs [] = []"
  "description_matches rs (is @ [i]) =
     description_matches rs is @ [(relevance_score 0 (str_len (lower_name rs i)) i, i)]"
  "length (description_matches rs is) = length is"
  by (simp_all add: description_matches_def)

lemma description_match_represents:
  assumes "represents hash ix rs" "i < length rs"
  shows "[description_match ix i] = as_scored (description_matches rs [i])"
    "item_description_lower ix i = lower_description rs i"
  using represents_names [OF assms]
  by (simp_all add: description_match_def description_matches_def lower_name_def lower_description_def)

lemma score_candidates_represents:
  assumes rep: "represents hash ix rs" "pi_name_kind ix = Literal" and len: "length rs \<le> 2 ^ 32"
  shows "\<forall>i \<in> set is. i < length rs \<Longrightarrow> score_candidates ix q (map of_nat is) = as_scored (name_matches q rs is)"
proof (induction "is")
  case (Cons i "is")
  then have "unat (of_nat i :: 32 word) = i" using len by (auto intro: unat_of_nat_32)
  then show ?case
    using Cons represents_score [OF rep, of i q] by (simp split: option.split)
qed simp

lemma scan_descriptions_represents:
  assumes rep: "represents hash ix rs" "pi_name_kind ix = Literal" and "\<forall>i \<in> set is. i < length rs"
  shows "\<exists>ds. scan_descriptions ix q limit c is acc = acc @ as_scored (description_matches rs ds) \<and>
    subseq ds (filter (description_only q rs) is) \<and>
    (ds = filter (description_only q rs) is \<or> limit * 4 \<le> c + length acc + length ds)"
  using assms(3)
proof (induction "is" arbitrary: acc)
  case Nil
  show ?case by (rule exI [of _ "[]"]) simp
next
  case (Cons i "is")
  show ?case
  proof (cases "limit * 4 \<le> c + length acc")
    case True
    then show ?thesis by (intro exI [of _ "[]"]) simp
  next
    case False
    have at: "description_only q rs i \<longleftrightarrow> find_bytes (as_bytes q) (as_bytes (item_description_lower ix i)) \<and>
        score_name_match ix q (item_name_lower ix i) i = None"
      using Cons.prems by (simp add: description_only_def represents_score [OF rep] description_match_represents [OF rep(1)])
    show ?thesis
    proof (cases "description_only q rs i")
      case True
      obtain ds where "scan_descriptions ix q limit c is (acc @ [description_match ix i]) =
          (acc @ [description_match ix i]) @ as_scored (description_matches rs ds)"
        "subseq ds (filter (description_only q rs) is)"
        "ds = filter (description_only q rs) is \<or> limit * 4 \<le> c + length (acc @ [description_match ix i]) + length ds"
        using Cons.IH [of "acc @ [description_match ix i]"] Cons.prems by auto
      then show ?thesis
        using False True at Cons.prems
        by (intro exI [of _ "i # ds"])
          (auto simp: description_match_represents(1) [OF rep(1)] description_matches_def)
    next
      case no: False
      then show ?thesis using False at Cons.IH [of acc] Cons.prems by auto
    qed
  qed
qed

lemma scan_items_represents:
  assumes rep: "represents hash ix rs" "pi_name_kind ix = Literal" and "\<forall>i \<in> set is. i < length rs"
  shows "\<exists>ds. mset (scan_items ix q limit c is acc) =
      mset acc + mset (as_scored (name_matches q rs is)) + mset (as_scored (description_matches rs ds)) \<and>
    subseq ds (filter (description_only q rs) is) \<and>
    (ds = filter (description_only q rs) is \<or> limit \<le> c + length (name_matches q rs is))"
  using assms(3)
proof (induction "is" arbitrary: acc c)
  case Nil
  show ?case by (rule exI [of _ "[]"]) simp
next
  case (Cons i "is")
  have score: "score_name_match ix q (item_name_lower ix i) i = name_score q rs i"
    and desc: "item_description_lower ix i = lower_description rs i"
    and one: "[description_match ix i] = as_scored (description_matches rs [i])"
    using Cons.prems by (simp_all add: represents_score [OF rep] description_match_represents [OF rep(1)])
  show ?case
  proof (cases "name_score q rs i")
    case (Some s)
    then have "\<not> description_only q rs i" by (simp add: description_only_def)
    then show ?thesis
      using Cons.IH [of "c + 1" "acc @ [(s, of_nat i)]"] Cons.prems by (auto simp: score Some)
  next
    case None
    let ?acc = "if c < limit \<and> description_only q rs i then acc @ [description_match ix i] else acc"
    have step: "scan_items ix q limit c (i # is) acc = scan_items ix q limit c is ?acc"
      by (simp add: score None desc description_only_def)
    obtain ds where ds: "mset (scan_items ix q limit c is ?acc) =
        mset ?acc + mset (as_scored (name_matches q rs is)) + mset (as_scored (description_matches rs ds))"
      "subseq ds (filter (description_only q rs) is)"
      "ds = filter (description_only q rs) is \<or> limit \<le> c + length (name_matches q rs is)"
      using Cons.IH [of c ?acc] Cons.prems by auto
    show ?thesis
    proof (cases "c < limit \<and> description_only q rs i")
      case True
      then show ?thesis
        using ds one by (intro exI [of _ "i # ds"]) (auto simp: step None description_matches_def simp del: scan_items.simps)
    next
      case False
      then show ?thesis using ds by (intro exI [of _ ds]) (auto simp: step None simp del: scan_items.simps)
    qed
  qed
qed


text \<open>All name matches are collected; description matches are missing only when the limit is reached.\<close>

lemma scored_matches_represents:
  assumes rep: "represents hash ix rs" "pi_name_kind ix = Literal" and len: "length rs \<le> 2 ^ 32" and q: "q \<noteq> []"
  shows "\<exists>ds. mset (scored_matches ix q limit) =
      mset (as_scored (name_matches q rs [0..<length rs])) + mset (as_scored (description_matches rs ds)) \<and>
    subseq ds (filter (description_only q rs) [0..<length rs]) \<and>
    (ds = filter (description_only q rs) [0..<length rs] \<or>
     limit \<le> length (name_matches q rs [0..<length rs]) + length ds)"
proof (cases "3 \<le> length (as_bytes q)")
  case False
  then have "candidates (pi_trigrams ix) q = None" by (simp add: candidates_def Let_def)
  then show ?thesis
    using scan_items_represents [OF rep, of "[0..<length rs]" q limit 0 "[]"]
    by (auto simp: scored_matches_def represents_length [OF rep(1)])
next
  case True
  let ?ns = "name_matches q rs [0..<length rs]"
  let ?P = "\<lambda>i. \<forall>t \<in> set (windows3 (as_bytes q)). has_trigram rs t i"
  have cs: "candidates (pi_trigrams ix) q = Some (map of_nat (filter ?P [0..<length rs]))"
    by (rule candidates_represents [OF rep(1) len True])
  have "name_matches q rs (filter ?P [0..<length rs]) = ?ns"
    by (rule name_matches_filter) (use name_score_trigrams [OF q] in blast)
  then have "score_candidates ix q (map of_nat (filter ?P [0..<length rs])) = as_scored ?ns"
    by (subst score_candidates_represents [OF rep len]) simp_all
  then have eq: "scored_matches ix q limit =
      (if length ?ns < limit then scan_descriptions ix q limit (length ?ns) [0..<length rs] (as_scored ?ns) else as_scored ?ns)"
    by (simp add: scored_matches_def cs Let_def represents_length [OF rep(1)])
  show ?thesis
  proof (cases "length ?ns < limit")
    case few: True
    obtain ds where "scan_descriptions ix q limit (length ?ns) [0..<length rs] (as_scored ?ns) =
        as_scored ?ns @ as_scored (description_matches rs ds)"
      "subseq ds (filter (description_only q rs) [0..<length rs])"
      "ds = filter (description_only q rs) [0..<length rs] \<or>
        limit * 4 \<le> length ?ns + length (as_scored ?ns) + length ds"
      using scan_descriptions_represents [OF rep, of "[0..<length rs]" q limit "length ?ns" "as_scored ?ns"] by auto
    then show ?thesis using few by (intro exI [of _ ds]) (auto simp: eq)
  next
    case enough: False
    then show ?thesis by (intro exI [of _ "[]"]) (simp add: eq)
  qed
qed

section \<open>Ranking\<close>

lemma sort_as_scored: "sort_key fst (as_scored ms) = as_scored (sort_key fst ms)"
proof -
  have "insort_key fst (apsnd of_nat m) (as_scored ms) = as_scored (insort_key fst m ms)" for m ms
    by (induction ms) simp_all
  then show ?thesis by (induction ms) simp_all
qed

lemma best_matches_split:
  assumes "mset ms = mset ns + mset ds" "inj_on fst (set ms)" "\<And>n d. n \<in> set ns \<Longrightarrow> d \<in> set ds \<Longrightarrow> fst d \<le> fst n"
  shows "best_matches limit ms = take limit (rev (sort_key fst ns) @ rev (sort_key fst ds))"
proof -
  have "sort_key fst ms = sort_key fst ds @ sort_key fst ns"
    by (rule sort_key_inj_key_eq) (use assms in \<open>auto simp: sorted_append\<close>)
  then show ?thesis by (simp add: best_matches_def)
qed

lemma relevance_score_inj:
  "relevance_score a l i = relevance_score b m j \<Longrightarrow> i \<le> 2 ^ 32 \<Longrightarrow> j \<le> 2 ^ 32 \<Longrightarrow> i = j"
  by (auto simp: relevance_score_def max_def split: if_splits)

lemma relevance_score_less: "1 \<le> b \<Longrightarrow> relevance_score 0 l i \<le> relevance_score b m j"
  by (simp add: relevance_score_def less_eq_prod_def)

lemma name_matches_elem:
  "m \<in> set (name_matches q rs is) \<Longrightarrow> \<exists>rank \<ge> 1. fst m = relevance_score rank (str_len (lower_name rs (snd m))) (snd m)
     \<and> snd m \<in> set is"
  by (auto simp: name_matches_def name_score_def dest: score_occurrences_Some)

lemma description_matches_elem:
  "m \<in> set (description_matches rs is) \<Longrightarrow> fst m = relevance_score 0 (str_len (lower_name rs (snd m))) (snd m)
     \<and> snd m \<in> set is"
  by (auto simp: description_matches_def)

text \<open>The positions of the records whose name contains the query, best first.\<close>

definition ranked_names :: "string \<Rightarrow> package_record list \<Rightarrow> nat list" where
  "ranked_names q rs = map snd (rev (sort_key fst (name_matches q rs [0..<length rs])))"

lemma set_ranked_names:
  "q \<noteq> [] \<Longrightarrow> set (ranked_names q rs) = {i. i < length rs \<and> str_contains q (lower_name rs i)}"
  by (auto simp: ranked_names_def name_matches_def image_image name_score_None simp del: not_None_eq)

definition record_info :: "package_record \<Rightarrow> package_info" where
  "record_info r = \<lparr>pk_name = pr_name r, pk_version = pr_version r, pk_description = pr_description r, pk_source = WireOfficial\<rparr>"

lemma represents_info:
  assumes "represents hash ix rs" "i < length rs"
  shows "item_info ix i = record_info (rs ! i)"
  using represents_item [OF assms] by (simp add: item_represents_def item_info_def record_info_def Let_def)

lemma subseq_set: "subseq xs ys \<Longrightarrow> set xs \<subseteq> set ys"
  by (induction rule: list_emb.induct) auto

lemma subseq_distinct_list: "subseq xs ys \<Longrightarrow> distinct ys \<Longrightarrow> distinct xs"
  by (induction rule: list_emb.induct) (auto dest: subseq_set)

lemma scored_keys_inj:
  assumes "\<And>m. m \<in> M \<Longrightarrow> \<exists>rank. fst m = relevance_score rank (str_len (f (snd m))) (snd m) \<and> snd m < 2 ^ 32"
  shows "inj_on fst (apsnd (of_nat :: nat \<Rightarrow> 32 word) ` M)"
proof (rule inj_onI)
  fix x y :: scored_match
  assume "x \<in> apsnd of_nat ` M" "y \<in> apsnd of_nat ` M" and eq: "fst x = fst y"
  then obtain m m' where mm: "m \<in> M" "m' \<in> M" "x = apsnd of_nat m" "y = apsnd of_nat m'" by blast
  then have "snd m = snd m'"
    using assms [OF mm(1)] assms [OF mm(2)] eq by (metis fst_apsnd less_imp_le relevance_score_inj)
  then show "x = y" using mm eq by (simp add: prod_eq_iff)
qed

lemma best_scored_matches:
  assumes rep: "represents hash ix rs" "pi_name_kind ix = Literal" and len: "length rs \<le> 2 ^ 32" and q: "q \<noteq> []"
  shows "\<exists>ms. best_matches limit (scored_matches ix q limit) = take limit (as_scored ms) \<and>
    (\<exists>ds. map snd ms = ranked_names q rs @ ds \<and> distinct ds \<and>
      set ds \<subseteq> {i. i < length rs \<and> description_only q rs i} \<and>
      (set ds = {i. i < length rs \<and> description_only q rs i} \<or> limit \<le> length ms))"
proof -
  let ?ns = "name_matches q rs [0..<length rs]" and ?D = "filter (description_only q rs) [0..<length rs]"
  obtain ds where ms: "mset (scored_matches ix q limit) = mset (as_scored ?ns) + mset (as_scored (description_matches rs ds))"
    and sub: "subseq ds ?D" and all: "ds = ?D \<or> limit \<le> length ?ns + length ds"
    using scored_matches_represents [OF assms, of limit] by (elim exE conjE) (rule that)
  let ?ds = "description_matches rs ds"
  have dsub: "set ds \<subseteq> set ?D" by (rule subseq_set [OF sub])
  have elem: "\<exists>rank. fst m = relevance_score rank (str_len (lower_name rs (snd m))) (snd m) \<and> snd m < length rs"
    if "m \<in> set ?ns \<union> set ?ds" for m
    using that dsub name_matches_elem [of m q rs "[0..<length rs]"] description_matches_elem [of m rs ds] by auto
  have set: "set (scored_matches ix q limit) = apsnd of_nat ` (set ?ns \<union> set ?ds)"
    using arg_cong [OF ms, of set_mset] by (simp add: as_scored_def image_Un)
  have "inj_on fst (set (scored_matches ix q limit))"
    unfolding set using elem len by (intro scored_keys_inj [where f = "lower_name rs"]) (meson order_less_le_trans)
  moreover have "fst d \<le> fst n" if "n \<in> set (as_scored ?ns)" "d \<in> set (as_scored ?ds)" for n d
  proof -
    note nd = that
    obtain n' where n': "n' \<in> set ?ns" "fst n = fst n'" using nd(1) unfolding as_scored_def by fastforce
    obtain d' where d': "d' \<in> set ?ds" "fst d = fst d'" using nd(2) unfolding as_scored_def by fastforce
    show ?thesis
      using name_matches_elem [OF n'(1)] description_matches_elem [OF d'(1)] n'(2) d'(2)
      by (auto intro: relevance_score_less)
  qed
  ultimately have best: "best_matches limit (scored_matches ix q limit) =
      take limit (as_scored (rev (sort_key fst ?ns) @ rev (sort_key fst ?ds)))"
    using ms by (subst best_matches_split [of _ "as_scored ?ns" "as_scored ?ds"])
      (simp_all add: sort_as_scored, simp_all add: as_scored_def rev_map)
  have "distinct ds" using subseq_distinct_list [OF sub] by simp
  then have "distinct (map snd (rev (sort_key fst ?ds)))"
    by (simp add: distinct_map description_matches_def inj_on_def)
  moreover have "set (map snd (rev (sort_key fst ?ds))) = set ds"
    by (auto simp: description_matches_def image_image)
  ultimately show ?thesis
    using best dsub all
    by (intro exI [of _ "rev (sort_key fst ?ns) @ rev (sort_key fst ?ds)"] conjI
      exI [of _ "map snd (rev (sort_key fst ?ds))"]) (auto simp: ranked_names_def)
qed


lemma search_represents:
  assumes rep: "represents hash ix rs" "pi_name_kind ix = Literal" and len: "length rs \<le> 2 ^ 32"
    and q: "query \<noteq> []" "0 < limit"
  defines "q \<equiv> to_ascii_lowercase query"
  shows "\<exists>ds. search fuzzy ix query limit = map (\<lambda>i. record_info (rs ! i)) (take limit (ranked_names q rs @ ds)) \<and>
    distinct ds \<and> set ds \<subseteq> {i. i < length rs \<and> description_only q rs i} \<and>
    (set ds = {i. i < length rs \<and> description_only q rs i} \<or> limit \<le> length (ranked_names q rs) + length ds)"
proof -
  have q': "q \<noteq> []" using q(1) by (simp add: q_def to_ascii_lowercase_def)
  obtain ms ds where best: "best_matches limit (scored_matches ix q limit) = take limit (as_scored ms)"
    and ms: "map snd ms = ranked_names q rs @ ds" and ds: "distinct ds" "set ds \<subseteq> {i. i < length rs \<and> description_only q rs i}"
      "set ds = {i. i < length rs \<and> description_only q rs i} \<or> limit \<le> length ms"
    using best_scored_matches [OF rep len q', of limit] by (elim exE conjE) (rule that)
  have ranked: "set (map snd ms) \<subseteq> {i. i < length rs}"
    unfolding ms using ds(2) set_ranked_names [OF q'] by auto
  have unat: "unat (snd (apsnd of_nat m :: scored_match)) = snd m" "snd m < length rs" if "m \<in> set ms" for m
    using that ranked len by (auto simp: unat_of_nat_32)
  have keep: "filter (\<lambda>m. unat (snd m) < length (pi_items ix)) (take limit (as_scored ms)) = take limit (as_scored ms)"
    using unat by (auto simp: as_scored_def represents_length [OF rep(1)] take_map filter_id_conv dest!: in_set_takeD)
  have "search fuzzy ix query limit = map (\<lambda>m. item_info ix (unat (snd m))) (take limit (as_scored ms))"
    using q rep(2) by (simp add: search_def search_literal_def Let_def best keep flip: q_def)
  also have "\<dots> = map (\<lambda>i. record_info (rs ! i)) (take limit (map snd ms))"
    unfolding as_scored_def take_map map_map
    by (rule map_cong) (use unat in \<open>auto simp: represents_info [OF rep(1)] dest!: in_set_takeD\<close>)
  finally have "search fuzzy ix query limit = map (\<lambda>i. record_info (rs ! i)) (take limit (ranked_names q rs @ ds))"
    unfolding ms .
  moreover have "length ms = length (ranked_names q rs) + length ds" using arg_cong [OF ms, of length] by simp
  ultimately show ?thesis using ds by (intro exI [of _ ds]) simp
qed

lemma index_of_records_kind: "pi_name_kind (index_of_records hash rs) = Literal"
proof -
  have "pi_name_kind (index_push hash r ix) = pi_name_kind ix" for r ix
    by (simp add: index_push_def Let_def split: prod.splits)
  then have "pi_name_kind (fold (index_push hash) rs ix) = pi_name_kind ix" for ix
    by (induction rs arbitrary: ix) simp_all
  then show ?thesis by (simp add: index_of_records_def with_capacity_def)
qed

section \<open>The index\<close>

text \<open>
  C25: An index built from a manager's inventory is well formed: every string handle, every
  position of the name table and every posting is in range, equal strings share the handle that
  reads them back, and no posting list repeats a package, so no later access can fail. For at most a
  seventh of 2^32 packages.
\<close>

theorem built_index_is_well_formed:
  assumes "7 * length packages \<le> 2 ^ 32"
  shows "index_ok (from_packages hash packages kind)"
  using assms by (intro represents_index_ok [OF from_packages_represents [OF assms]])
    (simp add: inventory_records_def)

theorem built_index_is_well_formed_witness:
  "index_ok (from_packages (\<lambda>s. 0) [(''bat'', ''1'', ''cat clone'', True), (''fd'', ''2'', '''', False)] RpmIdentity)"
  by (rule built_index_is_well_formed) simp

text \<open>
  C13: Exact lookup refines lookup in the list of records: whatever the hash function, the index
  returns every field of the first record of that name, and nothing when there is none. The Bloom
  filter in front of the name table never hides a package. For at most a seventh of 2^32 records.
\<close>

theorem lookup_refines_record_list:
  assumes "7 * length rs \<le> 2 ^ 32"
  shows "index_get hash (index_of_records hash rs) name = lookup_record rs name"
  by (rule represents_get [OF index_of_records_represents [OF assms]])

theorem lookup_refines_record_list_witness:
  "index_get (\<lambda>s. of_nat (length s)) (index_of_records (\<lambda>s. of_nat (length s))
     [inventory_record ''fd'' ''1'' ''find'', inventory_record ''fd'' ''2'' '''']) ''fd''
   = Some (record_detail (inventory_record ''fd'' ''1'' ''find''))"
  by (subst lookup_refines_record_list) (simp_all add: lookup_record_def inventory_record_def)

text \<open>
  C10: Search by trigram candidates is equivalent to a scan of all names: the result starts with the
  records whose lowercased name contains the query, all of them, ranked, up to the limit. The rest
  are records that match in the description only, without repetition; none of them is left out
  unless the limit is reached. For a query that is not empty, a positive limit whose fourfold does
  not overflow, and at most a seventh of 2^32 records, so that every string has a 32-bit handle.
\<close>

theorem search_finds_every_name_match:
  assumes "7 * length rs \<le> 2 ^ 32" "query \<noteq> []" "0 < limit"
  defines "q \<equiv> to_ascii_lowercase query"
  shows "set (ranked_names q rs) = {i. i < length rs \<and> str_contains q (lower_name rs i)} \<and>
    (\<exists>ds. search fuzzy (index_of_records hash rs) query limit =
        map (\<lambda>i. record_info (rs ! i)) (take limit (ranked_names q rs @ ds)) \<and>
      distinct ds \<and> set ds \<subseteq> {i. i < length rs \<and> description_only q rs i} \<and>
      (set ds = {i. i < length rs \<and> description_only q rs i} \<or> limit \<le> length (ranked_names q rs) + length ds))"
proof -
  have "q \<noteq> []" using assms(2) by (simp add: q_def to_ascii_lowercase_def)
  moreover have "length rs \<le> 2 ^ 32" using assms(1) by simp
  ultimately show ?thesis
    using search_represents [OF index_of_records_represents [OF assms(1)] index_of_records_kind, of query limit]
      set_ranked_names assms(2,3) unfolding q_def by blast
qed


definition sample_records :: "package_record list" where
  "sample_records = [inventory_record ''acrobat'' ''9'' ''reader'', inventory_record ''bat'' ''1'' ''cat clone'',
     inventory_record ''fd'' ''2'' ''not bat'']"

theorem search_finds_every_name_match_witness:
  "search (\<lambda>_ _. 0) (index_of_records (\<lambda>s. 0) sample_records) ''BAT'' 2 =
     map record_info [inventory_record ''bat'' ''1'' ''cat clone'', inventory_record ''acrobat'' ''9'' ''reader'']"
proof -
  have ranked: "ranked_names (to_ascii_lowercase ''BAT'') sample_records = [1, 0]" by code_simp
  show ?thesis
    using search_finds_every_name_match [of sample_records "''BAT''" 2 "\<lambda>_ _. 0" "\<lambda>s. 0"] unfolding ranked
    by (auto simp: sample_records_def)
qed

end
