(* ===== verification/Rust_Path.thy ===== *)
theory Rust_Path
  imports Rust_Str
begin

text \<open>
  Paths as \<^verbatim>\<open>std::path\<close> reads them on Unix: \<^verbatim>\<open>Path::components\<close>. Repeated separators vanish, and so do \<^verbatim>\<open>.\<close>
  components except a leading one.
\<close>

datatype component = RootDir | CurDir | ParentDir | Normal string

definition component_of :: "string \<Rightarrow> component list" where
  "component_of part =
     (if part = [] \<or> part = ''.'' then [] else if part = ''..'' then [ParentDir] else [Normal part])"

definition components :: "string \<Rightarrow> component list" where
  "components s =
     (let parts = split_on (\<lambda>c. c = CHR ''/'') s
      in (if starts_with_char CHR ''/'' s then [RootDir] else if hd parts = ''.'' then [CurDir] else [])
         @ concat (map component_of parts))"

end
