(* ===== verification/Deb_Extract.thy ===== *)
theory Deb_Extract
  imports Io_Monad Rust_Path "HOL-Library.AList"
begin

text \<open>
  Unpacking the data archive of a Debian package and undoing it,
  \<^verbatim>\<open>package_managers/debian_db/transaction.rs\<close>: the paths of archive entries and link targets,
  extraction below a root with its record of installed files, and the removal of that record.

  A path is the list of its names below the file system's root; no name has a zero byte. The file
  system maps paths to directories, files and symbolic links, and \<open>walk\<close> resolves a path through
  links, at most forty of them, as the kernel does. Every call can fail: \<open>fails\<close> says which. Modes are
  read and applied, which can fail, but not stored.

  The archive is the sequence of what its reader delivers: entries, an error, or a panic of the
  decompressor. A panic travels to \<^verbatim>\<open>catch_unwind\<close> as the error \<open>ExtractionPanicked\<close>, which no step
  handles.
\<close>

section \<open>Paths\<close>

type_synonym path = "string list"

datatype extract_error =
    ParentComponent
  | AbsoluteComponent
  | ResolvesToRoot
  | LinkEscapes
  | LinkNotRelative
  | LinkResolvesToRoot
  | SpecialEntry
  | MissingLinkTarget
  | ForeignHardLink path
  | ParentNotDirectory path
  | IoFailed
  | TarFailed
  | ExtractionPanicked

fun push_components :: "component list \<Rightarrow> path \<Rightarrow> (extract_error, path) result" where
  "push_components [] resolved = Inr resolved"
| "push_components (Normal part # cs) resolved = push_components cs (resolved @ [part])"
| "push_components (CurDir # cs) resolved = push_components cs resolved"
| "push_components (ParentDir # cs) resolved = Inl ParentComponent"
| "push_components (RootDir # cs) resolved = Inl AbsoluteComponent"

definition data_tar_entry_path :: "path \<Rightarrow> string \<Rightarrow> (extract_error, path) result" where
  "data_tar_entry_path root entry_path =
     (let rel = (case strip_prefix ''./'' entry_path of Some r \<Rightarrow> r | None \<Rightarrow> entry_path)
      in rbind (push_components (components rel) root) (\<lambda>resolved.
         rbind (ensure (resolved \<noteq> root) ResolvesToRoot) (\<lambda>_.
         Inr resolved)))"

text \<open>The two loops over a link target: an absolute one is moved below the root, a relative one kept.\<close>

fun rebase :: "component list \<Rightarrow> nat \<Rightarrow> path \<Rightarrow> (extract_error, path) result" where
  "rebase [] depth rebased = Inr rebased"
| "rebase (Normal part # cs) depth rebased = rebase cs (depth + 1) (rebased @ [part])"
| "rebase (ParentDir # cs) depth rebased =
     rbind (ensure (0 < depth) LinkEscapes) (\<lambda>_. rebase cs (depth - 1) (butlast rebased))"
| "rebase (CurDir # cs) depth rebased = rebase cs depth rebased"
| "rebase (RootDir # cs) depth rebased = Inl LinkNotRelative"

fun check_depth :: "component list \<Rightarrow> nat \<Rightarrow> (extract_error, unit) result" where
  "check_depth [] depth = Inr ()"
| "check_depth (Normal part # cs) depth = check_depth cs (depth + 1)"
| "check_depth (CurDir # cs) depth = check_depth cs depth"
| "check_depth (ParentDir # cs) depth =
     rbind (ensure (0 < depth) LinkEscapes) (\<lambda>_. check_depth cs (depth - 1))"
| "check_depth (RootDir # cs) depth = Inl LinkNotRelative"

definition validate_root_relative_link_target ::
  "path \<Rightarrow> path \<Rightarrow> string \<Rightarrow> (extract_error, component list) result" where
  "validate_root_relative_link_target root link_path target =
     (let rel_parent = (if prefix root link_path then drop (length root) link_path else link_path);
          depth = length rel_parent
      in case components target of
           RootDir # cs \<Rightarrow>
             rbind (rebase cs 0 root) (\<lambda>rebased.
             rbind (ensure (rebased \<noteq> root) LinkResolvesToRoot) (\<lambda>_.
             Inr (RootDir # map Normal rebased)))
         | cs \<Rightarrow> rbind (check_depth cs depth) (\<lambda>_. Inr cs))"

section \<open>The file system\<close>

datatype node = Dir | File string | Symlink "component list"

type_synonym file_system = "(path \<times> node) list"

datatype io_kind = IoNotFound | IoExists | IoOther

datatype fs_op =
    OpStat path
  | OpMkdir path
  | OpChmod path
  | OpWrite path
  | OpSymlink path
  | OpHardLink path
  | OpRemove path
  | OpRead path
  | OpSync path

text \<open>Resolution of a path from a directory; the number bounds the links that are followed.\<close>

function walk :: "file_system \<Rightarrow> nat \<Rightarrow> path \<Rightarrow> component list \<Rightarrow> (io_kind, path) result" where
  "walk fs links cur [] = Inr cur"
| "walk fs links cur (RootDir # cs) = walk fs links [] cs"
| "walk fs links cur (CurDir # cs) = walk fs links cur cs"
| "walk fs links cur (ParentDir # cs) = walk fs links (butlast cur) cs"
| "walk fs links cur (Normal n # cs) =
     (case map_of fs (cur @ [n]) of
        None \<Rightarrow> Inl IoNotFound
      | Some Dir \<Rightarrow> walk fs links (cur @ [n]) cs
      | Some (File c) \<Rightarrow> Inl IoOther
      | Some (Symlink t) \<Rightarrow>
          (case links of 0 \<Rightarrow> Inl IoOther | Suc left \<Rightarrow> walk fs left cur (t @ cs)))"
  by pat_completeness auto

termination walk
  by (relation "measures [\<lambda>(fs, links, cur, cs). links, \<lambda>(fs, links, cur, cs). length cs]") auto

text \<open>Where a path is: its last name in the directory the rest resolves to.\<close>

definition locate :: "file_system \<Rightarrow> path \<Rightarrow> (io_kind, path) result" where
  "locate fs p =
     (if p = [] then Inr [] else rbind (walk fs 40 [] (map Normal (butlast p))) (\<lambda>d. Inr (d @ [last p])))"

definition lstat :: "(fs_op \<Rightarrow> bool) \<Rightarrow> file_system \<Rightarrow> path \<Rightarrow> (io_kind, node) result" where
  "lstat fails fs p =
     (if fails (OpStat p) then Inl IoOther
      else rbind (locate fs p) (\<lambda>q. case map_of fs q of None \<Rightarrow> Inl IoNotFound | Some n \<Rightarrow> Inr n))"

text \<open>Creation of a directory or link: the name must be free.\<close>

definition make_node :: "(fs_op \<Rightarrow> bool) \<Rightarrow> fs_op \<Rightarrow> file_system \<Rightarrow> path \<Rightarrow> node \<Rightarrow> (io_kind, file_system) result" where
  "make_node fails op fs p n =
     (if fails op then Inl IoOther
      else rbind (locate fs p) (\<lambda>q. if map_of fs q \<noteq> None then Inl IoExists else Inr (AList.update q n fs)))"

definition create_dir :: "(fs_op \<Rightarrow> bool) \<Rightarrow> file_system \<Rightarrow> path \<Rightarrow> (io_kind, file_system) result" where
  "create_dir fails fs p = make_node fails (OpMkdir p) fs p Dir"

text \<open>A temporary file beside the destination, renamed over it; nothing is left when that fails.\<close>

definition replace_file :: "(fs_op \<Rightarrow> bool) \<Rightarrow> file_system \<Rightarrow> path \<Rightarrow> string \<Rightarrow> (io_kind, file_system) result" where
  "replace_file fails fs p content =
     (if fails (OpWrite p) then Inl IoOther
      else rbind (locate fs p) (\<lambda>q. if map_of fs q = Some Dir then Inl IoOther else Inr (AList.update q (File content) fs)))"

text \<open>The content comes from the archive once the temporary file is there, and reading it can fail.\<close>

definition write_archive_regular_file ::
  "(fs_op \<Rightarrow> bool) \<Rightarrow> file_system \<Rightarrow> path \<Rightarrow> (extract_error, string) result \<Rightarrow> (extract_error, file_system) result" where
  "write_archive_regular_file fails fs p content =
     (if fails (OpWrite p) then Inl IoFailed
      else rbind (map_sum (\<lambda>_. IoFailed) id (locate fs p)) (\<lambda>_.
           rbind content (\<lambda>c.
           map_sum (\<lambda>_. IoFailed) id (replace_file fails fs p c))))"

section \<open>Extraction\<close>

datatype tar_type = TarDir | TarSymlink | TarHardLink | TarFile | TarSpecial

text \<open>What an entry's header and body read as; an entry whose path cannot be read is a \<open>TarUnreadable\<close> item.\<close>

record tar_entry =
  te_path :: string
  te_type :: tar_type
  te_mode :: "(extract_error, nat) result"
  te_link :: "(extract_error, string option) result"
  te_content :: "(extract_error, string) result"

datatype tar_item = TarEntry tar_entry | TarUnreadable | TarPanic

datatype pending_link = PendingSymbolic path "component list" | PendingHard path path

record extraction =
  xs_fs :: file_system
  xs_files :: "path list"
  xs_seen :: "path list"
  xs_links :: "pending_link list"
  xs_regular :: "path list"

type_synonym 'a extracting = "(extract_error, extraction, 'a) io"

definition record_file :: "path \<Rightarrow> unit extracting" where
  "record_file p = amodify (\<lambda>s. s\<lparr>xs_files := xs_files s @ [p]\<rparr>)"

text \<open>\<^verbatim>\<open>path.ancestors().skip(1)\<close>, nearest first.\<close>

definition ancestors :: "path \<Rightarrow> path list" where
  "ancestors p = map (\<lambda>i. take i p) (rev [0..<length p])"

fun scan_parents :: "(fs_op \<Rightarrow> bool) \<Rightarrow> path \<Rightarrow> path list \<Rightarrow> path list \<Rightarrow> path list extracting" where
  "scan_parents fails root [] missing = aret missing"
| "scan_parents fails root (a # as) missing = (\<lambda>s.
     if a = root \<or> a \<in> set (xs_seen s) then (Inr missing, s)
     else
       let s' = s\<lparr>xs_seen := a # xs_seen s\<rparr>
       in case lstat fails (xs_fs s) a of
            Inr Dir \<Rightarrow> scan_parents fails root as missing s'
          | Inr _ \<Rightarrow> (Inl (ParentNotDirectory a), s')
          | Inl IoNotFound \<Rightarrow> scan_parents fails root as (missing @ [a]) s'
          | Inl _ \<Rightarrow> (Inl IoFailed, s'))"

fun create_parents :: "(fs_op \<Rightarrow> bool) \<Rightarrow> path list \<Rightarrow> unit extracting" where
  "create_parents fails [] = aret ()"
| "create_parents fails (d # ds) = (\<lambda>s.
     case create_dir fails (xs_fs s) d of
       Inl _ \<Rightarrow> (Inl IoFailed, s)
     | Inr fs \<Rightarrow> create_parents fails ds (s\<lparr>xs_fs := fs, xs_files := xs_files s @ [d]\<rparr>))"

definition ensure_parent_dirs_recorded :: "(fs_op \<Rightarrow> bool) \<Rightarrow> path \<Rightarrow> path \<Rightarrow> unit extracting" where
  "ensure_parent_dirs_recorded fails root p =
     abind (scan_parents fails root (ancestors p) []) (\<lambda>missing. create_parents fails (rev missing))"

definition extract_dir :: "(fs_op \<Rightarrow> bool) \<Rightarrow> path \<Rightarrow> path \<Rightarrow> (extract_error, nat) result \<Rightarrow> unit extracting" where
  "extract_dir fails root p mode =
     abind (ensure_parent_dirs_recorded fails root p) (\<lambda>_.
     abind (\<lambda>s. case create_dir fails (xs_fs s) p of
         Inr fs \<Rightarrow> (Inr (), s\<lparr>xs_fs := fs\<rparr>)
       | Inl IoExists \<Rightarrow> (Inr (), s)
       | Inl _ \<Rightarrow> (Inl IoFailed, s)) (\<lambda>_.
     abind (alift mode) (\<lambda>_.
     abind (alift (ensure (\<not> fails (OpChmod p)) IoFailed)) (\<lambda>_.
     record_file p))))"

definition extract_file ::
  "(fs_op \<Rightarrow> bool) \<Rightarrow> path \<Rightarrow> path \<Rightarrow> (extract_error, nat) result \<Rightarrow> (extract_error, string) result \<Rightarrow> unit extracting" where
  "extract_file fails root p mode content =
     abind (ensure_parent_dirs_recorded fails root p) (\<lambda>_.
     abind (alift mode) (\<lambda>_.
     abind (\<lambda>s. case write_archive_regular_file fails (xs_fs s) p content of
         Inr fs \<Rightarrow> (Inr (), s\<lparr>xs_fs := fs, xs_regular := p # xs_regular s\<rparr>)
       | Inl e \<Rightarrow> (Inl e, s)) (\<lambda>_.
     record_file p)))"

text \<open>\<^verbatim>\<open>entry.link_name()?.context(..)?\<close>\<close>

definition link_name :: "tar_entry \<Rightarrow> (extract_error, string) result" where
  "link_name e = rbind (te_link e) (\<lambda>t. case t of None \<Rightarrow> Inl MissingLinkTarget | Some t \<Rightarrow> Inr t)"

definition defer_link :: "path \<Rightarrow> pending_link \<Rightarrow> unit extracting" where
  "defer_link p link = abind (record_file p) (\<lambda>_. amodify (\<lambda>s. s\<lparr>xs_links := xs_links s @ [link]\<rparr>))"

definition extract_entry :: "(fs_op \<Rightarrow> bool) \<Rightarrow> path \<Rightarrow> tar_entry \<Rightarrow> unit extracting" where
  "extract_entry fails root e =
     abind (alift (data_tar_entry_path root (te_path e))) (\<lambda>p.
     case te_type e of
       TarDir \<Rightarrow> extract_dir fails root p (te_mode e)
     | TarSymlink \<Rightarrow>
         abind (alift (link_name e)) (\<lambda>target.
         abind (alift (validate_root_relative_link_target root p target)) (\<lambda>t.
         defer_link p (PendingSymbolic p t)))
     | TarHardLink \<Rightarrow>
         abind (alift (link_name e)) (\<lambda>target.
         abind (alift (data_tar_entry_path root target)) (\<lambda>t.
         defer_link p (PendingHard p t)))
     | TarSpecial \<Rightarrow> araise SpecialEntry
     | TarFile \<Rightarrow> extract_file fails root p (te_mode e) (te_content e))"

text \<open>The entries of the stream, up to an item that is none.\<close>

fun extract_entries :: "(fs_op \<Rightarrow> bool) \<Rightarrow> path \<Rightarrow> tar_item list \<Rightarrow> unit extracting" where
  "extract_entries fails root [] = aret ()"
| "extract_entries fails root (TarUnreadable # items) = araise TarFailed"
| "extract_entries fails root (TarPanic # items) = araise ExtractionPanicked"
| "extract_entries fails root (TarEntry e # items) =
     abind (extract_entry fails root e) (\<lambda>_. extract_entries fails root items)"

text \<open>The kernel refuses a link with an empty target.\<close>

definition create_root_link :: "(fs_op \<Rightarrow> bool) \<Rightarrow> pending_link \<Rightarrow> unit extracting" where
  "create_root_link fails link = (\<lambda>s.
     case (case link of
         PendingSymbolic p t \<Rightarrow>
           rbind (ensure (t \<noteq> []) IoFailed) (\<lambda>_.
           map_sum (\<lambda>_. IoFailed) id (make_node fails (OpSymlink p) (xs_fs s) p (Symlink t)))
       | PendingHard p t \<Rightarrow>
           rbind (ensure (t \<in> set (xs_regular s)) (ForeignHardLink t)) (\<lambda>_.
           map_sum (\<lambda>_. IoFailed) id (rbind (lstat (\<lambda>_. False) (xs_fs s) t) (\<lambda>n.
             make_node fails (OpHardLink p) (xs_fs s) p n)))) of
       Inl e \<Rightarrow> (Inl e, s)
     | Inr fs \<Rightarrow> (Inr (), s\<lparr>xs_fs := fs\<rparr>))"

fun create_root_links :: "(fs_op \<Rightarrow> bool) \<Rightarrow> pending_link list \<Rightarrow> unit extracting" where
  "create_root_links fails [] = aret ()"
| "create_root_links fails (link # links) = abind (create_root_link fails link) (\<lambda>_. create_root_links fails links)"

definition extract_archive :: "(fs_op \<Rightarrow> bool) \<Rightarrow> path \<Rightarrow> tar_item list \<Rightarrow> unit extracting" where
  "extract_archive fails root items =
     abind (extract_entries fails root items) (\<lambda>_.
     abind (aread (\<lambda>s. Inr (xs_links s))) (create_root_links fails))"

text \<open>An error carries the files recorded so far, and so does a panic, which is caught here.\<close>

definition track_partial_extraction ::
  "(extract_error, unit) result \<times> extraction \<Rightarrow> (extract_error \<times> path list, path list) result" where
  "track_partial_extraction outcome =
     (case outcome of
        (Inr _, s) \<Rightarrow> Inr (xs_files s)
      | (Inl ExtractionPanicked, s) \<Rightarrow> Inl (ExtractionPanicked, xs_files s)
      | (Inl source, s) \<Rightarrow> Inl (source, xs_files s))"

definition extract_tar_stream_to_root_at ::
  "(fs_op \<Rightarrow> bool) \<Rightarrow> path \<Rightarrow> tar_item list \<Rightarrow> file_system \<Rightarrow>
     (extract_error \<times> path list, path list) result \<times> file_system" where
  "extract_tar_stream_to_root_at fails root items fs =
     (let outcome = extract_archive fails root items
            \<lparr>xs_fs = fs, xs_files = [], xs_seen = [], xs_links = [], xs_regular = []\<rparr>
      in (track_partial_extraction outcome, xs_fs (snd outcome)))"

section \<open>Rollback\<close>

definition dir_empty :: "file_system \<Rightarrow> path \<Rightarrow> bool" where
  "dir_empty fs q = list_all (\<lambda>(c, _). c = [] \<or> butlast c \<noteq> q) fs"

definition remove_at :: "(fs_op \<Rightarrow> bool) \<Rightarrow> path \<Rightarrow> file_system \<Rightarrow> (io_kind, file_system) result" where
  "remove_at fails p fs =
     (if fails (OpRemove p) then Inl IoOther
      else rbind (locate fs p) (\<lambda>q. case map_of fs q of
          None \<Rightarrow> Inl IoNotFound
        | Some Dir \<Rightarrow> if dir_empty fs q then Inr (AList.delete q fs) else Inl IoOther
        | Some _ \<Rightarrow> Inr (AList.delete q fs)))"

definition remove_file_if_present :: "(fs_op \<Rightarrow> bool) \<Rightarrow> path \<Rightarrow> file_system \<Rightarrow> (io_kind, file_system) result" where
  "remove_file_if_present fails p fs =
     (case lstat fails fs p of
        Inr Dir \<Rightarrow> remove_at fails p fs
      | Inr _ \<Rightarrow> (case remove_at fails p fs of Inl IoNotFound \<Rightarrow> Inr fs | r \<Rightarrow> r)
      | Inl IoNotFound \<Rightarrow> Inr fs
      | Inl e \<Rightarrow> Inl e)"

text \<open>The removal loop of \<^verbatim>\<open>Transaction::rollback\<close>: paths that cannot be removed are collected.\<close>

fun remove_recorded :: "(fs_op \<Rightarrow> bool) \<Rightarrow> path list \<Rightarrow> path list \<times> file_system \<Rightarrow> path list \<times> file_system" where
  "remove_recorded fails [] st = st"
| "remove_recorded fails (p # ps) (failures, fs) =
     (case remove_file_if_present fails p fs of
        Inr fs' \<Rightarrow> remove_recorded fails ps (failures, fs')
      | Inl _ \<Rightarrow> remove_recorded fails ps (failures @ [p], fs))"

text \<open>\<^verbatim>\<open>fs::read\<close> follows links to the end of the path.\<close>

function open_at :: "file_system \<Rightarrow> nat \<Rightarrow> path \<Rightarrow> component list \<Rightarrow> (io_kind, path) result" where
  "open_at fs links cur [] = Inr cur"
| "open_at fs links cur (RootDir # cs) = open_at fs links [] cs"
| "open_at fs links cur (CurDir # cs) = open_at fs links cur cs"
| "open_at fs links cur (ParentDir # cs) = open_at fs links (butlast cur) cs"
| "open_at fs links cur (Normal n # cs) =
     (case map_of fs (cur @ [n]) of
        None \<Rightarrow> Inl IoNotFound
      | Some Dir \<Rightarrow> open_at fs links (cur @ [n]) cs
      | Some (File c) \<Rightarrow> if cs = [] then Inr (cur @ [n]) else Inl IoOther
      | Some (Symlink t) \<Rightarrow>
          (case links of 0 \<Rightarrow> Inl IoOther | Suc left \<Rightarrow> open_at fs left cur (t @ cs)))"
  by pat_completeness auto

termination open_at
  by (relation "measures [\<lambda>(fs, links, cur, cs). links, \<lambda>(fs, links, cur, cs). length cs]") auto

definition read_file :: "(fs_op \<Rightarrow> bool) \<Rightarrow> file_system \<Rightarrow> path \<Rightarrow> (io_kind, string) result" where
  "read_file fails fs p =
     (if fails (OpRead p) then Inl IoOther
      else rbind (open_at fs 40 [] (map Normal p)) (\<lambda>q. case map_of fs q of Some (File c) \<Rightarrow> Inr c | _ \<Rightarrow> Inl IoOther))"

text \<open>\<^verbatim>\<open>fs::create_dir_all\<close>: create, or create the parent and try again; a directory that is there will do.\<close>

definition leads_to_dir :: "file_system \<Rightarrow> path \<Rightarrow> bool" where
  "leads_to_dir fs p = (case walk fs 40 [] (map Normal p) of Inr _ \<Rightarrow> True | Inl _ \<Rightarrow> False)"

function create_dir_all :: "(fs_op \<Rightarrow> bool) \<Rightarrow> path \<Rightarrow> file_system \<Rightarrow> (io_kind, unit) result \<times> file_system" where
  "create_dir_all fails p fs =
     (case create_dir fails fs p of
        Inr fs' \<Rightarrow> (Inr (), fs')
      | Inl e \<Rightarrow>
          if e = IoNotFound \<and> p \<noteq> [] then
            (case create_dir_all fails (butlast p) fs of
               (Inl e', fs1) \<Rightarrow> (Inl e', fs1)
             | (Inr _, fs1) \<Rightarrow>
                 (case create_dir fails fs1 p of
                    Inr fs' \<Rightarrow> (Inr (), fs')
                  | Inl e' \<Rightarrow> (if leads_to_dir fs1 p then Inr () else Inl e', fs1)))
          else (if leads_to_dir fs p then Inr () else Inl e, fs))"
  by pat_completeness auto

termination create_dir_all
  by (relation "measure (\<lambda>(fails, p, fs). length p)") auto

declare create_dir_all.simps [simp del]

text \<open>
  A temporary file in the parent, which is created where it is missing, renamed over the path. The
  inspection of the old file's mode can fail, and so can syncing the directory once the file is
  there; a failure to apply the mode, to write or to sync the temporary file is a failing \<open>OpWrite\<close>,
  after which nothing is left. The callers pass \<^verbatim>\<open>private = false\<close>. \<^verbatim>\<open>validate_path_syntax\<close> refuses empty
  paths and zero bytes, which are no paths here.
\<close>

definition atomic_write_file_sync_inner ::
  "(fs_op \<Rightarrow> bool) \<Rightarrow> path \<Rightarrow> string \<Rightarrow> file_system \<Rightarrow> (io_kind, unit) result \<times> file_system" where
  "atomic_write_file_sync_inner fails p contents fs =
     (case create_dir_all fails (butlast p) fs of
        (Inl e, fs1) \<Rightarrow> (Inl e, fs1)
      | (Inr _, fs1) \<Rightarrow>
          (case lstat fails fs1 p of
             Inl IoOther \<Rightarrow> (Inl IoOther, fs1)
           | _ \<Rightarrow>
               (case replace_file fails fs1 p contents of
                  Inl e \<Rightarrow> (Inl e, fs1)
                | Inr fs2 \<Rightarrow> (if fails (OpSync p) then Inl IoOther else Inr (), fs2))))"

definition restore_backup :: "(fs_op \<Rightarrow> bool) \<Rightarrow> path \<Rightarrow> path \<Rightarrow> file_system \<Rightarrow> (io_kind, unit) result \<times> file_system" where
  "restore_backup fails backup original fs =
     (case read_file fails fs backup of
        Inl e \<Rightarrow> (Inl e, fs)
      | Inr contents \<Rightarrow> atomic_write_file_sync_inner fails original contents fs)"

fun restore_backups ::
  "(fs_op \<Rightarrow> bool) \<Rightarrow> (path \<times> path) list \<Rightarrow> path list \<times> file_system \<Rightarrow> path list \<times> file_system" where
  "restore_backups fails [] st = st"
| "restore_backups fails ((original, backup) # bs) (failures, fs) =
     (case restore_backup fails backup original fs of
        (Inr _, fs') \<Rightarrow> restore_backups fails bs (failures, fs')
      | (Inl _, fs') \<Rightarrow> restore_backups fails bs (failures @ [original], fs'))"

definition rollback ::
  "(fs_op \<Rightarrow> bool) \<Rightarrow> path list \<Rightarrow> (path \<times> path) list \<Rightarrow> file_system \<Rightarrow> (path list \<times> path list, unit) result \<times> file_system" where
  "rollback fails installed_files backups fs =
     (let (removal_failures, fs1) = remove_recorded fails (rev installed_files) ([], fs);
          (restore_failures, fs2) = restore_backups fails backups ([], fs1)
      in (if removal_failures = [] \<and> restore_failures = [] then Inr () else Inl (removal_failures, restore_failures), fs2))"


section \<open>Entry paths and link targets are confined\<close>

text \<open>A name that stands for itself in a path.\<close>

definition plain_name :: "string \<Rightarrow> bool" where
  "plain_name n = (n \<noteq> [] \<and> n \<noteq> ''.'' \<and> n \<noteq> ''..'' \<and> CHR ''/'' \<notin> set n)"

lemma components_Normal: "Normal n \<in> set (components s) \<Longrightarrow> plain_name n"
  using split_on_pieces [of _ "\<lambda>c. c = CHR ''/''" s]
  by (auto simp: components_def Let_def component_of_def plain_name_def split: if_splits)

lemma push_components_Inr:
  "push_components cs p = Inr q \<Longrightarrow> \<exists>names. q = p @ names \<and> (\<forall>n \<in> set names. Normal n \<in> set cs)"
proof (induction cs p rule: push_components.induct)
  case (2 part cs p)
  then obtain names where "q = (p @ [part]) @ names" "\<forall>n \<in> set names. Normal n \<in> set cs" by auto
  then show ?case by (intro exI [of _ "part # names"]) simp
next
  case (3 cs p)
  then show ?case by fastforce
qed simp_all

lemma data_tar_entry_path_Inr:
  assumes "data_tar_entry_path root text = Inr p"
  shows "\<exists>names. p = root @ names \<and> names \<noteq> [] \<and> list_all plain_name names"
proof -
  obtain rel where "push_components (components rel) root = Inr p" and ne: "p \<noteq> root"
    using assms by (auto simp: data_tar_entry_path_def Let_def rbind_eq_Inr ensure_def split: if_splits)
  then obtain names where "p = root @ names" "\<forall>n \<in> set names. Normal n \<in> set (components rel)"
    using push_components_Inr by blast
  then show ?thesis using ne components_Normal by (auto simp: list_all_iff)
qed

text \<open>The directory a target names, read from a directory without following links.\<close>

fun lexical :: "path \<Rightarrow> component list \<Rightarrow> path" where
  "lexical cur [] = cur"
| "lexical cur (Normal n # cs) = lexical (cur @ [n]) cs"
| "lexical cur (ParentDir # cs) = lexical (butlast cur) cs"
| "lexical cur (CurDir # cs) = lexical cur cs"
| "lexical cur (RootDir # cs) = lexical [] cs"

lemma rebase_Inr:
  "rebase cs (length names) (root @ names) = Inr q \<Longrightarrow> list_all plain_name names \<Longrightarrow>
     (\<And>n. Normal n \<in> set cs \<Longrightarrow> plain_name n) \<Longrightarrow> \<exists>names'. q = root @ names' \<and> list_all plain_name names'"
proof (induction cs arbitrary: names)
  case Nil
  then show ?case by auto
next
  case (Cons c cs)
  have plain: "\<And>n. Normal n \<in> set cs \<Longrightarrow> plain_name n" using Cons.prems(3) by simp
  show ?case
  proof (cases c)
    case RootDir
    then show ?thesis using Cons.prems(1) by simp
  next
    case CurDir
    then show ?thesis using Cons.IH [OF _ Cons.prems(2) plain] Cons.prems(1) by simp
  next
    case ParentDir
    then have ne: "names \<noteq> []" and run: "rebase cs (length (butlast names)) (root @ butlast names) = Inr q"
      using Cons.prems(1) by (auto simp: rbind_eq_Inr ensure_def butlast_append split: if_splits)
    have "list_all plain_name (butlast names)" using Cons.prems(2) by (auto simp: list_all_iff dest: in_set_butlastD)
    then show ?thesis using Cons.IH [OF run _ plain] by blast
  next
    case (Normal n)
    have "list_all plain_name (names @ [n])" using Cons.prems(2,3) Normal by simp
    then show ?thesis using Cons.IH [OF _ _ plain, of "names @ [n]"] Cons.prems(1) Normal by simp
  qed
qed

lemma check_depth_relative: "check_depth cs depth = Inr () \<Longrightarrow> RootDir \<notin> set cs"
  by (induction cs depth rule: check_depth.induct) (auto simp: rbind_eq_Inr ensure_def split: if_splits)

lemma check_depth_Inr:
  "check_depth cs (length names) = Inr () \<Longrightarrow> prefix root (lexical (root @ names) (take k cs))"
proof (induction cs arbitrary: names k)
  case Nil
  then show ?case by simp
next
  case (Cons c cs)
  show ?case
  proof (cases k)
    case 0
    then show ?thesis by simp
  next
    case (Suc k)
    show ?thesis
    proof (cases c)
      case ParentDir
      then have ne: "names \<noteq> []" and run: "check_depth cs (length (butlast names)) = Inr ()"
        using Cons.prems by (auto simp: rbind_eq_Inr ensure_def split: if_splits)
      then show ?thesis using Cons.IH [OF run, of k] ParentDir Suc by (simp add: butlast_append)
    next
      case (Normal n)
      then show ?thesis using Cons.IH [of "names @ [n]" k] Cons.prems Suc by simp
    qed (use Cons Suc in auto)
  qed
qed

lemma validate_link_Inr:
  assumes "validate_root_relative_link_target root (root @ link) target = Inr cs"
  shows "(\<exists>names. cs = RootDir # map Normal (root @ names) \<and> names \<noteq> [] \<and> list_all plain_name names) \<or>
    RootDir \<notin> set cs \<and> (\<forall>k. prefix root (lexical (root @ link) (take k cs)))"
proof (cases "\<exists>ds. components target = RootDir # ds")
  case True
  then obtain ds rebased where ds: "components target = RootDir # ds" and re: "rebase ds 0 root = Inr rebased"
    and ne: "rebased \<noteq> root" and cs: "cs = RootDir # map Normal rebased"
    using assms by (auto simp: validate_root_relative_link_target_def rbind_eq_Inr ensure_def split: if_splits)
  have "\<And>n. Normal n \<in> set ds \<Longrightarrow> plain_name n" using components_Normal [of _ target] ds by simp
  then obtain names where "rebased = root @ names" "list_all plain_name names"
    using rebase_Inr [of ds "[]" root rebased] re by auto
  then show ?thesis using ne cs by auto
next
  case False
  then have "validate_root_relative_link_target root (root @ link) target =
      rbind (check_depth (components target) (length link)) (\<lambda>_. Inr (components target))"
    by (simp add: validate_root_relative_link_target_def Let_def split: list.split component.split)
  then have "rbind (check_depth (components target) (length link)) (\<lambda>_. Inr (components target)) = Inr cs"
    using assms by metis
  then have "check_depth (components target) (length link) = Inr ()" "cs = components target"
    by (auto simp: rbind_eq_Inr)
  then show ?thesis using check_depth_Inr check_depth_relative by blast
qed

end
