(* ===== verification/Deb_Rollback.thy ===== *)
theory Deb_Rollback
  imports Deb_Extract
begin

text \<open>
  What extraction of a Debian package promises, \<^verbatim>\<open>package_managers/debian_db/transaction.rs\<close>: every
  change lands below the root and is recorded, also when extraction stops half way, and rollback
  removes everything that was created. The promise has limits, which are stated as exactly: links of
  the archive that lie below other links, links whose directories come later in the archive, and a
  directory whose mode cannot be read or applied.
\<close>

section \<open>Trees\<close>

abbreviation is_dir :: "file_system \<Rightarrow> path \<Rightarrow> bool" where
  "is_dir fs p \<equiv> map_of fs p = Some Dir"

definition tree_ok :: "file_system \<Rightarrow> bool" where
  "tree_ok fs = (is_dir fs [] \<and> (\<forall>p. p \<noteq> [] \<longrightarrow> map_of fs p \<noteq> None \<longrightarrow> is_dir fs (butlast p)))"

lemma tree_ok_parent: "tree_ok fs \<Longrightarrow> map_of fs p \<noteq> None \<Longrightarrow> is_dir fs (butlast p)"
  by (cases "p = []") (simp_all add: tree_ok_def)

lemma tree_ok_prefix: "tree_ok fs \<Longrightarrow> map_of fs p \<noteq> None \<Longrightarrow> strict_prefix q p \<Longrightarrow> is_dir fs q"
proof (induction p rule: rev_induct)
  case (snoc x p)
  have "is_dir fs p" using tree_ok_parent [OF snoc.prems(1,2)] by simp
  then show ?case using snoc by (auto simp: strict_prefix_def prefix_snoc)
qed simp

lemma walk_dir: "walk fs l cur cs = Inr d \<Longrightarrow> tree_ok fs \<Longrightarrow> is_dir fs cur \<Longrightarrow> is_dir fs d"
proof (induction fs l cur cs rule: walk.induct)
  case (4 fs links cur cs)
  then show ?case using tree_ok_parent [of fs cur] by simp
next
  case (2 fs links cur cs)
  then show ?case by (simp add: tree_ok_def)
qed (auto split: option.splits node.splits nat.splits)

lemma walk_plain:
  "(\<And>k. k \<le> length ns \<Longrightarrow> is_dir fs (cur @ take k ns)) \<Longrightarrow> walk fs l cur (map Normal ns) = Inr (cur @ ns)"
proof (induction ns arbitrary: cur)
  case (Cons n ns)
  have "is_dir fs ((cur @ [n]) @ take k ns)" if "k \<le> length ns" for k
    using Cons.prems [of "Suc k"] that by simp
  moreover have "is_dir fs (cur @ [n])" using Cons.prems [of 1] by simp
  ultimately show ?case using Cons.IH [of "cur @ [n]"] by simp
qed simp

lemma walk_missing:
  "(\<And>i. i < k \<Longrightarrow> is_dir fs (cur @ take i ns)) \<Longrightarrow> k \<le> length ns \<Longrightarrow> map_of fs (cur @ take k ns) = None \<Longrightarrow> 0 < k \<Longrightarrow>
     walk fs l cur (map Normal ns) = Inl IoNotFound"
proof (induction ns arbitrary: cur k)
  case (Cons n ns)
  show ?case
  proof (cases "k = 1")
    case True
    then show ?thesis using Cons.prems(3) by simp
  next
    case False
    then obtain j where j: "k = Suc j" "0 < j" using Cons.prems(4) by (cases k) auto
    have "is_dir fs ((cur @ [n]) @ take i ns)" if "i < j" for i
      using Cons.prems(1) [of "Suc i"] that j by simp
    then have "walk fs l (cur @ [n]) (map Normal ns) = Inl IoNotFound"
      using Cons.IH [of j "cur @ [n]"] Cons.prems(2,3) j by simp
    moreover have "is_dir fs (cur @ [n])" using Cons.prems(1) [of 1] j by simp
    ultimately show ?thesis by simp
  qed
qed simp

lemma walk_no_links:
  "walk fs l cur (map Normal ns) = Inr d \<Longrightarrow>
     (\<And>k t. 0 < k \<Longrightarrow> k \<le> length ns \<Longrightarrow> map_of fs (cur @ take k ns) \<noteq> Some (Symlink t)) \<Longrightarrow> d = cur @ ns"
proof (induction ns arbitrary: cur)
  case (Cons n ns)
  have "map_of fs (cur @ [n]) \<noteq> Some (Symlink t)" for t using Cons.prems(2) [of 1 t] by simp
  then have "walk fs l (cur @ [n]) (map Normal ns) = Inr d"
    using Cons.prems(1) by (auto split: option.splits node.splits)
  moreover have "map_of fs ((cur @ [n]) @ take k ns) \<noteq> Some (Symlink t)" if "0 < k" "k \<le> length ns" for k t
    using Cons.prems(2) [of "Suc k" t] that by simp
  ultimately show ?case using Cons.IH [of "cur @ [n]"] by simp
qed simp

lemma take_strict_prefix: "i < length p \<Longrightarrow> strict_prefix (take i p) p"
  by (metis length_take min.absorb4 nat_less_le strict_prefix_def take_is_prefix)

lemma locate_real:
  assumes "tree_ok fs" "p \<noteq> []" "is_dir fs (butlast p)"
  shows "locate fs p = Inr p"
proof -
  have "is_dir fs ([] @ take k (butlast p))" if "k \<le> length (butlast p)" for k
    using that assms tree_ok_prefix [OF assms(1), of "butlast p" "take k (butlast p)"]
      take_strict_prefix [of k "butlast p"] by (cases "k = length (butlast p)") auto
  from walk_plain [OF this] show ?thesis using assms(2) by (simp add: locate_def)
qed

lemma locate_dir:
  assumes "tree_ok fs" "p \<noteq> []" "locate fs p = Inr q"
  shows "q \<noteq> [] \<and> is_dir fs (butlast q)"
proof -
  obtain d where "walk fs 40 [] (map Normal (butlast p)) = Inr d" "q = d @ [last p]"
    using assms by (auto simp: locate_def rbind_eq_Inr)
  then show ?thesis using walk_dir [of fs 40 "[]"] assms(1) by (auto simp: tree_ok_def)
qed

lemma tree_ok_update:
  assumes "tree_ok fs" "q \<noteq> []" "is_dir fs (butlast q)" "\<not> is_dir fs q \<or> n = Dir"
  shows "tree_ok (AList.update q n fs)"
proof -
  have "butlast q \<noteq> q" using assms(2) by (metis append_butlast_last_id append_self_conv list.discI)
  then show ?thesis
    using assms unfolding tree_ok_def by (auto simp: update_conv' dest: tree_ok_parent [OF assms(1)])
qed

lemma make_node_Inr:
  assumes "make_node fails op fs p n = Inr fs'" "tree_ok fs" "p \<noteq> []"
  obtains q where "locate fs p = Inr q" "map_of fs q = None" "q \<noteq> []" "map_of fs' = (map_of fs)(q \<mapsto> n)" "tree_ok fs'"
proof -
  obtain q where q: "locate fs p = Inr q" "map_of fs q = None" "fs' = AList.update q n fs"
    using assms(1) by (auto simp: make_node_def rbind_eq_Inr split: if_splits)
  then show thesis
    using that [of q] locate_dir [OF assms(2,3) q(1)] tree_ok_update [OF assms(2), of q n]
    by (simp add: update_conv')
qed

lemma replace_file_Inr:
  assumes "replace_file fails fs p c = Inr fs'" "tree_ok fs" "p \<noteq> []"
  obtains q where "locate fs p = Inr q" "\<not> is_dir fs q" "map_of fs' = (map_of fs)(q \<mapsto> File c)" "tree_ok fs'"
proof -
  obtain q where q: "locate fs p = Inr q" "\<not> is_dir fs q" "fs' = AList.update q (File c) fs"
    using assms(1) by (auto simp: replace_file_def rbind_eq_Inr split: if_splits)
  then show thesis
    using that [of q] locate_dir [OF assms(2,3) q(1)] tree_ok_update [OF assms(2), of q "File c"]
    by (simp add: update_conv')
qed

lemma map_sum_Inr: "map_sum f id r = Inr y \<longleftrightarrow> r = Inr y"
  by (cases r) simp_all

lemma write_file_Inr: "write_archive_regular_file fails fs p content = Inr fs' \<Longrightarrow> \<exists>c. replace_file fails fs p c = Inr fs'"
  by (auto simp: write_archive_regular_file_def rbind_eq_Inr map_sum_Inr split: if_splits)


section \<open>Parent directories\<close>

lemma take_root: "prefix root p \<Longrightarrow> take (length root) p = root"
  by (auto simp: prefix_def)

lemma take_ne_root: "prefix root p \<Longrightarrow> length root < i \<Longrightarrow> i \<le> length p \<Longrightarrow> take i p \<noteq> root"
  by (metis length_take min.absorb2 nat_neq_iff)

text \<open>Above a missing name every look-up ends at the first missing directory.\<close>

lemma lstat_missing:
  assumes "\<And>i. i < j \<Longrightarrow> is_dir fs (take i p)" "map_of fs (take j p) = None" "0 < j" "j < m" "m \<le> length p" "\<not> fails (OpStat (take m p))"
  shows "lstat fails fs (take m p) = Inl IoNotFound"
proof -
  have bl: "butlast (take m p) = take (m - 1) p" using assms(5) by (simp add: butlast_take)
  have "walk fs 40 [] (map Normal (take (m - 1) p)) = Inl IoNotFound"
    by (rule walk_missing [of j]) (use assms in \<open>auto simp: min_def\<close>)
  moreover have "take m p \<noteq> []" using assms by auto
  ultimately show ?thesis using assms(6) by (simp add: lstat_def locate_def bl)
qed

lemma lstat_real:
  assumes "tree_ok fs" "is_dir fs (take (m - 1) p)" "0 < m" "m \<le> length p" "\<not> fails (OpStat (take m p))"
  shows "lstat fails fs (take m p) = (case map_of fs (take m p) of None \<Rightarrow> Inl IoNotFound | Some n \<Rightarrow> Inr n)"
proof -
  have "locate fs (take m p) = Inr (take m p)"
    by (rule locate_real) (use assms in \<open>auto simp: butlast_take\<close>)
  then show ?thesis using assms(5) by (simp add: lstat_def)
qed

text \<open>The first \<^verbatim>\<open>j\<close> ancestors are directories, the others up to \<^verbatim>\<open>m\<close> are missing.\<close>

definition missing_from :: "file_system \<Rightarrow> path \<Rightarrow> nat \<Rightarrow> nat \<Rightarrow> bool" where
  "missing_from fs p j m = ((\<forall>i < j. is_dir fs (take i p)) \<and> (\<forall>i. j \<le> i \<longrightarrow> i < m \<longrightarrow> map_of fs (take i p) = None))"

lemma is_dir_take: "tree_ok fs \<Longrightarrow> is_dir fs (take k p) \<Longrightarrow> i \<le> k \<Longrightarrow> is_dir fs (take i p)"
  using tree_ok_prefix [of fs "take k p" "take i p"] take_strict_prefix [of i "take k p"]
  by (cases "i < length (take k p)") auto

lemma missing_from_step:
  assumes tree: "tree_ok fs" and j: "missing_from fs p j m" "0 < j" "j \<le> m" and m: "m < length p" and ok: "\<not> fails (OpStat (take m p))"
  shows "lstat fails fs (take m p) = Inr Dir \<Longrightarrow> j = m \<and> missing_from fs p (Suc m) (Suc m)"
    and "lstat fails fs (take m p) = Inl IoNotFound \<Longrightarrow> missing_from fs p j (Suc m)"
proof -
  have below: "\<And>i. i < j \<Longrightarrow> is_dir fs (take i p)" using j(1) by (simp add: missing_from_def)
  have gone: "j < m \<Longrightarrow> lstat fails fs (take m p) = Inl IoNotFound"
    by (rule lstat_missing [of j]) (use below j m ok in \<open>auto simp: missing_from_def\<close>)
  have real: "j = m \<Longrightarrow> lstat fails fs (take m p) = (case map_of fs (take m p) of None \<Rightarrow> Inl IoNotFound | Some n \<Rightarrow> Inr n)"
    by (rule lstat_real) (use tree below [of "m - 1"] j(2) m ok in auto)
  show "j = m \<and> missing_from fs p (Suc m) (Suc m)" if "lstat fails fs (take m p) = Inr Dir"
    using that gone real j(1,3) by (cases "j < m") (auto simp: missing_from_def less_Suc_eq split: option.splits)
  show "missing_from fs p j (Suc m)" if nf: "lstat fails fs (take m p) = Inl IoNotFound"
  proof -
    have "map_of fs (take m p) = None"
    proof (cases "j < m")
      case True
      then have "map_of fs (take (m - 1) p) = None" using j(1) by (simp add: missing_from_def)
      then show ?thesis
        using tree_ok_parent [OF tree, of "take m p"] m by (cases "map_of fs (take m p)") (auto simp: butlast_take)
    next
      case False
      then show ?thesis using nf real j(3) by (auto split: option.splits)
    qed
    then show ?thesis using j(1) by (auto simp: missing_from_def less_Suc_eq)
  qed
qed

lemma lstat_Inr_ok: "lstat fails fs p = Inr n \<or> lstat fails fs p = Inl IoNotFound \<Longrightarrow> \<not> fails (OpStat p)"
  by (auto simp: lstat_def)

lemma scan_parents_Inr:
  assumes "scan_parents fails root (map (\<lambda>i. take i p) (rev [0..<m])) missing s = (Inr M, s')"
    "tree_ok (xs_fs s)" "is_dir (xs_fs s) root" "prefix root p" "length root < m" "m \<le> length p"
    "\<And>i. i < m \<Longrightarrow> take i p \<in> set (xs_seen s) \<Longrightarrow> is_dir (xs_fs s) (take i p)"
  shows "\<exists>j. length root < j \<and> j \<le> m \<and> M = missing @ map (\<lambda>i. take i p) (rev [j..<m]) \<and> missing_from (xs_fs s) p j m \<and>
    s' = s\<lparr>xs_seen := xs_seen s'\<rparr> \<and> set (xs_seen s') \<subseteq> set (xs_seen s) \<union> {a. strict_prefix root a \<and> (\<exists>i < m. a = take i p)}"
  using assms
proof (induction m arbitrary: missing s)
  case (Suc m)
  let ?a = "take m p" and ?fs = "xs_fs s"
  have rp: "is_dir ?fs (take (length root) p)" using Suc.prems(3,4) by (simp add: take_root)
  show ?case
  proof (cases "?a = root \<or> ?a \<in> set (xs_seen s)")
    case True
    then have "is_dir ?fs ?a" using Suc.prems(3,7) by auto
    then have "missing_from ?fs p (Suc m) (Suc m)"
      using is_dir_take [OF Suc.prems(2)] by (simp add: missing_from_def less_Suc_eq_le)
    then show ?thesis using Suc.prems(1,5) True by (intro exI [of _ "Suc m"]) auto
  next
    case False
    then have m: "length root < m" using Suc.prems(4,5) take_root by (metis less_SucE)
    let ?s = "s\<lparr>xs_seen := ?a # xs_seen s\<rparr>"
    obtain missing' where run: "scan_parents fails root (map (\<lambda>i. take i p) (rev [0..<m])) missing' ?s = (Inr M, s')"
      and stat: "lstat fails ?fs ?a = Inr Dir \<and> missing' = missing \<or>
        lstat fails ?fs ?a = Inl IoNotFound \<and> missing' = missing @ [?a]"
      using Suc.prems(1) False by (auto simp: Let_def split: sum.splits node.splits io_kind.splits)
    have "take i p \<noteq> ?a" if "i < m" for i using that Suc.prems(6) by (metis Suc_leD length_take min.absorb2 nat_neq_iff le_trans less_imp_le)
    then obtain j where j: "length root < j" "j \<le> m" "M = missing' @ map (\<lambda>i. take i p) (rev [j..<m])"
      "missing_from ?fs p j m" "s' = ?s\<lparr>xs_seen := xs_seen s'\<rparr>"
      "set (xs_seen s') \<subseteq> set (xs_seen ?s) \<union> {a. strict_prefix root a \<and> (\<exists>i < m. a = take i p)}"
      using Suc.IH [OF run] Suc.prems m by auto
    have below: "strict_prefix root ?a"
      using Suc.prems(4,6) m take_ne_root [of root p m] by (auto simp: strict_prefix_def prefix_def)
    have seen: "s' = s\<lparr>xs_seen := xs_seen s'\<rparr>"
      "set (xs_seen s') \<subseteq> set (xs_seen s) \<union> {a. strict_prefix root a \<and> (\<exists>i < Suc m. a = take i p)}"
      using j(5,6) below by (simp, auto simp: less_Suc_eq)
    have ok: "\<not> fails (OpStat ?a)" using stat lstat_Inr_ok by blast
    note step = missing_from_step [where fails = fails and fs = ?fs and p = p and j = j and m = m, OF Suc.prems(2) j(4) _ j(2) _ ok]
    show ?thesis
    proof (cases "lstat fails ?fs ?a = Inr Dir")
      case True
      then have "j = m" "missing_from ?fs p (Suc m) (Suc m)" using step(1) j(1) Suc.prems(6) by auto
      then show ?thesis using True stat j(1,3) seen by (intro exI [of _ "Suc m"]) auto
    next
      case False
      then have "missing_from ?fs p j (Suc m)" using step(2) stat j(1) Suc.prems(6) by auto
      then show ?thesis using False stat j(1,2,3) seen by (intro exI [of _ j]) auto
    qed
  qed
qed simp


section \<open>Every change is recorded\<close>

text \<open>
  The state of an extraction that started on \<^verbatim>\<open>fs0\<close>: directories stay directories, every changed
  path is recorded, recorded paths are below the root, and there are no new links yet.
\<close>

definition tracked :: "file_system \<Rightarrow> path \<Rightarrow> file_system \<Rightarrow> path list \<Rightarrow> bool" where
  "tracked fs0 root fs files =
     (tree_ok fs \<and> is_dir fs root \<and> (\<forall>p. is_dir fs0 p \<longrightarrow> is_dir fs p) \<and> (\<forall>p \<in> set files. strict_prefix root p) \<and>
      (\<forall>p. map_of fs p \<noteq> map_of fs0 p \<longrightarrow> p \<in> set files) \<and>
      (\<forall>p t. map_of fs p = Some (Symlink t) \<longrightarrow> map_of fs0 p = Some (Symlink t)))"

text \<open>A recorded path comes after the directories that were created for it.\<close>

definition parents_recorded :: "file_system \<Rightarrow> path \<Rightarrow> path list \<Rightarrow> path \<Rightarrow> bool" where
  "parents_recorded fs0 root files p =
     (\<forall>q. strict_prefix root q \<longrightarrow> strict_prefix q p \<longrightarrow> map_of fs0 q = None \<longrightarrow> q \<in> set files)"

definition children_last :: "file_system \<Rightarrow> path \<Rightarrow> path list \<Rightarrow> bool" where
  "children_last fs0 root files = (\<forall>k < length files. parents_recorded fs0 root (take k files) (files ! k))"

lemma children_last_add:
  "children_last fs0 root files \<Longrightarrow> parents_recorded fs0 root files p \<Longrightarrow> children_last fs0 root (files @ [p])"
  by (simp add: children_last_def nth_append less_Suc_eq)

lemma tracked_parents:
  assumes "tracked fs0 root fs files" "is_dir fs (butlast p)"
  shows "parents_recorded fs0 root files p"
  unfolding parents_recorded_def
proof (intro allI impI)
  fix q
  assume q: "strict_prefix q p" "map_of fs0 q = None"
  then have "prefix q (butlast p)" by (metis append_butlast_last_id prefix_snoc strict_prefix_def prefix_bot.extremum_strict)
  then have "is_dir fs q"
    using assms tree_ok_prefix [of fs "butlast p" q] by (cases "q = butlast p") (auto simp: tracked_def strict_prefix_def)
  then have "map_of fs q \<noteq> map_of fs0 q" using q(2) by simp
  then show "q \<in> set files" using assms(1) unfolding tracked_def by blast
qed

lemma tracked_record: "tracked fs0 root fs files \<Longrightarrow> strict_prefix root p \<Longrightarrow> tracked fs0 root fs (files @ [p])"
  by (auto simp: tracked_def)

lemma tracked_add:
  assumes "tracked fs0 root fs files" "strict_prefix root p" "\<not> is_dir fs p \<or> n = Dir" "\<And>t. n \<noteq> Symlink t"
    "map_of fs' = (map_of fs)(p \<mapsto> n)" "tree_ok fs'"
  shows "tracked fs0 root fs' (files @ [p])"
proof -
  have dirs: "is_dir fs' q" if "is_dir fs q" for q using that assms(3,5) by auto
  then show ?thesis using assms unfolding tracked_def by auto
qed

text \<open>The order of the record is claimed for archives in order only, \<^verbatim>\<open>b\<close>.\<close>

definition good :: "bool \<Rightarrow> file_system \<Rightarrow> path \<Rightarrow> extraction \<Rightarrow> bool" where
  "good b fs0 root s = (tracked fs0 root (xs_fs s) (xs_files s) \<and> (b \<longrightarrow> children_last fs0 root (xs_files s)))"

text \<open>What a step keeps of the rest of the state.\<close>

definition later :: "extraction \<Rightarrow> extraction \<Rightarrow> bool" where
  "later s s' = (xs_links s' = xs_links s \<and> set (xs_files s) \<subseteq> set (xs_files s') \<and>
     (\<forall>p. is_dir (xs_fs s) p \<longrightarrow> is_dir (xs_fs s') p) \<and>
     (\<forall>p. map_of (xs_fs s) p \<noteq> None \<longrightarrow> map_of (xs_fs s') p \<noteq> None) \<and>
     (\<forall>p \<in> set (xs_files s'). p \<in> set (xs_files s) \<or> map_of (xs_fs s') p \<noteq> None))"

lemma later_refl [simp]: "later s s" and later_trans: "later s s' \<Longrightarrow> later s' s'' \<Longrightarrow> later s s''"
  by (auto simp: later_def)

lemma good_add:
  assumes "good b fs0 root s" "strict_prefix root p" "is_dir (xs_fs s) (butlast p)" "\<not> is_dir (xs_fs s) p \<or> n = Dir" "\<And>t. n \<noteq> Symlink t"
    "map_of fs' = (map_of (xs_fs s))(p \<mapsto> n)" "tree_ok fs'"
  shows "good b fs0 root (s\<lparr>xs_fs := fs', xs_files := xs_files s @ [p]\<rparr>)" and "later s (s\<lparr>xs_fs := fs', xs_files := xs_files s @ [p]\<rparr>)"
  using assms tracked_add [of fs0 root "xs_fs s" "xs_files s" p n fs'] tracked_parents [of fs0 root "xs_fs s" "xs_files s" p]
  by (auto simp: good_def later_def children_last_add)

lemma create_dir_real:
  assumes "create_dir fails fs p = Inr fs'" "tree_ok fs" "p \<noteq> []" "is_dir fs (butlast p)"
  shows "map_of fs p = None" "map_of fs' = (map_of fs)(p \<mapsto> Dir)" "tree_ok fs'"
proof -
  obtain q where "locate fs p = Inr q" "map_of fs q = None" "map_of fs' = (map_of fs)(q \<mapsto> Dir)" "tree_ok fs'"
    using make_node_Inr [OF assms(1) [unfolded create_dir_def] assms(2,3)] by metis
  then show "map_of fs p = None" "map_of fs' = (map_of fs)(p \<mapsto> Dir)" "tree_ok fs'"
    using locate_real [OF assms(2-4)] by simp_all
qed

lemma create_parents_any:
  assumes "create_parents fails (map (\<lambda>i. take i p) [j..<m]) s = (r, s')" "good b fs0 root s" "missing_from (xs_fs s) p j m"
    "length root < j" "j \<le> m" "m \<le> length p" "prefix root p"
  shows "good b fs0 root s' \<and> later s s' \<and> xs_seen s' = xs_seen s \<and> (r = Inr () \<longrightarrow> (\<forall>i < m. is_dir (xs_fs s') (take i p)))"
  using assms
proof (induction "m - j" arbitrary: j s)
  case 0
  then show ?case by (simp add: missing_from_def aret_def)
next
  case (Suc d)
  then have jm: "j < m" "[j..<m] = j # [Suc j..<m]" by (simp_all add: upt_conv_Cons)
  let ?d = "take j p"
  have below: "strict_prefix root ?d" "?d \<noteq> []" "is_dir (xs_fs s) (butlast ?d)"
    using Suc.prems take_ne_root [of root p j] jm
    by (auto simp: strict_prefix_def prefix_def butlast_take missing_from_def)
  have tree: "tree_ok (xs_fs s)" using Suc.prems(2) by (simp add: good_def tracked_def)
  show ?case
  proof (cases "create_dir fails (xs_fs s) ?d")
    case (Inl e)
    then show ?thesis using Suc.prems(1,2) jm by auto
  next
    case (Inr fs)
    note made = create_dir_real [OF Inr tree below(2,3)]
    let ?s = "s\<lparr>xs_fs := fs, xs_files := xs_files s @ [?d]\<rparr>"
    have run: "create_parents fails (map (\<lambda>i. take i p) [Suc j..<m]) ?s = (r, s')"
      using Suc.prems(1) jm(2) Inr by simp
    have "missing_from (xs_fs ?s) p (Suc j) m"
    proof -
      have "take i p \<noteq> ?d" if "j < i" "i < m" for i
        using that Suc.prems(6) by (metis length_take min.absorb2 less_imp_le nat_neq_iff order_less_le_trans less_le_trans)
      then show ?thesis using Suc.prems(3) made(2) by (auto simp: missing_from_def less_Suc_eq)
    qed
    moreover note goods = good_add [OF Suc.prems(2) below(1,3) _ _ made(2,3)]
    ultimately have "good b fs0 root s' \<and> later ?s s' \<and> xs_seen s' = xs_seen ?s \<and> (r = Inr () \<longrightarrow> (\<forall>i < m. is_dir (xs_fs s') (take i p)))"
      using Suc.hyps(1) [of "Suc j" ?s] Suc.hyps(2) Suc.prems(4-7) run jm(1) by simp
    then show ?thesis using goods(2) later_trans by auto
  qed
qed


definition seen_ok :: "extraction \<Rightarrow> bool" where
  "seen_ok s = (\<forall>a \<in> set (xs_seen s). is_dir (xs_fs s) a)"

lemma scan_parents_any: "scan_parents fails root as missing s = (r, s') \<Longrightarrow> s' = s\<lparr>xs_seen := xs_seen s'\<rparr>"
proof (induction "as" arbitrary: missing s)
  case (Cons a "as")
  show ?case
  proof (cases "a = root \<or> a \<in> set (xs_seen s)")
    case True
    then show ?thesis using Cons.prems by auto
  next
    case False
    let ?s = "s\<lparr>xs_seen := a # xs_seen s\<rparr>"
    have "s' = ?s \<or> (\<exists>m. scan_parents fails root as m ?s = (r, s'))"
      using Cons.prems False by (auto simp: Let_def split: sum.splits node.splits io_kind.splits)
    then show ?thesis using Cons.IH [of _ ?s] by auto
  qed
qed (simp add: aret_def)

lemma strict_prefix_length: "strict_prefix root p \<Longrightarrow> length root < length p \<and> prefix root p"
  by (auto simp: strict_prefix_def prefix_def)

lemma good_seen: "good b fs0 root (s\<lparr>xs_seen := x\<rparr>) = good b fs0 root s"
  by (simp add: good_def)

lemma ensure_parents_any:
  assumes run: "ensure_parent_dirs_recorded fails root p s = (r, s')" and inv: "good b fs0 root s" "seen_ok s"
    and p: "strict_prefix root p"
  shows "good b fs0 root s' \<and> later s s' \<and> (r = Inr () \<longrightarrow> is_dir (xs_fs s') (butlast p) \<and> seen_ok s')"
  using run unfolding ensure_parent_dirs_recorded_def
proof (cases rule: abind_cases)
  case (stop e)
  then have s': "s' = s\<lparr>xs_seen := xs_seen s'\<rparr>" using scan_parents_any by blast
  then have "good b fs0 root s'" using inv(1) good_seen by metis
  moreover have "later s s'" by (subst s') (simp add: later_def)
  ultimately show ?thesis using stop by simp
next
  case (go M s1)
  have tree: "tree_ok (xs_fs s)" "is_dir (xs_fs s) root" using inv(1) by (simp_all add: good_def tracked_def)
  have "\<And>i. i < length p \<Longrightarrow> take i p \<in> set (xs_seen s) \<Longrightarrow> is_dir (xs_fs s) (take i p)"
    using inv(2) by (simp add: seen_ok_def)
  then obtain j where j: "length root < j" "j \<le> length p" "M = map (\<lambda>i. take i p) (rev [j..<length p])"
    "missing_from (xs_fs s) p j (length p)" "s1 = s\<lparr>xs_seen := xs_seen s1\<rparr>"
    "set (xs_seen s1) \<subseteq> set (xs_seen s) \<union> {a. strict_prefix root a \<and> (\<exists>i < length p. a = take i p)}"
    using scan_parents_Inr [OF go(1) [unfolded ancestors_def] tree] strict_prefix_length [OF p] by auto
  have fs1: "xs_fs s1 = xs_fs s" by (subst j(5)) simp
  have "rev M = map (\<lambda>i. take i p) [j..<length p]" by (simp add: j(3) rev_map)
  moreover have "good b fs0 root s1" by (subst j(5)) (simp add: good_seen inv(1))
  ultimately have made: "good b fs0 root s' \<and> later s1 s' \<and> xs_seen s' = xs_seen s1 \<and>
      (r = Inr () \<longrightarrow> (\<forall>i < length p. is_dir (xs_fs s') (take i p)))"
    using create_parents_any [of fails p j "length p" s1 r s' b fs0 root] go(2) j(1,2,4) fs1 strict_prefix_length [OF p] by simp
  have "later s s1" by (subst j(5)) (simp add: later_def)
  then have later: "later s s'" using made later_trans by blast
  have "is_dir (xs_fs s') (butlast p) \<and> seen_ok s'" if "r = Inr ()"
  proof -
    have all: "\<forall>i < length p. is_dir (xs_fs s') (take i p)" using made that by blast
    moreover have "length p - 1 < length p" using strict_prefix_length [OF p] by auto
    ultimately have "is_dir (xs_fs s') (butlast p)" by (simp add: butlast_conv_take)
    moreover have "seen_ok s'"
      using made j(6) inv(2) later all unfolding seen_ok_def later_def by auto
    ultimately show ?thesis by blast
  qed
  then show ?thesis using made later by blast
qed

text \<open>The state with a path recorded that the extraction left out.\<close>

definition with_files :: "extraction \<Rightarrow> path list \<Rightarrow> extraction" where
  "with_files s extra = s\<lparr>xs_files := xs_files s @ extra\<rparr>"

lemma with_files_simps [simp]:
  "with_files s [] = s" "xs_fs (with_files s extra) = xs_fs s" "xs_files (with_files s extra) = xs_files s @ extra"
  by (simp_all add: with_files_def)

text \<open>A directory is there before its mode is applied; when that fails it is not recorded.\<close>

lemma extract_dir_any:
  assumes run: "extract_dir fails root p mode s = (r, s')" and inv: "good b fs0 root s" "seen_ok s"
    and p: "strict_prefix root p"
  shows "\<exists>extra. good b fs0 root (with_files s' extra) \<and> later s (with_files s' extra) \<and>
    (\<forall>q \<in> set extra. q = p \<and> is_dir (xs_fs s') p \<and> (\<not> is_ok mode \<or> fails (OpChmod p))) \<and>
    (r = Inr () \<longrightarrow> extra = [] \<and> seen_ok s' \<and> is_dir (xs_fs s') (butlast p) \<and> p \<in> set (xs_files s'))"
  using run unfolding extract_dir_def
proof (cases rule: abind_cases)
  case (stop e)
  then show ?thesis using ensure_parents_any [OF stop(1) inv p] by (intro exI [of _ "[]"]) simp
next
  case (go u s1)
  note parents = ensure_parents_any [OF go(1) inv p]
  then have s1: "good b fs0 root s1" "later s s1" "is_dir (xs_fs s1) (butlast p)" "seen_ok s1" using go by auto
  have tree: "tree_ok (xs_fs s1)" using s1(1) by (simp add: good_def tracked_def)
  have pne: "p \<noteq> []" using p by auto
  show ?thesis
  proof (cases "create_dir fails (xs_fs s1) p")
    case (Inr fs)
    note made = create_dir_real [OF Inr tree pne s1(3)]
    let ?s = "s1\<lparr>xs_fs := fs, xs_files := xs_files s1 @ [p]\<rparr>"
    have s': "is_ok mode \<and> \<not> fails (OpChmod p) \<and> r = Inr () \<and> s' = ?s \<or>
        (\<not> is_ok mode \<or> fails (OpChmod p)) \<and> r \<noteq> Inr () \<and> s' = s1\<lparr>xs_fs := fs\<rparr>"
      using go(2) Inr by (cases mode; cases "fails (OpChmod p)") (auto simp: abind_def alift_def ensure_def record_file_def amodify_def)
    have added: "good b fs0 root ?s" "later s ?s"
      using good_add [OF s1(1) p s1(3) _ _ made(2,3)] later_trans [OF s1(2)] by auto
    have "is_dir fs p" "is_dir fs (butlast p)" "seen_ok ?s" using made(2) s1(3,4) by (auto simp: seen_ok_def)
    moreover have "with_files (s1\<lparr>xs_fs := fs\<rparr>) [p] = ?s" by (simp add: with_files_def)
    ultimately show ?thesis using s' added
      by (intro exI [of _ "if r = Inr () then [] else [p]"]) auto
  next
    case (Inl e)
    show ?thesis
    proof (cases "r = Inr ()")
      case True
      then have s': "s' = s1\<lparr>xs_files := xs_files s1 @ [p]\<rparr>" "e = IoExists"
        using go(2) Inl by (cases mode; cases e; cases "fails (OpChmod p)"; auto simp: abind_def alift_def ensure_def record_file_def amodify_def split: if_splits)+
      have "good b fs0 root s'"
        using s1(1) tracked_record [OF _ p] tracked_parents [of fs0 root "xs_fs s1" "xs_files s1" p] s1(3)
        by (auto simp: good_def s'(1) intro!: children_last_add)
      moreover have "map_of (xs_fs s1) p \<noteq> None"
        using Inl s'(2) locate_real [OF tree pne s1(3)] by (auto simp: create_dir_def make_node_def split: if_splits)
      then have "later s1 s'" by (simp add: later_def s'(1) subset_insertI)
      ultimately show ?thesis using s' s1 later_trans by (intro exI [of _ "[]"]) (auto simp: seen_ok_def)
    next
      case False
      then have "s' = s1"
        using go(2) Inl by (cases mode; cases e; cases "fails (OpChmod p)"; auto simp: abind_def alift_def ensure_def record_file_def amodify_def split: if_splits)
      then show ?thesis using s1 False by (intro exI [of _ "[]"]) simp
    qed
  qed
qed

lemma extract_file_any:
  assumes run: "extract_file fails root p mode c s = (r, s')" and inv: "good b fs0 root s" "seen_ok s"
    and p: "strict_prefix root p"
  shows "good b fs0 root s' \<and> later s s' \<and> (r = Inr () \<longrightarrow> seen_ok s' \<and> is_dir (xs_fs s') (butlast p) \<and> p \<in> set (xs_files s'))"
  using run unfolding extract_file_def
proof (cases rule: abind_cases)
  case (stop e)
  then show ?thesis using ensure_parents_any [OF stop(1) inv p] by simp
next
  case (go u s1)
  then have s1: "good b fs0 root s1" "later s s1" "is_dir (xs_fs s1) (butlast p)" "seen_ok s1"
    using ensure_parents_any [OF go(1) inv p] by auto
  have tree: "tree_ok (xs_fs s1)" using s1(1) by (simp add: good_def tracked_def)
  have pne: "p \<noteq> []" using p by auto
  show ?thesis
  proof (cases "\<exists>fs. is_ok mode \<and> write_archive_regular_file fails (xs_fs s1) p c = Inr fs")
    case False
    then have "s' = s1 \<and> r \<noteq> Inr ()" using go(2) by (cases mode) (auto simp: abind_def alift_def split: sum.splits)
    then show ?thesis using s1 by simp
  next
    case True
    then obtain fs where Inr: "is_ok mode" "write_archive_regular_file fails (xs_fs s1) p c = Inr fs" by blast
    obtain d where "replace_file fails (xs_fs s1) p d = Inr fs" using write_file_Inr [OF Inr(2)] by blast
    then have made: "\<not> is_dir (xs_fs s1) p" "map_of fs = (map_of (xs_fs s1))(p \<mapsto> File d)" "tree_ok fs"
      using replace_file_Inr [OF _ tree pne] locate_real [OF tree pne s1(3)] by (metis sum.inject(2))+
    have s': "s' = s1\<lparr>xs_fs := fs, xs_files := xs_files s1 @ [p], xs_regular := p # xs_regular s1\<rparr>" "r = Inr ()"
      using go(2) Inr by (cases mode; auto simp: abind_def alift_def record_file_def amodify_def)+
    have "good b fs0 root (s1\<lparr>xs_fs := fs, xs_files := xs_files s1 @ [p]\<rparr>)" "later s1 (s1\<lparr>xs_fs := fs, xs_files := xs_files s1 @ [p]\<rparr>)"
      using good_add [OF s1(1) p s1(3) _ _ made(2,3)] made(1) by auto
    then have "good b fs0 root s'" "later s1 s'" using s'(1) by (auto simp: good_def later_def)
    then show ?thesis using s' s1 later_trans [OF s1(2)] made by (auto simp: seen_ok_def)
  qed
qed


section \<open>Links\<close>

primrec link_path :: "pending_link \<Rightarrow> path" where
  "link_path (PendingSymbolic p t) = p"
| "link_path (PendingHard p t) = p"

definition is_link :: "tar_entry \<Rightarrow> bool" where
  "is_link e = (te_type e = TarSymlink \<or> te_type e = TarHardLink)"

text \<open>The paths of the links of an archive.\<close>

fun link_paths :: "path \<Rightarrow> tar_item list \<Rightarrow> path list" where
  "link_paths root (TarEntry e # items) =
     (case data_tar_entry_path root (te_path e) of
        Inr p \<Rightarrow> (if is_link e then [p] else []) @ link_paths root items
      | Inl _ \<Rightarrow> [])"
| "link_paths root _ = []"

text \<open>The directories of an archive whose mode cannot be read or applied.\<close>

definition entry_mode_fails :: "(fs_op \<Rightarrow> bool) \<Rightarrow> path \<Rightarrow> tar_entry \<Rightarrow> path \<Rightarrow> bool" where
  "entry_mode_fails fails root e p =
     (te_type e = TarDir \<and> data_tar_entry_path root (te_path e) = Inr p \<and> (\<not> is_ok (te_mode e) \<or> fails (OpChmod p)))"

definition mode_fails :: "(fs_op \<Rightarrow> bool) \<Rightarrow> path \<Rightarrow> tar_item list \<Rightarrow> path \<Rightarrow> bool" where
  "mode_fails fails root items p =
     list_ex (\<lambda>item. case item of TarEntry e \<Rightarrow> entry_mode_fails fails root e p | _ \<Rightarrow> False) items"

text \<open>No link of the archive is below another one, or below a link that was there before.\<close>

definition links_are_leaves :: "file_system \<Rightarrow> path list \<Rightarrow> bool" where
  "links_are_leaves fs0 L =
     list_all (\<lambda>p. list_all (\<lambda>q. q \<notin> set L \<and> (case map_of fs0 q of Some (Symlink _) \<Rightarrow> False | _ \<Rightarrow> True)) (ancestors p)) L"

text \<open>The directories of a link were there before, or come earlier in the archive.\<close>

fun parents_first :: "file_system \<Rightarrow> path \<Rightarrow> path list \<Rightarrow> tar_item list \<Rightarrow> bool" where
  "parents_first fs0 root ds (TarEntry e # items) =
     (case data_tar_entry_path root (te_path e) of
        Inr p \<Rightarrow>
          if is_link e
          then list_all (\<lambda>q. strict_prefix root q \<longrightarrow> map_of fs0 q = None \<longrightarrow> q \<in> set ds) (ancestors p) \<and>
               parents_first fs0 root ds items
          else parents_first fs0 root (p # ds) items
      | Inl _ \<Rightarrow> True)"
| "parents_first fs0 root ds _ = True"

lemma in_ancestors: "strict_prefix q p \<Longrightarrow> q \<in> set (ancestors p)"
  by (auto simp: ancestors_def strict_prefix_def prefix_def intro!: image_eqI [of _ _ "length q"])

definition placed :: "path set \<Rightarrow> extraction \<Rightarrow> bool" where
  "placed L s = ((\<forall>p \<in> set (xs_files s). p \<in> L \<or> map_of (xs_fs s) p \<noteq> None) \<and>
     (\<forall>l \<in> set (xs_links s). link_path l \<in> L \<and> link_path l \<in> set (xs_files s)))"

lemma placed_later: "placed L s \<Longrightarrow> later s s' \<Longrightarrow> placed L s'"
  unfolding placed_def later_def by (metis subsetD)

lemma entry_below: "data_tar_entry_path root text = Inr p \<Longrightarrow> strict_prefix root p"
  by (drule data_tar_entry_path_Inr) (auto simp: strict_prefix_def)

lemma defer_link_any:
  assumes run: "defer_link p l s = (r, s')" and inv: "good b fs0 root s" "seen_ok s" "placed L s"
    and p: "strict_prefix root p" "link_path l = p" "p \<in> L" "b \<Longrightarrow> parents_recorded fs0 root (xs_files s) p"
  shows "good b fs0 root s' \<and> seen_ok s' \<and> placed L s' \<and> set (xs_files s) \<subseteq> set (xs_files s')"
proof -
  have s': "s' = s\<lparr>xs_files := xs_files s @ [p], xs_links := xs_links s @ [l]\<rparr>"
    using run by (auto simp: defer_link_def abind_def record_file_def amodify_def)
  have "good b fs0 root s'"
    using inv(1) p(4) tracked_record [OF _ p(1)] by (auto simp: good_def s' intro!: children_last_add)
  moreover have "placed L s'" using inv(3) p by (auto simp: s' placed_def)
  ultimately show ?thesis using inv(2) by (auto simp: s' seen_ok_def)
qed

text \<open>One entry, whatever its outcome.\<close>

lemma extract_entry_any:
  assumes run: "extract_entry fails root e s = (r, s')" and inv: "good b fs0 root s" "seen_ok s" "placed L s"
    and link: "\<And>p. data_tar_entry_path root (te_path e) = Inr p \<Longrightarrow> is_link e \<Longrightarrow>
      p \<in> L \<and> (b \<longrightarrow> parents_recorded fs0 root (xs_files s) p)"
  shows "\<exists>extra. good b fs0 root (with_files s' extra) \<and> placed L (with_files s' extra) \<and>
    (\<forall>q \<in> set extra. is_dir (xs_fs s') q \<and> entry_mode_fails fails root e q) \<and>
    (r = Inr () \<longrightarrow> extra = [] \<and> seen_ok s' \<and> set (xs_files s) \<subseteq> set (xs_files s') \<and>
      (\<exists>p. data_tar_entry_path root (te_path e) = Inr p \<and> (is_link e \<or> p \<in> set (xs_files s'))))"
proof (cases "data_tar_entry_path root (te_path e)")
  case (Inl err)
  then have "s' = s \<and> r = Inl err" using run by (simp add: extract_entry_def abind_def alift_def)
  then show ?thesis using inv by (intro exI [of _ "[]"]) simp
next
  case (Inr p)
  note below = entry_below [OF Inr]
  have deferred: "good b fs0 root s' \<and> seen_ok s' \<and> placed L s' \<and> set (xs_files s) \<subseteq> set (xs_files s')"
    if "defer_link p l s = (r, s')" "link_path l = p" "is_link e" for l
    by (rule defer_link_any [OF that(1) inv below that(2)]) (use link [OF Inr that(3)] in auto)
  have stopped: ?thesis if "s' = s" "r \<noteq> Inr ()" using that inv by (intro exI [of _ "[]"]) simp
  have kept: ?thesis if "is_link e" "link_path l = p" "defer_link p l s = (r, s')" for l
    using deferred [OF that(3,2,1)] that(1) Inr by (intro exI [of _ "[]"]) simp
  show ?thesis
  proof (cases "te_type e")
    case TarDir
    then have "extract_dir fails root p (te_mode e) s = (r, s')" using run Inr by (simp add: extract_entry_def abind_def alift_def)
    from extract_dir_any [OF this inv(1,2) below] obtain extra where
      "good b fs0 root (with_files s' extra)" "later s (with_files s' extra)"
      "\<forall>q \<in> set extra. q = p \<and> is_dir (xs_fs s') p \<and> (\<not> is_ok (te_mode e) \<or> fails (OpChmod p))"
      "r = Inr () \<longrightarrow> extra = [] \<and> seen_ok s' \<and> is_dir (xs_fs s') (butlast p) \<and> p \<in> set (xs_files s')" by blast
    then show ?thesis
      using placed_later [OF inv(3)] Inr TarDir by (intro exI [of _ extra]) (auto simp: later_def entry_mode_fails_def)
  next
    case TarFile
    then have "extract_file fails root p (te_mode e) (te_content e) s = (r, s')"
      using run Inr by (simp add: extract_entry_def abind_def alift_def)
    from extract_file_any [OF this inv(1,2) below] show ?thesis
      using placed_later [OF inv(3)] Inr by (intro exI [of _ "[]"]) (auto simp: later_def)
  next
    case TarSpecial
    then show ?thesis using run Inr stopped by (auto simp: extract_entry_def abind_def alift_def araise_def)
  next
    case TarSymlink
    then have "s' = s \<and> r \<noteq> Inr () \<or> (\<exists>t. defer_link p (PendingSymbolic p t) s = (r, s'))"
      using run Inr by (auto simp: extract_entry_def abind_def alift_def split: sum.splits)
    then show ?thesis using stopped kept [of "PendingSymbolic p _"] TarSymlink by (auto simp: is_link_def)
  next
    case TarHardLink
    then have "s' = s \<and> r \<noteq> Inr () \<or> (\<exists>t. defer_link p (PendingHard p t) s = (r, s'))"
      using run Inr by (auto simp: extract_entry_def abind_def alift_def split: sum.splits)
    then show ?thesis using stopped kept [of "PendingHard p _"] TarHardLink by (auto simp: is_link_def)
  qed
qed

lemma extract_entries_any:
  assumes "extract_entries fails root items s = (r, s')" "good b fs0 root s" "seen_ok s" "placed L s"
    "set (link_paths root items) \<subseteq> L"
    "b \<longrightarrow> parents_first fs0 root ds items \<and> set ds \<subseteq> set (xs_files s)"
  shows "\<exists>extra. good b fs0 root (with_files s' extra) \<and> placed L (with_files s' extra) \<and>
    (\<forall>q \<in> set extra. is_dir (xs_fs s') q \<and> mode_fails fails root items q) \<and> (r = Inr () \<longrightarrow> extra = [] \<and> seen_ok s')"
  using assms
proof (induction items arbitrary: s ds)
  case Nil
  then show ?case by (intro exI [of _ "[]"]) (simp add: aret_def)
next
  case (Cons item items)
  show ?case
  proof (cases item)
    case (TarEntry e)
    have link: "p \<in> L \<and> (b \<longrightarrow> parents_recorded fs0 root (xs_files s) p)"
      if "data_tar_entry_path root (te_path e) = Inr p" "is_link e" for p
      using Cons.prems(5,6) that TarEntry in_ancestors [of _ p] by (auto simp: parents_recorded_def list_all_iff)
    have "abind (extract_entry fails root e) (\<lambda>_. extract_entries fails root items) s = (r, s')"
      using Cons.prems(1) TarEntry by simp
    then show ?thesis
    proof (cases rule: abind_cases)
      case (stop err)
      from extract_entry_any [OF stop(1) Cons.prems(2-4) link] obtain extra where
        "good b fs0 root (with_files s' extra)" "placed L (with_files s' extra)"
        "\<forall>q \<in> set extra. is_dir (xs_fs s') q \<and> entry_mode_fails fails root e q" by blast
      then show ?thesis using stop(2) TarEntry by (intro exI [of _ extra]) (simp add: mode_fails_def)
    next
      case (go u s1)
      from extract_entry_any [OF go(1) Cons.prems(2-4) link] obtain p where
        s1: "good b fs0 root s1" "placed L s1" "seen_ok s1" "set (xs_files s) \<subseteq> set (xs_files s1)"
        and p: "data_tar_entry_path root (te_path e) = Inr p" "is_link e \<or> p \<in> set (xs_files s1)" by auto
      have links: "set (link_paths root items) \<subseteq> L" using Cons.prems(5) TarEntry p(1) by simp
      have "b \<longrightarrow> parents_first fs0 root (if is_link e then ds else p # ds) items \<and>
          set (if is_link e then ds else p # ds) \<subseteq> set (xs_files s1)"
        using Cons.prems(6) TarEntry p s1(4) by auto
      from Cons.IH [OF go(2) s1(1,3,2) links this] show ?thesis using TarEntry by (auto simp: mode_fails_def)
    qed
  qed (use Cons.prems in \<open>auto simp: araise_def intro!: exI [of _ "[]"]\<close>)
qed


text \<open>The state once links are being created: the only new links are those of the archive.\<close>

definition linked :: "file_system \<Rightarrow> path \<Rightarrow> path set \<Rightarrow> file_system \<Rightarrow> path list \<Rightarrow> bool" where
  "linked fs0 root L fs files =
     (tree_ok fs \<and> (\<forall>p \<in> set files. strict_prefix root p \<and> (p \<in> L \<or> map_of fs p \<noteq> None)) \<and>
      (\<forall>p. map_of fs p \<noteq> map_of fs0 p \<longrightarrow> p \<in> set files) \<and>
      (\<forall>p t. map_of fs p = Some (Symlink t) \<longrightarrow> map_of fs0 p = Some (Symlink t) \<or> p \<in> L))"

lemma linked_leaf:
  assumes "linked fs0 root (set L) fs files" "links_are_leaves fs0 L" "p \<in> set L \<or> map_of fs p \<noteq> None" "strict_prefix q p"
  shows "map_of fs q \<noteq> Some (Symlink t)"
proof (cases "p \<in> set L")
  case True
  then have "q \<notin> set L \<and> (case map_of fs0 q of Some (Symlink _) \<Rightarrow> False | _ \<Rightarrow> True)"
    using assms(2) in_ancestors [OF assms(4)] unfolding links_are_leaves_def list_all_iff by blast
  then have "q \<notin> set L" "map_of fs0 q \<noteq> Some (Symlink t)" by auto
  then show ?thesis using assms(1) unfolding linked_def by blast
next
  case False
  then have "is_dir fs q" using assms(1,3,4) tree_ok_prefix [of fs p q] by (auto simp: linked_def)
  then show ?thesis by simp
qed

lemma locate_leaf:
  assumes "locate fs p = Inr q" "p \<noteq> []" "\<And>d t. strict_prefix d p \<Longrightarrow> map_of fs d \<noteq> Some (Symlink t)"
  shows "q = p"
proof -
  obtain d where d: "walk fs 40 [] (map Normal (butlast p)) = Inr d" "q = d @ [last p]"
    using assms(1,2) by (auto simp: locate_def rbind_eq_Inr)
  have "strict_prefix ([] @ take k (butlast p)) p" if "k \<le> length (butlast p)" for k
  proof -
    have "0 < length p" using assms(2) by simp
    then have "k < length p" using that unfolding length_butlast by linarith
    then show ?thesis using take_strict_prefix [of k p] by (simp add: butlast_conv_take take_take min_absorb1)
  qed
  then have "d = [] @ butlast p" by (intro walk_no_links [OF d(1)] assms(3)) simp
  then show ?thesis using d(2) assms(2) by simp
qed

lemma linked_add:
  assumes "linked fs0 root L fs files" "p \<in> L" "p \<in> set files" "map_of fs' = (map_of fs)(p \<mapsto> n)" "tree_ok fs'"
  shows "linked fs0 root L fs' files"
  using assms by (auto simp: linked_def)

lemma create_root_link_any:
  assumes run: "create_root_link fails l s = (r, s')" and inv: "linked fs0 root (set L) (xs_fs s) (xs_files s)"
    and leaves: "links_are_leaves fs0 L" and l: "link_path l \<in> set L" "link_path l \<in> set (xs_files s)"
  shows "s' = s\<lparr>xs_fs := xs_fs s'\<rparr> \<and> linked fs0 root (set L) (xs_fs s') (xs_files s)"
proof -
  let ?p = "link_path l"
  have "s' = s \<or> (\<exists>fs n op. s' = s\<lparr>xs_fs := fs\<rparr> \<and> make_node fails op (xs_fs s) ?p n = Inr fs)"
    using run by (auto simp: create_root_link_def rbind_eq_Inr map_sum_Inr split: sum.splits pending_link.splits)
  then show ?thesis
  proof (elim disjE exE conjE)
    fix fs n op
    assume s': "s' = s\<lparr>xs_fs := fs\<rparr>" and made: "make_node fails op (xs_fs s) ?p n = Inr fs"
    have ne: "?p \<noteq> []" using inv l(2) by (auto simp: linked_def)
    have tree: "tree_ok (xs_fs s)" using inv by (simp add: linked_def)
    obtain q where q: "locate (xs_fs s) ?p = Inr q" "map_of fs = (map_of (xs_fs s))(q \<mapsto> n)" "tree_ok fs"
      using make_node_Inr [OF made tree ne] by blast
    have "q = ?p" by (rule locate_leaf [OF q(1) ne linked_leaf [OF inv leaves]]) (use l in auto)
    then show ?thesis using linked_add [OF inv l] q(2,3) s' by simp
  qed (use inv in simp)
qed

lemma create_root_links_any:
  assumes "create_root_links fails links s = (r, s')" "linked fs0 root (set L) (xs_fs s) (xs_files s)"
    "links_are_leaves fs0 L" "\<forall>l \<in> set links. link_path l \<in> set L \<and> link_path l \<in> set (xs_files s)"
  shows "s' = s\<lparr>xs_fs := xs_fs s'\<rparr> \<and> linked fs0 root (set L) (xs_fs s') (xs_files s)"
  using assms
proof (induction links arbitrary: s)
  case Nil
  then show ?case by (simp add: aret_def)
next
  case (Cons l links)
  have l: "link_path l \<in> set L" "link_path l \<in> set (xs_files s)" using Cons.prems(4) by auto
  have "abind (create_root_link fails l) (\<lambda>_. create_root_links fails links) s = (r, s')" using Cons.prems(1) by simp
  then show ?case
  proof (cases rule: abind_cases)
    case (stop err)
    then show ?thesis using create_root_link_any [OF stop(1) Cons.prems(2,3) l] by simp
  next
    case (go u s1)
    note first = create_root_link_any [OF go(1) Cons.prems(2,3) l]
    then have files: "xs_files s1 = xs_files s" by (metis extraction.select_convs(2) extraction.surjective extraction.update_convs(1))
    then have "s' = s1\<lparr>xs_fs := xs_fs s'\<rparr> \<and> linked fs0 root (set L) (xs_fs s') (xs_files s)"
      using Cons.IH [OF go(2) _ Cons.prems(3)] Cons.prems(4) first by simp
    then show ?thesis using first by (metis extraction.update_convs(1) extraction.surjective)
  qed
qed

lemma good_linked: "good b fs0 root s \<Longrightarrow> placed L s \<Longrightarrow> linked fs0 root L (xs_fs s) (xs_files s)"
  unfolding good_def placed_def tracked_def linked_def by blast

text \<open>The files an outcome of the extraction carries.\<close>

definition recorded :: "(extract_error \<times> path list, path list) result \<Rightarrow> path list" where
  "recorded r = (case r of Inr files \<Rightarrow> files | Inl (e, files) \<Rightarrow> files)"

text \<open>At most a directory whose mode failed is missing in the record.\<close>

lemma extraction_outcome:
  assumes run: "extract_tar_stream_to_root_at fails root items fs0 = (r, fs)" and fs0: "tree_ok fs0" "is_dir fs0 root"
    and leaves: "links_are_leaves fs0 (link_paths root items)" and order: "b \<longrightarrow> parents_first fs0 root [] items"
  shows "\<exists>extra. linked fs0 root (set (link_paths root items)) fs (recorded r @ extra) \<and>
    (b \<longrightarrow> children_last fs0 root (recorded r @ extra)) \<and>
    (\<forall>q \<in> set extra. is_dir fs q \<and> mode_fails fails root items q)"
proof -
  let ?s0 = "\<lparr>xs_fs = fs0, xs_files = [], xs_seen = [], xs_links = [], xs_regular = []\<rparr>" and ?L = "set (link_paths root items)"
  obtain x s where s: "extract_archive fails root items ?s0 = (x, s)" "recorded r = xs_files s" "fs = xs_fs s"
    using run by (auto simp: extract_tar_stream_to_root_at_def track_partial_extraction_def recorded_def Let_def
      split: prod.splits sum.splits extract_error.splits)
  have start: "good b fs0 root ?s0" "seen_ok ?s0" "placed ?L ?s0"
    using fs0 by (auto simp: good_def tracked_def children_last_def seen_ok_def placed_def)
  have order0: "b \<longrightarrow> parents_first fs0 root [] items \<and> set [] \<subseteq> set (xs_files ?s0)" using order by simp
  from s(1) [unfolded extract_archive_def] show ?thesis
  proof (cases rule: abind_cases)
    case (stop err)
    from extract_entries_any [OF stop(1) start subset_refl order0] obtain extra where
      extra: "good b fs0 root (with_files s extra)" "placed ?L (with_files s extra)"
      "\<forall>q \<in> set extra. is_dir (xs_fs s) q \<and> mode_fails fails root items q" by blast
    then have "linked fs0 root ?L (xs_fs s) (xs_files s @ extra)" using good_linked by fastforce
    then show ?thesis using extra s by (intro exI [of _ extra]) (simp add: good_def)
  next
    case (go u s1)
    have s1: "good b fs0 root s1" "placed ?L s1" using extract_entries_any [OF go(1) start subset_refl order0] by auto
    have "create_root_links fails (xs_links s1) s1 = (x, s)" using go(2) by (simp add: abind_def aread_def)
    then have links: "s = s1\<lparr>xs_fs := xs_fs s\<rparr> \<and> linked fs0 root ?L (xs_fs s) (xs_files s1)"
      by (rule create_root_links_any [OF _ good_linked leaves]) (use s1 in \<open>auto simp: placed_def\<close>)
    then have "xs_files s = xs_files s1" by (metis extraction.select_convs(2) extraction.surjective extraction.update_convs(1))
    then show ?thesis using links s1 s by (intro exI [of _ "[]"]) (auto simp: good_def)
  qed
qed

section \<open>Rollback removes what was created\<close>

lemma dir_empty_gone:
  assumes "\<And>c. c \<noteq> [] \<Longrightarrow> butlast c = q \<Longrightarrow> map_of fs c = None"
  shows "dir_empty fs q"
  using assms by (auto simp: dir_empty_def list_all_iff map_of_eq_None_iff) (metis fst_conv image_eqI)

lemma dir_empty_no_child: "dir_empty fs q \<Longrightarrow> c \<noteq> [] \<Longrightarrow> butlast c = q \<Longrightarrow> map_of fs c = None"
  by (auto simp: dir_empty_def list_all_iff map_of_eq_None_iff)

lemma tree_ok_delete:
  assumes "tree_ok fs" "p \<noteq> []" "is_dir fs p \<Longrightarrow> dir_empty fs p"
  shows "tree_ok (AList.delete p fs)"
proof -
  have "is_dir fs (butlast c) \<and> butlast c \<noteq> p" if "c \<noteq> []" "map_of fs c \<noteq> None" for c
    using that assms tree_ok_parent [OF assms(1), of c] dir_empty_no_child [of fs p c] by auto
  then show ?thesis using assms(1,2) unfolding tree_ok_def delete_conv' by (metis fun_upd_apply)
qed

text \<open>Removing a path whose directories are no links changes nothing but that path.\<close>

lemma remove_file_any:
  assumes tree: "tree_ok fs" and ne: "p \<noteq> []" and leaf: "\<And>d t. strict_prefix d p \<Longrightarrow> map_of fs d \<noteq> Some (Symlink t)"
  shows "(case remove_file_if_present fails p fs of Inr fs' \<Rightarrow> fs' = fs \<and> (map_of fs p = None) \<or>
      fs' = AList.delete p fs \<and> (is_dir fs p \<longrightarrow> dir_empty fs p) | Inl _ \<Rightarrow> True)"
proof (cases "map_of fs p")
  case None
  have "lstat fails fs p \<noteq> Inr n" for n
    using locate_leaf [OF _ ne leaf] None by (auto simp: lstat_def rbind_eq_Inr split: if_splits option.splits)
  then show ?thesis
    using None by (cases "lstat fails fs p") (auto simp: remove_file_if_present_def split: io_kind.splits sum.splits)
next
  case (Some n)
  then have "is_dir fs (butlast p)" using tree_ok_parent [OF tree] by simp
  then have "locate fs p = Inr p" by (rule locate_real [OF tree ne])
  then show ?thesis using Some
    by (auto simp: remove_file_if_present_def lstat_def remove_at_def split: node.splits sum.splits io_kind.splits if_splits)
qed

lemma remove_file_done:
  assumes tree: "tree_ok fs" and ne: "p \<noteq> []" and leaf: "\<And>d t. strict_prefix d p \<Longrightarrow> map_of fs d \<noteq> Some (Symlink t)"
    and ok: "\<not> fails (OpStat p)" "\<not> fails (OpRemove p)" and empty: "is_dir fs p \<Longrightarrow> dir_empty fs p"
  shows "map_of (case remove_file_if_present fails p fs of Inr fs' \<Rightarrow> fs' | Inl _ \<Rightarrow> fs) p = None"
proof (cases "map_of fs p")
  case None
  then show ?thesis using remove_file_any [OF tree ne leaf, of fails] by (auto simp: delete_conv' split: sum.splits)
next
  case (Some n)
  then have "is_dir fs (butlast p)" using tree_ok_parent [OF tree] by simp
  then have "locate fs p = Inr p" by (rule locate_real [OF tree ne])
  then show ?thesis using Some ok empty
    by (auto simp: remove_file_if_present_def lstat_def remove_at_def delete_conv' split: node.splits)
qed

text \<open>
  Half way through: \<^verbatim>\<open>pre\<close> is still to be removed, \<^verbatim>\<open>post\<close> has been tried. The paths \<^verbatim>\<open>X\<close> are not in the
  record, so the directories above them stay.
\<close>

definition unwound :: "path set \<Rightarrow> file_system \<Rightarrow> file_system \<Rightarrow> path list \<Rightarrow> path list \<Rightarrow> file_system \<Rightarrow> bool" where
  "unwound X fs0 fs1 pre post fs =
     (tree_ok fs \<and> (\<forall>p. map_of fs p \<noteq> None \<longrightarrow> map_of fs p = map_of fs1 p) \<and>
      (\<forall>p. p \<notin> set post \<longrightarrow> map_of fs p = map_of fs1 p) \<and>
      (\<forall>p \<in> set post. p \<notin> set pre \<longrightarrow> map_of fs0 p = None \<longrightarrow> (\<forall>x \<in> X. \<not> prefix p x) \<longrightarrow> map_of fs p = None))"

lemma unwound_keep:
  assumes "unwound X fs0 fs1 (pre @ [p]) post fs" "tree_ok fs'" "fs' = fs \<or> fs' = AList.delete p fs"
    "p \<notin> set pre \<Longrightarrow> map_of fs0 p = None \<Longrightarrow> \<forall>x \<in> X. \<not> prefix p x \<Longrightarrow> map_of fs' p = None"
  shows "unwound X fs0 fs1 pre (p # post) fs'"
proof -
  have other: "map_of fs' q = map_of fs q" if "q \<noteq> p" for q using that assms(3) by (auto simp: delete_conv')
  have there: "map_of fs' q = map_of fs q" if "map_of fs' q \<noteq> None" for q
    using that assms(3) by (cases "q = p") (auto simp: delete_conv')
  show ?thesis
    unfolding unwound_def
  proof (intro conjI allI ballI impI)
    show "tree_ok fs'" by (rule assms(2))
    show "map_of fs' q = map_of fs1 q" if "map_of fs' q \<noteq> None" for q
      using that there [OF that] assms(1) by (simp add: unwound_def del: not_None_eq)
    show "map_of fs' q = map_of fs1 q" if "q \<notin> set (p # post)" for q
      using that other [of q] assms(1) by (simp add: unwound_def)
    show "map_of fs' q = None" if "q \<in> set (p # post)" "q \<notin> set pre" "map_of fs0 q = None" "\<forall>x \<in> X. \<not> prefix q x" for q
      using that other [of q] assms(1,4) by (cases "q = p") (simp_all add: unwound_def)
  qed
qed

text \<open>A created directory is empty once every path recorded after it is gone.\<close>

lemma unwound_empty:
  assumes inv: "unwound X fs0 fs1 (pre @ [p]) post fs" and fs1: "\<And>q. map_of fs1 q \<noteq> map_of fs0 q \<Longrightarrow> q \<in> set (pre @ p # post) \<union> X"
    and order: "children_last fs0 root (pre @ p # post)" and fs0: "tree_ok fs0"
    and p: "strict_prefix root p" "p \<notin> set pre" "map_of fs0 p = None" "\<forall>x \<in> X. \<not> prefix p x"
  shows "dir_empty fs p"
proof (rule dir_empty_gone)
  fix c :: path
  assume c: "c \<noteq> []" "butlast c = p"
  then have pc: "strict_prefix p c" by (metis append_butlast_last_id strict_prefix_def prefixI append_self_conv list.discI)
  have apart: "\<forall>x \<in> X. \<not> prefix c x" using p(4) pc by (meson prefix_order.less_imp_le prefix_order.trans)
  have new: "map_of fs0 c = None" using tree_ok_parent [OF fs0, of c] c(2) p(3) by (cases "map_of fs0 c") auto
  show "map_of fs c = None"
  proof (rule ccontr)
    assume there: "map_of fs c \<noteq> None"
    then have "map_of fs1 c \<noteq> map_of fs0 c" using inv new unfolding unwound_def by metis
    then have "c \<in> set (pre @ p # post)" using fs1 [of c] apart by auto
    then have "c \<in> set (pre @ [p]) \<or> c \<in> set post" by auto
    moreover have "c \<notin> set (pre @ [p])"
    proof
      assume "c \<in> set (pre @ [p])"
      moreover have "c \<noteq> p" using pc by auto
      ultimately obtain k where k: "k < length pre" "pre ! k = c" by (auto simp: in_set_conv_nth nth_append)
      then have "parents_recorded fs0 root (take k pre) c"
        using order [unfolded children_last_def, rule_format, of k] by (simp add: nth_append)
      then have "p \<in> set (take k pre)" using p pc by (simp add: parents_recorded_def)
      then show False using p(2) by (meson in_set_takeD)
    qed
    ultimately show False using inv new there apart by (simp add: unwound_def)
  qed
qed

lemma remove_recorded_unwound:
  assumes "unwound X fs0 fs1 pre post fs" "\<And>q. map_of fs1 q \<noteq> map_of fs0 q \<Longrightarrow> q \<in> set (pre @ post) \<union> X"
    "children_last fs0 root (pre @ post)" "tree_ok fs0" "\<And>p. p \<in> set (pre @ post) \<Longrightarrow> strict_prefix root p"
    "\<And>p d t. p \<in> set (pre @ post) \<Longrightarrow> strict_prefix d p \<Longrightarrow> map_of fs1 d \<noteq> Some (Symlink t)"
    "\<And>p. \<not> fails (OpStat p)" "\<And>p. \<not> fails (OpRemove p)"
  shows "unwound X fs0 fs1 [] (pre @ post) (snd (remove_recorded fails (rev pre) (fl, fs)))"
  using assms
proof (induction pre arbitrary: post fs fl rule: rev_induct)
  case Nil
  then show ?case by simp
next
  case (snoc p pre)
  let ?fs' = "case remove_file_if_present fails p fs of Inr fs' \<Rightarrow> fs' | Inl _ \<Rightarrow> fs"
  have tree: "tree_ok fs" using snoc.prems(1) by (simp add: unwound_def)
  have below: "strict_prefix root p" using snoc.prems(5) by simp
  then have ne: "p \<noteq> []" by auto
  have leaf: "map_of fs d \<noteq> Some (Symlink t)" if "strict_prefix d p" for d t
    using snoc.prems(6) [of p d t] that snoc.prems(1) unfolding unwound_def by fastforce
  have kept: "?fs' = fs \<or> ?fs' = AList.delete p fs \<and> (is_dir fs p \<longrightarrow> dir_empty fs p)"
    using remove_file_any [OF tree ne leaf, of fails] by (auto split: sum.splits)
  have "unwound X fs0 fs1 pre (p # post) ?fs'"
  proof (rule unwound_keep [OF snoc.prems(1)])
    show "tree_ok ?fs'" using kept tree tree_ok_delete [OF tree ne] by metis
    show "?fs' = fs \<or> ?fs' = AList.delete p fs" using kept by blast
    assume "p \<notin> set pre" "map_of fs0 p = None" "\<forall>x \<in> X. \<not> prefix p x"
    then have "dir_empty fs p"
      using unwound_empty [OF snoc.prems(1) _ _ snoc.prems(4) below] snoc.prems(2,3) by simp
    then show "map_of ?fs' p = None" by (intro remove_file_done [OF tree ne leaf snoc.prems(7,8)])
  qed
  then have "unwound X fs0 fs1 [] (pre @ p # post) (snd (remove_recorded fails (rev pre) (fl', ?fs')))" for fl'
    by (rule snoc.IH) (use snoc.prems in auto)
  then show ?case by (auto split: sum.splits)
qed


lemma tree_ok_code [code]:
  "tree_ok fs = (is_dir fs [] \<and> list_all (\<lambda>(p, _). p = [] \<or> is_dir fs (butlast p)) fs)"
proof -
  have "map_of fs p \<noteq> None \<longleftrightarrow> (\<exists>n. (p, n) \<in> set fs)" for p
    unfolding map_of_eq_None_iff by force
  then show ?thesis unfolding tree_ok_def list_all_iff by fastforce
qed

lemma children_last_appendD: "children_last fs0 root (xs @ ys) \<Longrightarrow> children_last fs0 root xs"
  unfolding children_last_def
proof (intro allI impI)
  fix k
  assume all: "\<forall>k < length (xs @ ys). parents_recorded fs0 root (take k (xs @ ys)) ((xs @ ys) ! k)" and "k < length xs"
  then show "parents_recorded fs0 root (take k xs) (xs ! k)" using all [rule_format, of k] by (simp add: nth_append)
qed

lemma snd_rollback: "snd (rollback fails files [] fs) = snd (remove_recorded fails (rev files) ([], fs))"
  by (simp add: rollback_def split: prod.split)

lemma rollback_unwound:
  assumes run: "extract_tar_stream_to_root_at fails root items fs0 = (r, fs)" and fs0: "tree_ok fs0" "is_dir fs0 root"
    and leaves: "links_are_leaves fs0 (link_paths root items)"
    and order: "parents_first fs0 root [] items" and ok: "\<And>p. \<not> fails' (OpStat p)" "\<And>p. \<not> fails' (OpRemove p)"
  shows "\<exists>X. unwound X fs0 fs [] (recorded r) (snd (rollback fails' (recorded r) [] fs)) \<and>
    (\<forall>x \<in> X. is_dir fs x \<and> mode_fails fails root items x) \<and>
    (\<forall>p \<in> set (recorded r) \<union> X. strict_prefix root p) \<and>
    (\<forall>p. map_of fs p \<noteq> map_of fs0 p \<longrightarrow> p \<in> set (recorded r) \<union> X)"
proof -
  let ?L = "set (link_paths root items)"
  obtain extra where out: "linked fs0 root ?L fs (recorded r @ extra)" "children_last fs0 root (recorded r @ extra)"
    and extra: "\<forall>q \<in> set extra. is_dir fs q \<and> mode_fails fails root items q"
    using extraction_outcome [OF run fs0 leaves, of True] order by auto
  then have lnk: "tree_ok fs" "\<And>p. p \<in> set (recorded r @ extra) \<Longrightarrow> strict_prefix root p \<and> (p \<in> ?L \<or> map_of fs p \<noteq> None)"
    "\<And>q. map_of fs q \<noteq> map_of fs0 q \<Longrightarrow> q \<in> set (recorded r) \<union> set extra"
    unfolding linked_def by auto
  have "unwound (set extra) fs0 fs [] (recorded r @ []) (snd (remove_recorded fails' (rev (recorded r)) ([], fs)))"
  proof (rule remove_recorded_unwound)
    show "unwound (set extra) fs0 fs (recorded r) [] fs" using lnk(1) by (simp add: unwound_def)
    show "children_last fs0 root (recorded r @ [])" using children_last_appendD [OF out(2)] by simp
    show "map_of fs d \<noteq> Some (Symlink t)" if "p \<in> set (recorded r @ [])" "strict_prefix d p" for p d t
      by (rule linked_leaf [OF out(1) leaves _ that(2)]) (use lnk(2) that(1) in auto)
  qed (use lnk fs0 ok in auto)
  then show ?thesis using lnk(2,3) extra by (intro exI [of _ "set extra"]) (auto simp: snd_rollback)
qed

text \<open>Removal through no link takes nothing away but what it is asked for.\<close>

lemma remove_recorded_keeps:
  assumes "tree_ok fs" "\<And>q. q \<in> set ps \<Longrightarrow> q \<noteq> []"
    "\<And>q d t. q \<in> set ps \<Longrightarrow> strict_prefix d q \<Longrightarrow> map_of fs d \<noteq> Some (Symlink t)" "p \<notin> set ps"
  shows "map_of (snd (remove_recorded fails ps (fl, fs))) p = map_of fs p"
  using assms
proof (induction ps arbitrary: fs fl)
  case (Cons q ps)
  let ?fs' = "case remove_file_if_present fails q fs of Inr fs' \<Rightarrow> fs' | Inl _ \<Rightarrow> fs"
  have q: "q \<noteq> []" "\<And>d t. strict_prefix d q \<Longrightarrow> map_of fs d \<noteq> Some (Symlink t)" using Cons.prems(2,3) by auto
  have kept: "?fs' = fs \<or> ?fs' = AList.delete q fs \<and> (is_dir fs q \<longrightarrow> dir_empty fs q)"
    using remove_file_any [OF Cons.prems(1) q, of fails] by (auto split: sum.splits)
  then have tree: "tree_ok ?fs'" using Cons.prems(1) tree_ok_delete [OF Cons.prems(1) q(1)] by metis
  have map: "map_of ?fs' = map_of fs \<or> map_of ?fs' = (map_of fs)(q := None)" using kept by (metis delete_conv')
  have leaf: "map_of ?fs' d \<noteq> Some (Symlink t)" if "x \<in> set ps" "strict_prefix d x" for x d t
    using map Cons.prems(3) [of x d t] that by (auto simp: fun_upd_def split: if_splits)
  have "map_of (snd (remove_recorded fails ps (fl', ?fs'))) p = map_of ?fs' p" for fl'
    by (rule Cons.IH [OF tree]) (use Cons.prems leaf in auto)
  moreover have "map_of ?fs' p = map_of fs p" using map Cons.prems(4) by auto
  ultimately show ?case by (auto split: sum.splits)
qed simp

text \<open>
  An archive that starts with the directory \<^verbatim>\<open>./\<close>, as \<^verbatim>\<open>dpkg-deb\<close> writes it, is refused before anything is
  extracted.
\<close>

lemma root_member_stops_extraction:
  assumes "te_path e = ''./''"
  shows "extract_tar_stream_to_root_at fails root (TarEntry e # items) fs = (Inl (ResolvesToRoot, []), fs)"
  by (simp add: extract_tar_stream_to_root_at_def track_partial_extraction_def extract_archive_def extract_entry_def assms data_tar_entry_path_def
      strip_prefix_def components_def component_of_def abind_def alift_def)

section \<open>Properties\<close>

text \<open>
  C12: Extraction of a package's data archive that stops anywhere, on a failing call, an unreadable
  archive or a panic, changes only paths below the extraction root. What it carries has every path it
  changed, so that rollback can see it, but for a directory of the archive that it created and whose
  mode it could not read or apply. The links of the archive are assumed not to lie below one another
  or below a link that was there before.
\<close>

theorem extraction_changes_are_recorded:
  assumes "extract_tar_stream_to_root_at fails root items fs0 = (r, fs)" "tree_ok fs0" "is_dir fs0 root"
    "links_are_leaves fs0 (link_paths root items)"
  shows "map_of fs p = map_of fs0 p \<or>
    strict_prefix root p \<and> (p \<in> set (recorded r) \<or> is_dir fs p \<and> mode_fails fails root items p)"
proof -
  obtain extra where "linked fs0 root (set (link_paths root items)) fs (recorded r @ extra)"
    "\<forall>q \<in> set extra. is_dir fs q \<and> mode_fails fails root items q"
    using extraction_outcome [OF assms, of False] by auto
  then show ?thesis unfolding linked_def by fastforce
qed

text \<open>
  C3: Rollback after an extraction that stopped anywhere, when no stat and no removal fails during the
  rollback. Every path is as before the extraction, but for recorded paths that were there before,
  and for a directory of the archive whose mode could not be read or applied, with the directories
  above it. So nothing that the extraction created is left when no mode failed. The links of the
  archive are assumed not to lie below one another or below a link that was there before, and the
  directories of a link to be there or to come before it in the archive.
\<close>

theorem rollback_removes_everything_created:
  assumes "extract_tar_stream_to_root_at fails root items fs0 = (r, fs)" "tree_ok fs0" "is_dir fs0 root"
    "links_are_leaves fs0 (link_paths root items)" "parents_first fs0 root [] items"
    "\<And>p. \<not> fails' (OpStat p)" "\<And>p. \<not> fails' (OpRemove p)"
  shows "map_of (snd (rollback fails' (recorded r) [] fs)) p = map_of fs0 p \<or>
    p \<in> set (recorded r) \<and> map_of fs0 p \<noteq> None \<or>
    strict_prefix root p \<and> (\<exists>d. prefix p d \<and> is_dir fs d \<and> mode_fails fails root items d)"
proof -
  obtain X where un: "unwound X fs0 fs [] (recorded r) (snd (rollback fails' (recorded r) [] fs))"
    and X: "\<forall>x \<in> X. is_dir fs x \<and> mode_fails fails root items x" "\<forall>p \<in> set (recorded r) \<union> X. strict_prefix root p"
    and changed: "map_of fs p \<noteq> map_of fs0 p \<Longrightarrow> p \<in> set (recorded r) \<union> X"
    using rollback_unwound [OF assms] by blast
  show ?thesis
  proof (cases "p \<in> set (recorded r)")
    case True
    then have "map_of fs0 p = None \<Longrightarrow> \<forall>x \<in> X. \<not> prefix p x \<Longrightarrow> map_of (snd (rollback fails' (recorded r) [] fs)) p = None"
      using un unfolding unwound_def by auto
    then show ?thesis using True X by (cases "map_of fs0 p = None"; cases "\<forall>x \<in> X. \<not> prefix p x") auto
  next
    case False
    then have "map_of (snd (rollback fails' (recorded r) [] fs)) p = map_of fs p" using un by (simp add: unwound_def)
    then show ?thesis using changed False X by (cases "map_of fs p = map_of fs0 p") auto
  qed
qed


text \<open>A package that cannot be read to its end, and an empty root for it.\<close>

definition entry_at :: "string \<Rightarrow> tar_type \<Rightarrow> string option \<Rightarrow> string \<Rightarrow> tar_item" where
  "entry_at name type link content =
     TarEntry \<lparr>te_path = name, te_type = type, te_mode = Inr 493, te_link = Inr link, te_content = Inr content\<rparr>"

definition broken_archive :: "tar_item list" where
  "broken_archive =
     [entry_at ''./usr/'' TarDir None [], entry_at ''./usr/bin/a'' TarFile None ''A'',
      entry_at ''./usr/b'' TarSymlink (Some ''bin/a'') [], TarPanic]"

definition empty_root :: file_system where
  "empty_root = [([], Dir), ([''r''], Dir)]"

definition partial :: "(extract_error \<times> path list, path list) result \<times> file_system" where
  "partial = extract_tar_stream_to_root_at (\<lambda>_. False) [''r''] broken_archive empty_root"

lemma partial_facts:
  "fst partial = Inl (ExtractionPanicked, [[''r'', ''usr''], [''r'', ''usr'', ''bin''], [''r'', ''usr'', ''bin'', ''a''], [''r'', ''usr'', ''b'']])"
  "map_of (snd partial) [''r'', ''usr'', ''bin'', ''a''] = Some (File ''A'')"
  "tree_ok empty_root" "is_dir empty_root [''r'']" "map_of empty_root [''r'', ''usr''] = None"
  "links_are_leaves empty_root (link_paths [''r''] broken_archive)" "parents_first empty_root [''r''] [] broken_archive"
  by code_simp+

lemma sample_modes: "\<not> mode_fails (\<lambda>_. False) [''r''] broken_archive p"
  by (simp add: mode_fails_def entry_mode_fails_def broken_archive_def entry_at_def)

theorem extraction_changes_are_recorded_witness:
  "map_of (snd partial) [''r'', ''usr'', ''bin'', ''a''] \<noteq> map_of empty_root [''r'', ''usr'', ''bin'', ''a''] \<and>
   [''r'', ''usr'', ''bin'', ''a''] \<in> set (recorded (fst partial))"
proof -
  have changed: "map_of (snd partial) [''r'', ''usr'', ''bin'', ''a''] \<noteq> map_of empty_root [''r'', ''usr'', ''bin'', ''a'']"
    unfolding partial_facts(2) by (simp add: empty_root_def)
  show ?thesis
    using extraction_changes_are_recorded [of "\<lambda>_. False" "[''r'']" broken_archive empty_root "fst partial" "snd partial"
        "[''r'', ''usr'', ''bin'', ''a'']"] changed partial_facts(3,4,6) sample_modes
    by (simp add: partial_def)
qed

theorem rollback_removes_everything_created_witness:
  "map_of (snd partial) [''r'', ''usr''] = Some Dir \<and>
   map_of (snd (rollback (\<lambda>_. False) (recorded (fst partial)) [] (snd partial))) [''r'', ''usr''] = None"
proof -
  have "map_of (snd partial) [''r'', ''usr''] = Some Dir" by code_simp
  then show ?thesis
    using rollback_removes_everything_created [of "\<lambda>_. False" "[''r'']" broken_archive empty_root "fst partial" "snd partial"
        "\<lambda>_. False" "[''r'', ''usr'']"] partial_facts(3-7) sample_modes
    by (simp add: partial_def)
qed

text \<open>
  C28: An accepted archive path is the root followed by at least one plain name: no parent, current
  or root component and no separator survives, and an absolute link target that is accepted is such
  a path too.
\<close>

theorem archive_paths_are_confined:
  assumes "data_tar_entry_path root text = Inr p"
  shows "(\<exists>names. p = root @ names \<and> names \<noteq> [] \<and> list_all plain_name names) \<and>
    (\<forall>target cs. validate_root_relative_link_target root p target = Inr cs \<longrightarrow> RootDir \<in> set cs \<longrightarrow>
       (\<exists>names. cs = RootDir # map Normal (root @ names) \<and> names \<noteq> [] \<and> list_all plain_name names))"
proof -
  obtain names where p: "p = root @ names" "names \<noteq> []" "list_all plain_name names"
    using data_tar_entry_path_Inr [OF assms] by blast
  moreover have "\<exists>names. cs = RootDir # map Normal (root @ names) \<and> names \<noteq> [] \<and> list_all plain_name names"
    if "validate_root_relative_link_target root p target = Inr cs" "RootDir \<in> set cs" for target cs
    using validate_link_Inr [of root names target cs] that p(1) by blast
  ultimately show ?thesis by blast
qed

theorem archive_paths_are_confined_witness:
  "data_tar_entry_path [''r''] ''./usr//bin/./a'' = Inr [''r'', ''usr'', ''bin'', ''a''] \<and>
   (\<exists>names. [''r'', ''usr'', ''bin'', ''a''] = [''r''] @ names \<and> names \<noteq> [] \<and> list_all plain_name names)"
proof -
  have "data_tar_entry_path [''r''] ''./usr//bin/./a'' = Inr [''r'', ''usr'', ''bin'', ''a'']" by code_simp
  then show ?thesis using archive_paths_are_confined by blast
qed


section \<open>The limits of the promise\<close>

abbreviation extraction_start :: "file_system \<Rightarrow> extraction" where
  "extraction_start fs0 \<equiv> \<lparr>xs_fs = fs0, xs_files = [], xs_seen = [], xs_links = [], xs_regular = []\<rparr>"

lemma extract_entries_append:
  "extract_entries fails root (items @ rest) s = abind (extract_entries fails root items) (\<lambda>_. extract_entries fails root rest) s"
proof (induction items arbitrary: s)
  case (Cons item items)
  then show ?case by (cases item) (auto simp: abind_def araise_def split: prod.split sum.split)
qed (simp add: abind_def aret_def)

lemma scan_parents_there:
  assumes "\<And>a. a \<in> set as \<Longrightarrow> lstat fails (xs_fs s) a = Inr Dir"
  shows "\<exists>seen. scan_parents fails root as missing s = (Inr missing, s\<lparr>xs_seen := seen\<rparr>)"
  using assms
proof (induction "as" arbitrary: s)
  case Nil
  then show ?case by (intro exI [of _ "xs_seen s"]) (simp add: aret_def)
next
  case (Cons a "as")
  show ?case
  proof (cases "a = root \<or> a \<in> set (xs_seen s)")
    case True
    then show ?thesis by (intro exI [of _ "xs_seen s"]) simp
  next
    case False
    then show ?thesis using Cons.IH [of "s\<lparr>xs_seen := a # xs_seen s\<rparr>"] Cons.prems by auto
  qed
qed

lemma lstat_dir: "tree_ok fs \<Longrightarrow> is_dir fs p \<Longrightarrow> \<not> fails (OpStat p) \<Longrightarrow> lstat fails fs p = Inr Dir"
proof -
  assume fs: "tree_ok fs" "is_dir fs p" "\<not> fails (OpStat p)"
  then have "locate fs p = Inr p" using locate_real [of fs p] tree_ok_parent [of fs p] by (cases "p = []") (simp_all add: locate_def)
  then show ?thesis using fs by (simp add: lstat_def)
qed

lemma ensure_parents_there:
  assumes "tree_ok (xs_fs s)" "is_dir (xs_fs s) (butlast p)" "\<And>q. \<not> fails (OpStat q)"
  shows "\<exists>seen. ensure_parent_dirs_recorded fails root p s = (Inr (), s\<lparr>xs_seen := seen\<rparr>)"
proof -
  have "lstat fails (xs_fs s) a = Inr Dir" if mem: "a \<in> set (ancestors p)" for a
  proof -
    obtain i where i: "a = take i p" "i < length p" using mem by (auto simp: ancestors_def)
    then have "is_dir (xs_fs s) a" using is_dir_take [OF assms(1), of "length p - 1" p i] assms(2) by (simp add: butlast_conv_take)
    then show ?thesis by (intro lstat_dir assms)
  qed
  then obtain seen where "scan_parents fails root (ancestors p) [] s = (Inr [], s\<lparr>xs_seen := seen\<rparr>)"
    using scan_parents_there [of "ancestors p" fails s root "[]"] by blast
  then show ?thesis
    by (auto simp: ensure_parent_dirs_recorded_def abind_def aret_def)
qed

lemma extract_dir_mode_fails:
  assumes tree: "tree_ok (xs_fs s)" "is_dir (xs_fs s) (butlast p)" "map_of (xs_fs s) p = None" "p \<noteq> []"
    and calls: "\<And>q. \<not> fails (OpStat q)" "\<not> fails (OpMkdir p)" and mode: "\<not> is_ok mode \<or> fails (OpChmod p)"
  shows "\<exists>err seen. extract_dir fails root p mode s = (Inl err, s\<lparr>xs_seen := seen, xs_fs := AList.update p Dir (xs_fs s)\<rparr>)"
proof -
  obtain seen where "ensure_parent_dirs_recorded fails root p s = (Inr (), s\<lparr>xs_seen := seen\<rparr>)"
    using ensure_parents_there [where fails = fails, OF tree(1,2) calls(1)] by blast
  moreover have "create_dir fails (xs_fs s) p = Inr (AList.update p Dir (xs_fs s))"
    using locate_real [OF tree(1,4,2)] tree(3) calls(2) by (simp add: create_dir_def make_node_def)
  ultimately show ?thesis using mode
    by (cases mode; cases "fails (OpChmod p)") (auto simp: extract_dir_def abind_def alift_def ensure_def)
qed

text \<open>
  C35: A directory of the archive whose mode cannot be read or applied stays after rollback. Whatever
  was extracted before it, when its parent is there and its name is free, the directory is created
  and extraction stops with an error that carries the files before it but not the directory; rollback
  of what the error carries leaves the directory, whatever calls fail in it. Links of the archive
  that come before are assumed not to lie below one another or below older links, nor at its path.
\<close>

theorem directory_left_when_mode_fails:
  assumes "tree_ok fs0" "is_dir fs0 root" "extract_entries fails root items (extraction_start fs0) = (Inr (), s)"
    and "links_are_leaves fs0 (link_paths root items)" "p \<notin> set (link_paths root items)"
    and "entry_mode_fails fails root e p" "is_dir (xs_fs s) (butlast p)" "map_of (xs_fs s) p = None"
    and "\<And>q. \<not> fails (OpStat q)" "\<not> fails (OpMkdir p)"
  shows "\<exists>err fs. extract_tar_stream_to_root_at fails root (items @ TarEntry e # rest) fs0 = (Inl (err, xs_files s), fs) \<and>
    is_dir fs p \<and> p \<notin> set (xs_files s) \<and> is_dir (snd (rollback fails' (xs_files s) [] fs)) p"
proof -
  let ?L = "set (link_paths root items)" and ?fs = "AList.update p Dir (xs_fs s)"
  have start: "good False fs0 root (extraction_start fs0)" "seen_ok (extraction_start fs0)" "placed ?L (extraction_start fs0)"
    using assms(1,2) by (auto simp: good_def tracked_def seen_ok_def placed_def)
  have inv: "good False fs0 root s" "placed ?L s" using extract_entries_any [OF assms(3) start subset_refl] by auto
  have lnk: "linked fs0 root ?L (xs_fs s) (xs_files s)" by (rule good_linked [OF inv])
  then have tree: "tree_ok (xs_fs s)" and files: "\<And>q. q \<in> set (xs_files s) \<Longrightarrow> strict_prefix root q \<and> (q \<in> ?L \<or> map_of (xs_fs s) q \<noteq> None)"
    unfolding linked_def by blast+
  have p: "te_type e = TarDir" "data_tar_entry_path root (te_path e) = Inr p" "\<not> is_ok (te_mode e) \<or> fails (OpChmod p)"
    using assms(6) by (simp_all add: entry_mode_fails_def)
  have ne: "p \<noteq> []" using entry_below [OF p(2)] by auto
  obtain err seen where dir: "extract_dir fails root p (te_mode e) s = (Inl err, s\<lparr>xs_seen := seen, xs_fs := ?fs\<rparr>)"
    using extract_dir_mode_fails [where fails = fails, OF tree assms(7,8) ne assms(9,10) p(3)] by blast
  then have "extract_entry fails root e s = (Inl err, s\<lparr>xs_seen := seen, xs_fs := ?fs\<rparr>)"
    using p by (simp add: extract_entry_def abind_def alift_def)
  then have "extract_entries fails root (items @ TarEntry e # rest) (extraction_start fs0) = (Inl err, s\<lparr>xs_seen := seen, xs_fs := ?fs\<rparr>)"
    using assms(3) unfolding extract_entries_append by (simp add: abind_def)
  then have run: "extract_tar_stream_to_root_at fails root (items @ TarEntry e # rest) fs0 = (Inl (err, xs_files s), ?fs)"
    by (simp add: extract_tar_stream_to_root_at_def track_partial_extraction_def extract_archive_def abind_def split: extract_error.split)
  have new: "p \<notin> set (xs_files s)" using files [of p] assms(5,8) by auto
  have "map_of ?fs d \<noteq> Some (Symlink t)" if "q \<in> set (xs_files s)" "strict_prefix d q" for q d t
    using linked_leaf [OF lnk assms(4) _ that(2)] files [OF that(1)] by (auto simp: update_conv')
  moreover have "tree_ok ?fs" using tree_ok_update [OF tree ne assms(7)] by simp
  moreover have "q \<noteq> []" if "q \<in> set (xs_files s)" for q using files [OF that] by auto
  ultimately have "map_of (snd (rollback fails' (xs_files s) [] ?fs)) p = map_of ?fs p"
    unfolding snd_rollback using new by (intro remove_recorded_keeps) auto
  then show ?thesis using run new by (intro exI [of _ err] exI [of _ ?fs]) (simp add: update_conv')
qed

text \<open>A file in a directory, and a directory whose mode field cannot be read.\<close>

definition bad_mode_entry :: tar_entry where
  "bad_mode_entry = \<lparr>te_path = ''./usr/lib'', te_type = TarDir, te_mode = Inl TarFailed, te_link = Inr None, te_content = Inr []\<rparr>"

definition before_bad_mode :: "(extract_error, unit) result \<times> extraction" where
  "before_bad_mode = extract_entries (\<lambda>_. False) [''r''] [entry_at ''./usr/a'' TarFile None ''A''] (extraction_start empty_root)"

lemma bad_mode_facts:
  "fst before_bad_mode = Inr ()" "xs_files (snd before_bad_mode) = [[''r'', ''usr''], [''r'', ''usr'', ''a'']]"
  "links_are_leaves empty_root (link_paths [''r''] [entry_at ''./usr/a'' TarFile None ''A''])"
  "link_paths [''r''] [entry_at ''./usr/a'' TarFile None ''A''] = []"
  "entry_mode_fails (\<lambda>_. False) [''r''] bad_mode_entry [''r'', ''usr'', ''lib'']"
  "is_dir (xs_fs (snd before_bad_mode)) [''r'', ''usr'']" "map_of (xs_fs (snd before_bad_mode)) [''r'', ''usr'', ''lib''] = None"
  by code_simp+

theorem directory_left_when_mode_fails_witness:
  "\<exists>err fs. extract_tar_stream_to_root_at (\<lambda>_. False) [''r''] [entry_at ''./usr/a'' TarFile None ''A'', TarEntry bad_mode_entry] empty_root =
      (Inl (err, [[''r'', ''usr''], [''r'', ''usr'', ''a'']]), fs) \<and>
    is_dir (snd (rollback (\<lambda>_. False) [[''r'', ''usr''], [''r'', ''usr'', ''a'']] [] fs)) [''r'', ''usr'', ''lib'']"
proof -
  have "extract_entries (\<lambda>_. False) [''r''] [entry_at ''./usr/a'' TarFile None ''A''] (extraction_start empty_root) =
      (Inr (), snd before_bad_mode)"
    unfolding before_bad_mode_def [symmetric] using bad_mode_facts(1) by (metis prod.collapse)
  from directory_left_when_mode_fails [where fails = "\<lambda>_. False", OF partial_facts(3,4) this bad_mode_facts(3) _ bad_mode_facts(5) _ bad_mode_facts(7),
      where rest = "[]" and fails' = "\<lambda>_. False"]
  show ?thesis using bad_mode_facts(2,4,6) by auto
qed

lemma walk_dirs:
  "(\<And>k. k \<le> length ns \<Longrightarrow> is_dir fs (cur @ take k ns)) \<Longrightarrow> walk fs l cur (map Normal ns @ cs) = walk fs l (cur @ ns) cs"
proof (induction ns arbitrary: cur)
  case (Cons n ns)
  have "is_dir fs ((cur @ [n]) @ take k ns)" if "k \<le> length ns" for k
    using Cons.prems [of "Suc k"] that by simp
  moreover have "is_dir fs (cur @ [n])" using Cons.prems [of 1] by simp
  ultimately show ?case using Cons.IH [of "cur @ [n]"] by simp
qed simp

lemma is_dir_takes: "tree_ok fs \<Longrightarrow> is_dir fs (cur @ ns) \<Longrightarrow> k \<le> length ns \<Longrightarrow> is_dir fs (cur @ take k ns)"
  using is_dir_take [of fs "length (cur @ ns)" "cur @ ns" "length cur + k"] by simp

lemma check_depth_up: "check_depth (replicate k ParentDir @ map Normal ns) (k + d) = Inr ()"
proof (induction k)
  case 0
  show ?case by (induction ns arbitrary: d) auto
qed (simp add: ensure_def)

lemma lexical_up: "lexical cur (replicate k ParentDir @ map Normal ns) = take (length cur - k) cur @ ns"
proof (induction k arbitrary: cur)
  case 0
  have "lexical cur (map Normal ns) = cur @ ns" by (induction ns arbitrary: cur) auto
  then show ?case by simp
next
  case (Suc k)
  then show ?case by (simp add: butlast_conv_take take_take min_def)
qed

text \<open>The check lets a target climb as often as the link's own path has names, one too many.\<close>

lemma validate_link_up:
  assumes "components t = replicate (length names) ParentDir @ map Normal ns" "names \<noteq> []"
  shows "validate_root_relative_link_target root (root @ names) t = Inr (components t) \<and>
    lexical (root @ butlast names) (components t) = butlast root @ ns"
proof -
  obtain k where k: "length names = Suc k" using assms(2) by (cases names) auto
  then have "components t = ParentDir # replicate k ParentDir @ map Normal ns" using assms(1) by simp
  then have "validate_root_relative_link_target root (root @ names) t =
      rbind (check_depth (components t) (length names)) (\<lambda>_. Inr (components t))"
    by (simp add: validate_root_relative_link_target_def)
  also have "\<dots> = Inr (components t)" using check_depth_up [of "length names" ns 0] assms(1) by simp
  finally have "validate_root_relative_link_target root (root @ names) t = Inr (components t)" .
  moreover have "lexical (root @ butlast names) (components t) = butlast root @ ns"
    unfolding assms(1) lexical_up using k by (simp add: butlast_conv_take)
  ultimately show ?thesis by blast
qed

lemma defer_symlink:
  assumes "te_type e = TarSymlink" "data_tar_entry_path root (te_path e) = Inr p" "te_link e = Inr (Some t)"
    "validate_root_relative_link_target root p t = Inr cs"
  shows "extract_entry fails root e s = (Inr (), s\<lparr>xs_files := xs_files s @ [p], xs_links := xs_links s @ [PendingSymbolic p cs]\<rparr>)"
  using assms by (simp add: extract_entry_def link_name_def defer_link_def record_file_def amodify_def abind_def alift_def)

lemma locate_through_link:
  assumes tree: "tree_ok fs" "is_dir fs root" "is_dir fs (butlast root @ ns)"
    and link: "map_of fs (root @ [a]) = Some (Symlink (ParentDir # map Normal ns))"
  shows "locate fs (root @ [a, b]) = Inr (butlast root @ ns @ [b])"
proof -
  have "is_dir fs ([] @ take k root)" if "k \<le> length root" for k
    using is_dir_takes [of fs "[]" root k] tree that by simp
  then have "walk fs 40 [] (map Normal root @ [Normal a]) = walk fs 40 root [Normal a]" using walk_dirs [of root fs "[]" 40] by simp
  also have "\<dots> = walk fs 39 (butlast root) (map Normal ns)" using link by (simp add: eval_nat_numeral)
  also have "\<dots> = Inr (butlast root @ ns)" by (rule walk_plain) (use is_dir_takes [OF tree(1,3)] in blast)
  moreover have "butlast (root @ [a, b]) = root @ [a]" by (simp add: butlast_append)
  ultimately show ?thesis by (simp add: locate_def)
qed

text \<open>
  C33: A relative link target is checked as if it were read from the link itself, not from the
  directory the link is in: for a link any number of names below the root, the target that climbs that
  often and goes on anywhere is accepted, and read from the directory of the link it leads above the
  root. So when a link at the top of the root points at a directory next to the root, a further link
  of the archive below it is recorded below the root and created in that directory, outside the root,
  when no call fails, the two names are free and the target does not lead back into the root.
\<close>

theorem relative_link_escapes_root:
  assumes "tree_ok fs0" "root \<noteq> []" "is_dir fs0 root" "map_of fs0 (root @ [a]) = None" "\<And>op. \<not> fails op"
    and "te_type e = TarSymlink" "data_tar_entry_path root (te_path e) = Inr (root @ [a])"
    and "te_link e = Inr (Some t)" "components t = ParentDir # map Normal ns"
    and "te_type e' = TarSymlink" "data_tar_entry_path root (te_path e') = Inr (root @ [a, b])"
    and "te_link e' = Inr (Some t')" "validate_root_relative_link_target root (root @ [a, b]) t' = Inr cs" "cs \<noteq> []"
    and "is_dir fs0 (butlast root @ ns)" "map_of fs0 (butlast root @ ns @ [b]) = None" "hd (ns @ [b]) \<noteq> last root"
  shows "(\<forall>names ms u. names \<noteq> [] \<longrightarrow> components u = replicate (length names) ParentDir @ map Normal ms \<longrightarrow>
      validate_root_relative_link_target root (root @ names) u = Inr (components u) \<and>
      lexical (root @ butlast names) (components u) = butlast root @ ms) \<and>
    (\<exists>fs. extract_tar_stream_to_root_at fails root [TarEntry e, TarEntry e'] fs0 = (Inr [root @ [a], root @ [a, b]], fs) \<and>
      map_of fs (butlast root @ ns @ [b]) = Some (Symlink cs) \<and> \<not> prefix root (butlast root @ ns @ [b]))"
proof -
  let ?up = "ParentDir # map Normal ns" and ?out = "butlast root @ ns @ [b]"
  let ?fs1 = "AList.update (root @ [a]) (Symlink ?up) fs0" and ?fs2 = "AList.update ?out (Symlink cs) (AList.update (root @ [a]) (Symlink ?up) fs0)"
  have "validate_root_relative_link_target root (root @ [a]) t = Inr ?up"
    using validate_link_up [of t "[a]" ns root] assms(9) by simp
  then have entries: "extract_entries fails root [TarEntry e, TarEntry e'] (extraction_start fs0) =
      (Inr (), \<lparr>xs_fs = fs0, xs_files = [root @ [a], root @ [a, b]], xs_seen = [],
        xs_links = [PendingSymbolic (root @ [a]) ?up, PendingSymbolic (root @ [a, b]) cs], xs_regular = []\<rparr>)"
    using defer_symlink [OF assms(6-8)] defer_symlink [OF assms(10-13)] by (simp add: abind_def aret_def)
  obtain r0 x where root: "root = r0 @ [x]" using assms(2) by (metis append_butlast_last_id)
  then have outside: "\<not> prefix root ?out" using assms(17) by (cases "ns @ [b]") auto
  then have neq: "?out \<noteq> root @ [a]" by (metis prefixI)
  have first: "make_node fails (OpSymlink (root @ [a])) fs0 (root @ [a]) (Symlink ?up) = Inr ?fs1"
    using locate_real [OF assms(1), of "root @ [a]"] assms(3,4,5) by (simp add: make_node_def)
  have "tree_ok ?fs1" by (rule tree_ok_update) (use assms(1,3,4) in auto)
  moreover have "is_dir ?fs1 root" "is_dir ?fs1 (butlast root @ ns)" "map_of ?fs1 (root @ [a]) = Some (Symlink ?up)"
    using assms(3,4,15) by (auto simp: update_conv')
  ultimately have "locate ?fs1 (root @ [a, b]) = Inr ?out" using locate_through_link by blast
  then have second: "make_node fails (OpSymlink (root @ [a, b])) ?fs1 (root @ [a, b]) (Symlink cs) = Inr ?fs2"
    using assms(5,16) neq by (simp add: make_node_def update_conv')
  have "extract_tar_stream_to_root_at fails root [TarEntry e, TarEntry e'] fs0 = (Inr [root @ [a], root @ [a, b]], ?fs2)"
    using entries first second assms(14)
    by (simp add: extract_tar_stream_to_root_at_def extract_archive_def track_partial_extraction_def abind_def aread_def aret_def
        create_root_link_def del: extract_entries.simps)
  then show ?thesis using outside validate_link_up by (intro conjI exI [of _ ?fs2]) (auto simp: update_conv')
qed

text \<open>A link above the root, and a link below that link.\<close>

definition escape_entry :: "string \<Rightarrow> string \<Rightarrow> tar_entry" where
  "escape_entry name target =
     \<lparr>te_path = name, te_type = TarSymlink, te_mode = Inr 511, te_link = Inr (Some target), te_content = Inr []\<rparr>"

definition etc_root :: file_system where
  "etc_root = ([''etc''], Dir) # empty_root"

lemma escape_facts:
  "tree_ok etc_root" "is_dir etc_root [''r'']" "is_dir etc_root [''etc'']"
  "map_of etc_root [''r'', ''a''] = None" "map_of etc_root [''etc'', ''evil''] = None"
  "data_tar_entry_path [''r''] ''./a'' = Inr [''r'', ''a'']" "data_tar_entry_path [''r''] ''./a/evil'' = Inr [''r'', ''a'', ''evil'']"
  "components ''../etc'' = [ParentDir, Normal ''etc'']"
  "validate_root_relative_link_target [''r''] [''r'', ''a'', ''evil''] ''passwd'' = Inr [Normal ''passwd'']"
  by code_simp+

theorem relative_link_escapes_root_witness:
  "\<exists>fs. extract_tar_stream_to_root_at (\<lambda>_. False) [''r'']
      [TarEntry (escape_entry ''./a'' ''../etc''), TarEntry (escape_entry ''./a/evil'' ''passwd'')] etc_root =
      (Inr [[''r'', ''a''], [''r'', ''a'', ''evil'']], fs) \<and> map_of fs [''etc'', ''evil''] = Some (Symlink [Normal ''passwd''])"
  using relative_link_escapes_root [of etc_root "[''r'']" "''a''" "\<lambda>_. False" "escape_entry ''./a'' ''../etc''" "''../etc''" "[''etc'']"
      "escape_entry ''./a/evil'' ''passwd''" "''evil''" "''passwd''" "[Normal ''passwd'']"] escape_facts
  by (simp add: escape_entry_def)

end
