(* ===== verification/Deb_Removal.thy ===== *)
theory Deb_Removal
  imports Omg_Prelude Rust_Str "HOL-Library.AList"
begin

text \<open>
  Planning the removal of Debian packages, \<^verbatim>\<open>plan_debian_removal\<close> of
  \<^verbatim>\<open>package_managers/debian_db/transaction.rs\<close>: the installed packages are read from the text of the
  dpkg status file, removals that would break a remaining package are refused, and the others are
  ordered so that dependents go first.

  A \<^verbatim>\<open>HashMap\<close> is an association list and a \<^verbatim>\<open>HashSet\<close> a list without repetition; the results do not
  depend on the order the source leaves open, except for which of several refused names is reported.
  The counter of a package that would go below zero is the error \<open>RemovalUnderflow\<close>, which is proved
  not to occur. The ordering loop needs no bound: each round takes a package off the ready ones, and
  each one that becomes ready has had its counter decreased.
\<close>

section \<open>Installed packages\<close>

record removal_package =
  rp_essential :: bool
  rp_protected :: bool
  rp_groups :: "string list list"

definition removal_package_default :: removal_package where
  "removal_package_default = \<lparr>rp_essential = False, rp_protected = False, rp_groups = []\<rparr>"

definition group_alternatives :: "string \<Rightarrow> string list" where
  "group_alternatives grp =
     filter (\<lambda>name. name \<noteq> []) (List.map_filter (\<lambda>alternative.
       case split_whitespace alternative of
         [] \<Rightarrow> None
       | name # _ \<Rightarrow> Some (hd (split_on (\<lambda>c. c = CHR '':'') name)))
       (split_on (\<lambda>c. c = CHR ''|'') grp))"

definition append_removal_dependency_groups :: "string \<Rightarrow> string list list \<Rightarrow> string list list" where
  "append_removal_dependency_groups value groups =
     groups @ filter (\<lambda>alternatives. alternatives \<noteq> []) (map group_alternatives (split_on (\<lambda>c. c = CHR '','') value))"

text \<open>\<^verbatim>\<open>str::split\<close> at an empty line.\<close>

fun split_paragraphs :: "string \<Rightarrow> string list" where
  "split_paragraphs [] = [[]]"
| "split_paragraphs [c] = [[c]]"
| "split_paragraphs (c # d # s) =
     (if c = CHR 0x0A \<and> d = CHR 0x0A then [] # split_paragraphs s
      else (case split_paragraphs (d # s) of [] \<Rightarrow> [[c]] | p # ps \<Rightarrow> (c # p) # ps))"

type_synonym removal_scan = "string option \<times> removal_package \<times> bool"

text \<open>One line of a paragraph: the name, the flags and dependencies, and whether dependencies go on.\<close>

definition removal_line :: "string \<Rightarrow> removal_scan \<Rightarrow> removal_scan" where
  "removal_line line st = (case st of (name, info, reading) \<Rightarrow>
     if starts_with_char CHR '' '' line \<or> starts_with_char (CHR 0x09) line then
       (if reading then (name, info\<lparr>rp_groups := append_removal_dependency_groups (trim line) (rp_groups info)\<rparr>, True)
        else (name, info, False))
     else case strip_prefix ''Package:'' line of
       Some v \<Rightarrow> (Some (trim v), info, False)
     | None \<Rightarrow> (case strip_prefix ''Essential:'' line of
       Some v \<Rightarrow> (name, info\<lparr>rp_essential := eq_ignore_ascii_case (trim v) ''yes''\<rparr>, False)
     | None \<Rightarrow> (case strip_prefix ''Protected:'' line of
       Some v \<Rightarrow> (name, info\<lparr>rp_protected := eq_ignore_ascii_case (trim v) ''yes''\<rparr>, False)
     | None \<Rightarrow> (case (case strip_prefix ''Depends:'' line of Some v \<Rightarrow> Some v | None \<Rightarrow> strip_prefix ''Pre-Depends:'' line) of
       Some v \<Rightarrow> (name, info\<lparr>rp_groups := append_removal_dependency_groups (trim v) (rp_groups info)\<rparr>, True)
     | None \<Rightarrow> (name, info, False)))))"

type_synonym installed_packages = "(string \<times> removal_package) list"

definition removal_paragraph :: "string \<Rightarrow> installed_packages \<Rightarrow> installed_packages" where
  "removal_paragraph paragraph installed =
     (if ''Status: install ok installed'' \<notin> set (str_lines paragraph) then installed
      else case fold removal_line (str_lines paragraph) (None, removal_package_default, False) of
             (Some name, info, _) \<Rightarrow> AList.update name info installed
           | (None, _) \<Rightarrow> installed)"

definition removal_installed :: "string \<Rightarrow> installed_packages" where
  "removal_installed status = fold removal_paragraph (split_paragraphs status) []"

section \<open>The plan\<close>

datatype removal_error =
    RemovalNotInstalled string
  | RemovalProtected string
  | RemovalBlocked "string list"
  | RemovalUnderflow

definition removal_allowed :: "installed_packages \<Rightarrow> string \<Rightarrow> (removal_error, unit) result" where
  "removal_allowed installed name =
     (case map_of installed name of
        None \<Rightarrow> Inl (RemovalNotInstalled name)
      | Some info \<Rightarrow> ensure (\<not> rp_essential info \<and> \<not> rp_protected info) (RemovalProtected name))"

definition group_broken :: "installed_packages \<Rightarrow> string list \<Rightarrow> string list \<Rightarrow> bool" where
  "group_broken installed requested alternatives =
     (list_ex (\<lambda>name. name \<in> set requested) alternatives \<and>
      \<not> list_ex (\<lambda>name. name \<in> set (map fst installed) \<and> name \<notin> set requested) alternatives)"

definition removal_blockers :: "installed_packages \<Rightarrow> string list \<Rightarrow> string list" where
  "removal_blockers installed requested =
     btree_set (map fst (filter (\<lambda>(dependent, info).
       dependent \<notin> set requested \<and> list_ex (group_broken installed requested) (rp_groups info)) installed))"

type_synonym removal_edges = "(string \<times> string list) list \<times> (string \<times> nat) list"

definition dependencies_in :: "(string \<times> string list) list \<Rightarrow> string \<Rightarrow> string list" where
  "dependencies_in dependencies name = (case map_of dependencies name of None \<Rightarrow> [] | Some ds \<Rightarrow> ds)"

definition add_removal_edge :: "string \<Rightarrow> string \<Rightarrow> removal_edges \<Rightarrow> removal_edges" where
  "add_removal_edge dependent dependency st = (case st of (dependencies, in_degree) \<Rightarrow>
     let ds = dependencies_in dependencies dependent
     in (AList.update dependent (btree_insert dependency ds) dependencies,
         if dependency \<in> set ds then in_degree
         else AList.update dependency ((case map_of in_degree dependency of None \<Rightarrow> 0 | Some n \<Rightarrow> n) + 1) in_degree))"

definition add_removal_edges :: "installed_packages \<Rightarrow> string list \<Rightarrow> string \<Rightarrow> removal_edges \<Rightarrow> removal_edges" where
  "add_removal_edges installed requested dependent st =
     (case map_of installed dependent of
        None \<Rightarrow> st
      | Some info \<Rightarrow>
          fold (add_removal_edge dependent) (filter (\<lambda>name. name \<in> set requested) (concat (rp_groups info))) st)"

definition removal_edges_of :: "installed_packages \<Rightarrow> string list \<Rightarrow> removal_edges" where
  "removal_edges_of installed requested =
     fold (add_removal_edges installed requested) requested ([], map (\<lambda>name. (name, 0)) requested)"

fun release_dependencies ::
  "string list \<Rightarrow> (string \<times> nat) list \<times> string list \<Rightarrow> ((string \<times> nat) list \<times> string list) option" where
  "release_dependencies [] st = Some st"
| "release_dependencies (d # ds) (in_degree, ready) =
     (case map_of in_degree d of
        None \<Rightarrow> release_dependencies ds (in_degree, ready)
      | Some 0 \<Rightarrow> None
      | Some (Suc n) \<Rightarrow>
          release_dependencies ds (AList.update d n in_degree, if n = 0 then btree_insert d ready else ready))"

lemma length_btree_insert: "length (btree_insert x xs) \<le> Suc (length xs)"
  by (simp add: btree_insert_def)

lemma sum_update_smaller: "map_of G d = Some (Suc n) \<Longrightarrow> Suc (sum_list (map snd (AList.update d n G))) = sum_list (map snd G)"
  by (induction G) auto

text \<open>What is left to do for the loop: counters and ready packages.\<close>

lemma release_dependencies_decreases:
  assumes "release_dependencies ds (G, R) = Some (G', R')"
  shows "sum_list (map snd G') + length R' \<le> sum_list (map snd G) + length R"
  using assms
proof (induction ds arbitrary: G R)
  case (Cons d ds)
  show ?case
  proof (cases "map_of G d")
    case None
    then show ?thesis using Cons by simp
  next
    case (Some k)
    then obtain n where n: "map_of G d = Some (Suc n)" using Cons.prems by (cases k) simp_all
    let ?R = "if n = 0 then btree_insert d R else R"
    have "release_dependencies ds (AList.update d n G, ?R) = Some (G', R')" using Cons.prems n by simp
    then have "sum_list (map snd G') + length R' \<le> sum_list (map snd (AList.update d n G)) + length ?R" by (rule Cons.IH)
    moreover have "length ?R \<le> Suc (length R)" using length_btree_insert [of d R] by simp
    ultimately show ?thesis using sum_update_smaller [OF n] by linarith
  qed
qed simp

text \<open>The loop \<^verbatim>\<open>while let Some(name) = ready.pop_first()\<close>.\<close>

function removal_loop ::
  "(string \<times> string list) list \<Rightarrow> (string \<times> nat) list \<Rightarrow> string list \<Rightarrow> string list \<Rightarrow> string list option" where
  "removal_loop dependencies in_degree [] ordered = Some ordered"
| "removal_loop dependencies in_degree (name # ready) ordered =
     (case release_dependencies (dependencies_in dependencies name) (in_degree, ready) of
        None \<Rightarrow> None
      | Some (in_degree', ready') \<Rightarrow> removal_loop dependencies in_degree' ready' (ordered @ [name]))"
  by pat_completeness auto

termination removal_loop
proof (relation "measure (\<lambda>(_, G, R, _). sum_list (map snd G) + length R)", simp)
  fix D :: "(string \<times> string list) list" and G n R ordered p G' R'
  assume "release_dependencies (dependencies_in D n) (G, R) = Some p" "(G', R') = p"
  then have "sum_list (map snd G') + length R' \<le> sum_list (map snd G) + length R"
    using release_dependencies_decreases [of "dependencies_in D n" G R G' R'] by simp
  then show "((D, G', R', ordered @ [n]), (D, G, n # R, ordered)) \<in> measure (\<lambda>(_, G, R, _). sum_list (map snd G) + length R)"
    by simp
qed

definition removal_order :: "installed_packages \<Rightarrow> string list \<Rightarrow> (removal_error, string list) result" where
  "removal_order installed requested =
     (let (dependencies, in_degree) = removal_edges_of installed requested;
          ready = btree_set (map fst (filter (\<lambda>(name, degree). degree = 0) in_degree))
      in case removal_loop dependencies in_degree ready [] of
           None \<Rightarrow> Inl RemovalUnderflow
         | Some ordered \<Rightarrow>
             if length ordered \<noteq> length requested
             then Inr (ordered @ sort (filter (\<lambda>name. name \<notin> set ordered) requested))
             else Inr ordered)"

definition plan_debian_removal :: "string \<Rightarrow> string list \<Rightarrow> (removal_error, string list) result" where
  "plan_debian_removal status requested_list =
     (let installed = removal_installed status;
          requested = remdups requested_list
      in rbind (for_result (removal_allowed installed) requested) (\<lambda>_.
         rbind (let blockers = removal_blockers installed requested in ensure (blockers = []) (RemovalBlocked blockers)) (\<lambda>_.
         removal_order installed requested)))"


section \<open>The order\<close>

text \<open>The names a package depends on, whatever the alternative.\<close>

definition depends_on :: "installed_packages \<Rightarrow> string \<Rightarrow> string set" where
  "depends_on installed a = (case map_of installed a of None \<Rightarrow> {} | Some info \<Rightarrow> set (concat (rp_groups info)))"

definition edges_ok :: "string list \<Rightarrow> (string \<times> string) set \<Rightarrow> removal_edges \<Rightarrow> bool" where
  "edges_ok requested E st = (case st of (D, G) \<Rightarrow>
     E \<subseteq> set requested \<times> set requested \<and>
     (\<forall>a. set (dependencies_in D a) = {x. (a, x) \<in> E} \<and> distinct (dependencies_in D a)) \<and>
     (\<forall>x. map_of G x = (if x \<in> set requested then Some (card {a. (a, x) \<in> E}) else None)) \<and> distinct (map fst G))"

lemma dependencies_in_update: "dependencies_in (AList.update a ds D) b = (if b = a then ds else dependencies_in D b)"
  by (simp add: dependencies_in_def update_conv')

lemma add_removal_edge_ok:
  assumes ok: "edges_ok requested E st" and a: "a \<in> set requested" "x \<in> set requested"
  shows "edges_ok requested (insert (a, x) E) (add_removal_edge a x st)"
proof -
  obtain D G where st: "st = (D, G)" by (cases st)
  let ?ds = "dependencies_in D a"
  have E: "E \<subseteq> set requested \<times> set requested" and D: "\<And>b. set (dependencies_in D b) = {y. (b, y) \<in> E}" "\<And>b. distinct (dependencies_in D b)"
    and G: "\<And>y. map_of G y = (if y \<in> set requested then Some (card {b. (b, y) \<in> E}) else None)" "distinct (map fst G)"
    using ok by (simp_all add: edges_ok_def st)
  have fin: "finite {b. (b, x) \<in> E}" by (rule finite_subset [of _ "set requested"]) (use E in auto)
  have D': "set (dependencies_in (AList.update a (btree_insert x ?ds) D) b) = {y. (b, y) \<in> insert (a, x) E}"
    "distinct (dependencies_in (AList.update a (btree_insert x ?ds) D) b)" for b
    using D by (auto simp: dependencies_in_update)
  define G' where "G' = (if x \<in> set ?ds then G else AList.update x (card {b. (b, x) \<in> E} + 1) G)"
  have G': "map_of G' y = (if y \<in> set requested then Some (card {b. (b, y) \<in> insert (a, x) E}) else None)" for y
  proof (cases "y = x")
    case True
    have "{b. (b, x) \<in> insert (a, x) E} = insert a {b. (b, x) \<in> E}" by auto
    then show ?thesis using True fin D(1) [of a] G(1) [of x] a(2) by (simp add: G'_def update_conv' insert_absorb)
  next
    case False
    then have "{b. (b, y) \<in> insert (a, x) E} = {b. (b, y) \<in> E}" by auto
    then show ?thesis using False G(1) [of y] by (simp add: G'_def update_conv')
  qed
  have "distinct (map fst G')" using G(2) by (simp add: G'_def distinct_update)
  moreover have "add_removal_edge a x st = (AList.update a (btree_insert x ?ds) D, G')"
    using G(1) [of x] a(2) by (simp add: add_removal_edge_def st Let_def G'_def)
  ultimately show ?thesis using E a D' G' by (simp add: edges_ok_def)
qed

lemma fold_removal_edge_ok:
  assumes "edges_ok requested E st" "a \<in> set requested" "set xs \<subseteq> set requested"
  shows "edges_ok requested (E \<union> {a} \<times> set xs) (fold (add_removal_edge a) xs st)"
  using assms
proof (induction xs arbitrary: E st)
  case (Cons x xs)
  have eq: "E \<union> {a} \<times> set (x # xs) = insert (a, x) E \<union> {a} \<times> set xs" by auto
  show ?case unfolding eq using Cons.IH [OF add_removal_edge_ok [OF Cons.prems(1,2)]] Cons.prems by simp
qed simp

definition removal_edge_set :: "installed_packages \<Rightarrow> string list \<Rightarrow> (string \<times> string) set" where
  "removal_edge_set installed requested = {(a, x). a \<in> set requested \<and> x \<in> set requested \<and> x \<in> depends_on installed a}"

lemma add_removal_edges_ok:
  assumes "edges_ok requested E st" "a \<in> set requested"
  shows "edges_ok requested (E \<union> {a} \<times> (set requested \<inter> depends_on installed a)) (add_removal_edges installed requested a st)"
proof (cases "map_of installed a")
  case None
  then show ?thesis using assms by (simp add: add_removal_edges_def depends_on_def)
next
  case (Some info)
  let ?xs = "filter (\<lambda>name. name \<in> set requested) (concat (rp_groups info))"
  have xs: "set requested \<inter> depends_on installed a = set ?xs" using Some by (auto simp: depends_on_def)
  show ?thesis
    unfolding xs using fold_removal_edge_ok [OF assms, of ?xs] Some by (auto simp: add_removal_edges_def)
qed

lemma removal_edges_of_ok:
  assumes "distinct requested"
  shows "edges_ok requested (removal_edge_set installed requested) (removal_edges_of installed requested)"
proof -
  let ?add = "add_removal_edges installed requested" and ?dep = "\<lambda>a. set requested \<inter> depends_on installed a"
  have "edges_ok requested (E \<union> (SIGMA a:set as. ?dep a)) (fold ?add as st)"
    if "edges_ok requested E st" "set as \<subseteq> set requested" for "as" E st
    using that
  proof (induction "as" arbitrary: E st)
    case (Cons a "as")
    have eq: "E \<union> (SIGMA a:set (a # as). ?dep a) = (E \<union> {a} \<times> ?dep a) \<union> (SIGMA a:set as. ?dep a)" by auto
    show ?case unfolding eq using Cons.IH [OF add_removal_edges_ok [OF Cons.prems(1)]] Cons.prems(2) by simp
  qed simp
  moreover have "edges_ok requested {} ([], map (\<lambda>name. (name, 0)) requested)"
    using assms by (auto simp: edges_ok_def dependencies_in_def map_of_map_restrict o_def map_of_eq_None_iff restrict_map_def)
  moreover have "removal_edge_set installed requested = {} \<union> (SIGMA a:set requested. ?dep a)"
    by (auto simp: removal_edge_set_def)
  ultimately show ?thesis unfolding removal_edges_of_def by (metis subset_refl)
qed

lemma release_dependencies_run:
  assumes "distinct ds" "\<And>d. d \<in> set ds \<Longrightarrow> map_of G d = Some (Suc (c d))"
  shows "\<exists>G' R'. release_dependencies ds (G, R) = Some (G', R') \<and>
    map_of G' = (\<lambda>x. if x \<in> set ds then Some (c x) else map_of G x) \<and>
    set R' = set R \<union> {d \<in> set ds. c d = 0} \<and> (distinct R \<longrightarrow> distinct R')"
  using assms
proof (induction ds arbitrary: G R)
  case (Cons d ds)
  let ?G = "AList.update d (c d) G" and ?R = "if c d = 0 then btree_insert d R else R"
  have "\<And>e. e \<in> set ds \<Longrightarrow> map_of ?G e = Some (Suc (c e))" using Cons.prems by (auto simp: update_conv')
  then obtain G' R' where run: "release_dependencies ds (?G, ?R) = Some (G', R')"
    "map_of G' = (\<lambda>x. if x \<in> set ds then Some (c x) else map_of ?G x)"
    "set R' = set ?R \<union> {e \<in> set ds. c e = 0}" "distinct ?R \<longrightarrow> distinct R'"
    using Cons.IH [of ?G ?R] Cons.prems(1) by auto
  have "release_dependencies (d # ds) (G, R) = Some (G', R')" using run(1) Cons.prems(2) [of d] by simp
  moreover have "map_of G' = (\<lambda>x. if x \<in> set (d # ds) then Some (c x) else map_of G x)"
    by (rule ext) (simp add: run(2) update_conv')
  moreover have "set R' = set R \<union> {e \<in> set (d # ds). c e = 0}" using run(3) by auto
  moreover have "distinct R \<longrightarrow> distinct R'" using run(4) by auto
  ultimately show ?case by blast
qed auto


text \<open>The dependents of a package that have not been ordered yet.\<close>

definition waiting :: "(string \<times> string) set \<Rightarrow> string list \<Rightarrow> string \<Rightarrow> string set" where
  "waiting E ordered x = {a. (a, x) \<in> E \<and> a \<notin> set ordered}"

definition removal_inv :: "string list \<Rightarrow> (string \<times> string) set \<Rightarrow> (string \<times> nat) list \<Rightarrow> string list \<Rightarrow> string list \<Rightarrow> bool" where
  "removal_inv requested E G ready ordered =
     (distinct ordered \<and> distinct ready \<and> set ordered \<subseteq> set requested \<and>
      (\<forall>x. map_of G x = (if x \<in> set requested then Some (card (waiting E ordered x)) else None)) \<and>
      set ready = {x \<in> set requested. x \<notin> set ordered \<and> waiting E ordered x = {}} \<and>
      (\<forall>k < length ordered. \<forall>a. (a, ordered ! k) \<in> E \<longrightarrow> a \<in> set (take k ordered)))"

lemma waiting_snoc: "waiting E (ordered @ [n]) x = waiting E ordered x - {n}"
  by (auto simp: waiting_def)

lemma finite_waiting: "E \<subseteq> set requested \<times> set requested \<Longrightarrow> finite (waiting E ordered x)"
  by (rule finite_subset [of _ "set requested"]) (auto simp: waiting_def)

lemma removal_step:
  assumes inv: "removal_inv requested E G (n # ready) ordered" and E: "E \<subseteq> set requested \<times> set requested"
    and ds: "set ds = {x. (n, x) \<in> E}" "distinct ds"
  shows "\<exists>G' ready'. release_dependencies ds (G, ready) = Some (G', ready') \<and> removal_inv requested E G' ready' (ordered @ [n])"
proof -
  have n: "n \<in> set requested" "n \<notin> set ordered" "waiting E ordered n = {}" "n \<notin> set ready" "distinct ready"
    and G: "\<And>x. map_of G x = (if x \<in> set requested then Some (card (waiting E ordered x)) else None)"
    and ready: "insert n (set ready) = {x \<in> set requested. x \<notin> set ordered \<and> waiting E ordered x = {}}"
    using inv by (auto simp: removal_inv_def)
  let ?c = "\<lambda>x. card (waiting E (ordered @ [n]) x)"
  have dep: "n \<in> waiting E ordered x \<and> x \<in> set requested \<and> x \<notin> set ordered \<and> x \<noteq> n" if "x \<in> set ds" for x
  proof -
    have nx: "n \<in> waiting E ordered x" using that ds(1) n(2) by (simp add: waiting_def)
    have "x \<notin> set ordered"
    proof
      assume "x \<in> set ordered"
      then obtain k where "k < length ordered" "ordered ! k = x" by (auto simp: in_set_conv_nth)
      then have "n \<in> set (take k ordered)" using inv that ds(1) unfolding removal_inv_def by blast
      then show False using n(2) by (meson in_set_takeD)
    qed
    then show ?thesis using nx n(3) that ds(1) E by auto
  qed
  have "map_of G d = Some (Suc (?c d))" if "d \<in> set ds" for d
    using dep [OF that] G [of d] card_Suc_Diff1 [OF finite_waiting [OF E], of n ordered d] unfolding waiting_snoc by simp
  then obtain G' ready' where run: "release_dependencies ds (G, ready) = Some (G', ready')"
    "map_of G' = (\<lambda>x. if x \<in> set ds then Some (?c x) else map_of G x)"
    "set ready' = set ready \<union> {d \<in> set ds. ?c d = 0}" "distinct ready'"
    using release_dependencies_run [OF ds(2), of G ?c ready] n(5) by auto
  have same: "waiting E (ordered @ [n]) x = waiting E ordered x" if "x \<notin> set ds" for x
    using that ds(1) unfolding waiting_snoc by (auto simp: waiting_def)
  have zero: "?c x = 0 \<longleftrightarrow> waiting E (ordered @ [n]) x = {}" for x
    using finite_waiting [OF E] by simp
  have "set ready' = {x \<in> set requested. x \<notin> set (ordered @ [n]) \<and> waiting E (ordered @ [n]) x = {}}"
  proof (rule set_eqI)
    fix x
    show "(x \<in> set ready') = (x \<in> {x \<in> set requested. x \<notin> set (ordered @ [n]) \<and> waiting E (ordered @ [n]) x = {}})"
    proof (cases "x \<in> set ds")
      case True
      then have "x \<notin> set ready" using dep [OF True] ready by auto
      then show ?thesis using True dep [OF True] run(3) zero by simp
    next
      case False
      then have "(x \<in> set ready') = (x \<in> set ready)" using run(3) by simp
      also have "\<dots> = (x \<noteq> n \<and> x \<in> insert n (set ready))" using n(4) by auto
      finally show ?thesis using same [OF False] unfolding ready by auto
    qed
  qed
  moreover have "map_of G' x = (if x \<in> set requested then Some (?c x) else None)" for x
    using run(2) G [of x] same [of x] dep [of x] by auto
  moreover have "a \<in> set (take k (ordered @ [n]))" if "k < length (ordered @ [n])" "(a, (ordered @ [n]) ! k) \<in> E" for k a
  proof (cases "k < length ordered")
    case True
    then show ?thesis using that inv by (simp add: nth_append removal_inv_def)
  next
    case False
    then have "(a, n) \<in> E" "k = length ordered" using that by (auto simp: nth_append less_Suc_eq)
    then show ?thesis using n(3) by (auto simp: waiting_def)
  qed
  ultimately have "removal_inv requested E G' ready' (ordered @ [n])"
    using inv n run(4) unfolding removal_inv_def by auto
  then show ?thesis using run(1) by blast
qed

lemma removal_loop_run:
  assumes "removal_inv requested E G ready ordered" "E \<subseteq> set requested \<times> set requested"
    "\<And>a. set (dependencies_in D a) = {x. (a, x) \<in> E} \<and> distinct (dependencies_in D a)"
  shows "\<exists>G' out. removal_loop D G ready ordered = Some out \<and> removal_inv requested E G' [] out"
  using assms
proof (induction D G ready ordered rule: removal_loop.induct)
  case (2 D G n ready ordered)
  obtain G' ready' where step: "release_dependencies (dependencies_in D n) (G, ready) = Some (G', ready')"
    "removal_inv requested E G' ready' (ordered @ [n])"
    using removal_step [OF 2(2,3), of "dependencies_in D n"] 2(4) by blast
  show ?case using 2(1) [OF step(1) refl step(2) 2(3,4)] step(1) by simp
qed auto


lemma removal_order_run:
  assumes req: "distinct requested"
  shows "\<exists>W C. removal_order installed requested = Inr (W @ C) \<and> distinct (W @ C) \<and> set (W @ C) = set requested \<and>
    (\<forall>k < length W. \<forall>a. (a, W ! k) \<in> removal_edge_set installed requested \<longrightarrow> a \<in> set (take k W)) \<and>
    (\<forall>x \<in> set C. \<exists>a \<in> set C. (a, x) \<in> removal_edge_set installed requested)"
proof -
  let ?E = "removal_edge_set installed requested"
  obtain D G where DG: "removal_edges_of installed requested = (D, G)" by (cases "removal_edges_of installed requested")
  have ok: "edges_ok requested ?E (D, G)" using removal_edges_of_ok [OF req, of installed] by (simp add: DG)
  then have E: "?E \<subseteq> set requested \<times> set requested"
    and D: "\<And>a. set (dependencies_in D a) = {x. (a, x) \<in> ?E} \<and> distinct (dependencies_in D a)"
    and G: "\<And>x. map_of G x = (if x \<in> set requested then Some (card (waiting ?E [] x)) else None)" "distinct (map fst G)"
    by (simp_all add: edges_ok_def waiting_def)
  let ?ready = "btree_set (map fst (filter (\<lambda>(name, degree). degree = 0) G))"
  have fold: "set (fold btree_insert xs ys) = set xs \<union> set ys \<and> (distinct ys \<longrightarrow> distinct (fold btree_insert xs ys))"
    for xs ys :: "string list" by (induction xs arbitrary: ys) auto
  have "x \<in> set ?ready \<longleftrightarrow> x \<in> set requested \<and> waiting ?E [] x = {}" for x
  proof -
    have "x \<in> set ?ready \<longleftrightarrow> (x, 0) \<in> set G" by (force simp: btree_set_def fold)
    also have "\<dots> \<longleftrightarrow> map_of G x = Some 0" using G(2) by simp
    finally show ?thesis using G(1) [of x] finite_waiting [OF E, of "[]" x] by simp
  qed
  then have "removal_inv requested ?E G ?ready []" using G(1) fold by (auto simp: removal_inv_def btree_set_def)
  from removal_loop_run [OF this E D]
  obtain G' W where run: "removal_loop D G ?ready [] = Some W" "removal_inv requested ?E G' [] W" by auto
  define C where "C = sort (filter (\<lambda>name. name \<notin> set W) requested)"
  have W: "distinct W" "set W \<subseteq> set requested" "\<forall>k < length W. \<forall>a. (a, W ! k) \<in> ?E \<longrightarrow> a \<in> set (take k W)"
    and stuck: "\<And>x. x \<in> set requested \<Longrightarrow> x \<notin> set W \<Longrightarrow> waiting ?E W x \<noteq> {}"
    using run(2) by (auto simp: removal_inv_def)
  have C: "distinct C" "set C = set requested - set W" using req by (auto simp: C_def)
  have "C = []" if "length W = length requested"
    using that W(1,2) req C(2) by (metis card_subset_eq Diff_cancel List.finite_set distinct_card set_empty)
  then have "removal_order installed requested = Inr (W @ C)"
    using run(1) by (cases "length W = length requested") (simp_all add: removal_order_def DG C_def)
  moreover have "\<exists>a \<in> set C. (a, x) \<in> ?E" if "x \<in> set C" for x
    using stuck [of x] that C(2) E by (auto simp: waiting_def)
  ultimately show ?thesis using W C by (intro exI [of _ W] exI [of _ C]) auto
qed

text \<open>In a finite set where everything has a predecessor, everything is downstream of a cycle.\<close>

lemma downstream_of_cycle:
  assumes "finite C" "\<And>x. x \<in> C \<Longrightarrow> \<exists>a \<in> C. (a, x) \<in> E" "x \<in> C"
  shows "\<exists>a. (a, a) \<in> E\<^sup>+ \<and> (a, x) \<in> E\<^sup>*"
proof (rule ccontr)
  assume none: "\<not> ?thesis"
  define A where "A = {a \<in> C. (a, x) \<in> E\<^sup>*}"
  let ?R = "E \<inter> A \<times> A"
  have "finite ?R" using assms(1) by (simp add: A_def)
  moreover have "acyclic ?R"
  proof (rule acyclicI, rule allI, rule notI)
    fix a
    assume cyc: "(a, a) \<in> ?R\<^sup>+"
    then have "a \<in> A" by (meson IntD2 SigmaD1 tranclD)
    moreover have "(a, a) \<in> E\<^sup>+" using cyc trancl_mono [of "(a, a)" ?R E] by blast
    ultimately show False using none by (auto simp: A_def)
  qed
  ultimately have "wf ?R" by (rule finite_acyclic_wf)
  moreover have "x \<in> A" using assms(3) by (simp add: A_def)
  ultimately obtain m where m: "m \<in> A" "\<And>a. (a, m) \<in> ?R \<Longrightarrow> a \<notin> A" by (metis wfE_min)
  then obtain a where a: "a \<in> C" "(a, m) \<in> E" using assms(2) [of m] by (auto simp: A_def)
  then have "a \<in> A" using m(1) by (auto simp: A_def intro: converse_rtrancl_into_rtrancl)
  then show False using m a(2) by blast
qed

lemma for_result_removal_allowed:
  "for_result (removal_allowed installed) names = Inr () \<longleftrightarrow>
     (\<forall>p \<in> set names. \<exists>info. map_of installed p = Some info \<and> \<not> rp_essential info \<and> \<not> rp_protected info)"
  by (auto simp: for_result_Inr removal_allowed_def split: option.splits)

lemma removal_blockers_Nil:
  "removal_blockers installed requested = [] \<longleftrightarrow>
     (\<forall>q info. (q, info) \<in> set installed \<longrightarrow> q \<notin> set requested \<longrightarrow> (\<forall>g. g \<in> set (rp_groups info) \<longrightarrow> \<not> group_broken installed requested g))"
proof -
  have "set (fold btree_insert xs ys) = set xs \<union> set ys" for xs ys :: "string list" by (induction xs arbitrary: ys) auto
  then have "removal_blockers installed requested = [] \<longleftrightarrow>
      filter (\<lambda>(dependent, info). dependent \<notin> set requested \<and> list_ex (group_broken installed requested) (rp_groups info)) installed = []"
    unfolding removal_blockers_def btree_set_def by (metis (no_types, lifting) Un_empty_right empty_set map_is_Nil_conv set_empty2)
  then show ?thesis by (force simp: filter_empty_conv list_ex_iff)
qed


lemma removal_installed_distinct: "distinct (map fst (removal_installed status))"
proof -
  have "distinct (map fst (fold removal_paragraph ps installed))" if "distinct (map fst installed)" for ps installed
    using that by (induction ps arbitrary: installed)
      (auto simp: removal_paragraph_def distinct_update split: option.split prod.split)
  then show ?thesis by (simp add: removal_installed_def)
qed

lemma plan_cases:
  "plan_debian_removal status names =
     rbind (for_result (removal_allowed (removal_installed status)) (remdups names)) (\<lambda>_.
     rbind (ensure (removal_blockers (removal_installed status) (remdups names) = [])
       (RemovalBlocked (removal_blockers (removal_installed status) (remdups names)))) (\<lambda>_.
     removal_order (removal_installed status) (remdups names)))"
  by (simp add: plan_debian_removal_def Let_def)

lemma removal_accepted_iff:
  "is_ok (plan_debian_removal status names) \<longleftrightarrow>
     (\<forall>p \<in> set names. \<exists>info. map_of (removal_installed status) p = Some info \<and> \<not> rp_essential info \<and> \<not> rp_protected info) \<and>
     (\<forall>q info g. map_of (removal_installed status) q = Some info \<longrightarrow> q \<notin> set names \<longrightarrow> g \<in> set (rp_groups info) \<longrightarrow>
        (\<exists>n \<in> set g. map_of (removal_installed status) n \<noteq> None) \<longrightarrow>
        (\<exists>n \<in> set g. map_of (removal_installed status) n \<noteq> None \<and> n \<notin> set names))"
  (is "_ \<longleftrightarrow> ?allowed \<and> ?kept")
proof -
  let ?I = "removal_installed status"
  have dom: "n \<in> set (map fst ?I) \<longleftrightarrow> map_of ?I n \<noteq> None" for n by (simp add: map_of_eq_None_iff)
  have broken: "\<not> group_broken ?I (remdups names) g \<longleftrightarrow>
      ((\<exists>n \<in> set g. n \<in> set names) \<longrightarrow> (\<exists>n \<in> set g. map_of ?I n \<noteq> None \<and> n \<notin> set names))" for g
    unfolding group_broken_def dom by (auto simp: list_ex_iff)
  have ent: "(q, info) \<in> set ?I \<longleftrightarrow> map_of ?I q = Some info" for q info
    using removal_installed_distinct by simp
  have ok: "is_ok (plan_debian_removal status names) \<longleftrightarrow> ?allowed \<and> removal_blockers ?I (remdups names) = []"
    using removal_order_run [of "remdups names" ?I] for_result_removal_allowed [of ?I "remdups names"]
    by (auto simp: plan_cases is_ok_iff rbind_eq_Inr ensure_def)
  have "removal_blockers ?I (remdups names) = [] \<longleftrightarrow> ?kept" if allowed: ?allowed
  proof -
    have "((\<exists>n \<in> set g. n \<in> set names) \<longrightarrow> (\<exists>n \<in> set g. map_of ?I n \<noteq> None \<and> n \<notin> set names)) \<longleftrightarrow>
        ((\<exists>n \<in> set g. map_of ?I n \<noteq> None) \<longrightarrow> (\<exists>n \<in> set g. map_of ?I n \<noteq> None \<and> n \<notin> set names))" for g
      using allowed by (metis option.distinct(1))
    then show ?thesis unfolding removal_blockers_Nil broken ent set_remdups by presburger
  qed
  then show ?thesis using ok by blast
qed

lemma plan_permutation: "plan_debian_removal status names = Inr order \<Longrightarrow> distinct order \<and> set order = set names"
  using removal_order_run [of "remdups names" "removal_installed status"] by (auto simp: plan_cases rbind_eq_Inr)

lemma plan_no_underflow: "plan_debian_removal status names \<noteq> Inl RemovalUnderflow"
proof
  assume under: "plan_debian_removal status names = Inl RemovalUnderflow"
  have "for_result (removal_allowed (removal_installed status)) ps \<noteq> Inl RemovalUnderflow" for ps
    using for_result_Inl [of "removal_allowed (removal_installed status)" ps RemovalUnderflow]
    by (auto simp: removal_allowed_def ensure_def split: option.splits if_splits)
  moreover obtain out where "removal_order (removal_installed status) (remdups names) = Inr out"
    using removal_order_run [of "remdups names" "removal_installed status"] by auto
  ultimately show False using under unfolding plan_cases ensure_def rbind_def by (auto split: sum.splits if_splits)
qed

lemma plan_dependents_first:
  assumes "plan_debian_removal status names = Inr order"
  shows "distinct order \<and> set order = set names \<and>
    (\<forall>i j. i < j \<longrightarrow> j < length order \<longrightarrow> order ! i \<in> depends_on (removal_installed status) (order ! j) \<longrightarrow>
       (\<exists>a. (a, a) \<in> (removal_edge_set (removal_installed status) names)\<^sup>+ \<and>
            (a, order ! i) \<in> (removal_edge_set (removal_installed status) names)\<^sup>*))"
proof -
  let ?E = "removal_edge_set (removal_installed status) names"
  have E: "removal_edge_set (removal_installed status) (remdups names) = ?E" by (simp add: removal_edge_set_def)
  have "removal_order (removal_installed status) (remdups names) = Inr order"
    using assms by (simp add: plan_cases rbind_eq_Inr)
  then obtain W C where order: "order = W @ C" "distinct (W @ C)" "set (W @ C) = set names"
    and first: "\<forall>k < length W. \<forall>a. (a, W ! k) \<in> ?E \<longrightarrow> a \<in> set (take k W)"
    and cyc: "\<forall>x \<in> set C. \<exists>a \<in> set C. (a, x) \<in> ?E"
    using removal_order_run [of "remdups names" "removal_installed status"] E by auto
  have "\<exists>a. (a, a) \<in> ?E\<^sup>+ \<and> (a, order ! i) \<in> ?E\<^sup>*"
    if ij: "i < j" "j < length order" "order ! i \<in> depends_on (removal_installed status) (order ! j)" for i j
  proof -
    have mem: "order ! i \<in> set names" "order ! j \<in> set names" using ij order(1,3) nth_mem [of _ order] by auto
    then have e: "(order ! j, order ! i) \<in> ?E" using ij(3) by (simp add: removal_edge_set_def)
    have "\<not> i < length W"
    proof
      assume i: "i < length W"
      then have "order ! j \<in> set (take i W)" using first e order(1) by (simp add: nth_append)
      then obtain k where "k < i" "order ! k = order ! j" using i order(1) by (auto simp: in_set_conv_nth nth_append)
      then show False using ij order(1,2) by (simp add: nth_eq_iff_index_eq)
    qed
    then have "order ! i \<in> set C" using ij order(1) by (auto simp: nth_append)
    then show ?thesis using downstream_of_cycle [of "set C" ?E "order ! i"] cyc by blast
  qed
  then show ?thesis using order by auto
qed

section \<open>Properties\<close>

text \<open>
  C17: A removal is accepted exactly when every requested package is installed and neither essential
  nor protected, and every dependency group of a package that stays and that some installed package
  satisfies by its name is still satisfied by a package that stays.
\<close>

theorem removal_accepted_iff_safe:
  "is_ok (plan_debian_removal status names) \<longleftrightarrow>
     (\<forall>p \<in> set names. \<exists>info. map_of (removal_installed status) p = Some info \<and> \<not> rp_essential info \<and> \<not> rp_protected info) \<and>
     (\<forall>q info g. map_of (removal_installed status) q = Some info \<longrightarrow> q \<notin> set names \<longrightarrow> g \<in> set (rp_groups info) \<longrightarrow>
        (\<exists>n \<in> set g. map_of (removal_installed status) n \<noteq> None) \<longrightarrow>
        (\<exists>n \<in> set g. map_of (removal_installed status) n \<noteq> None \<and> n \<notin> set names))"
  by (rule removal_accepted_iff)

text \<open>
  C15: Planning a removal never takes the counter of a package below zero, whatever the status file
  and the request. An accepted removal takes each requested package once, and dependents first: a
  package comes before one that depends on it only when it is downstream of a dependency cycle among
  the requested packages.
\<close>

theorem removal_order_is_dependents_first:
  "plan_debian_removal status names \<noteq> Inl RemovalUnderflow \<and>
   (\<forall>order. plan_debian_removal status names = Inr order \<longrightarrow>
      distinct order \<and> set order = set names \<and>
      (\<forall>i j. i < j \<longrightarrow> j < length order \<longrightarrow> order ! i \<in> depends_on (removal_installed status) (order ! j) \<longrightarrow>
         (\<exists>a. (a, a) \<in> (removal_edge_set (removal_installed status) names)\<^sup>+ \<and>
              (a, order ! i) \<in> (removal_edge_set (removal_installed status) names)\<^sup>*)))"
  using plan_no_underflow plan_dependents_first by blast

text \<open>A library and a tool that needs it.\<close>

definition dpkg_line :: "string \<Rightarrow> string" where
  "dpkg_line l = l @ [CHR 0x0A]"

definition sample_status :: string where
  "sample_status = concat (map dpkg_line
    [''Package: lib'', ''Status: install ok installed'', '''',
     ''Package: tool'', ''Status: install ok installed'', ''Depends: lib (>= 1), other | lib:any''])"

theorem removal_order_is_dependents_first_witness:
  "plan_debian_removal sample_status [''lib'', ''tool''] = Inr [''tool'', ''lib''] \<and>
   distinct [''tool'', ''lib''] \<and> set [''tool'', ''lib''] = set [''lib'', ''tool'']"
proof -
  have "plan_debian_removal sample_status [''lib'', ''tool''] = Inr [''tool'', ''lib'']" by code_simp
  then show ?thesis using removal_order_is_dependents_first by blast
qed

theorem removal_accepted_iff_safe_witness:
  "is_ok (plan_debian_removal sample_status [''tool'']) \<and>
   (\<exists>info. map_of (removal_installed sample_status) ''tool'' = Some info \<and> \<not> rp_essential info \<and> \<not> rp_protected info)"
proof -
  have "is_ok (plan_debian_removal sample_status [''tool''])" by code_simp
  then show ?thesis using removal_accepted_iff_safe [of sample_status "[''tool'']"] by simp
qed

end
