(* ===== verification/Deb_Status.thy ===== *)
theory Deb_Status
  imports Deb_Removal
begin

text \<open>
  The dpkg status file as the transactions of \<^verbatim>\<open>package_managers/debian_db/transaction.rs\<close> edit it:
  merging the paragraphs of installed packages, preparing such a paragraph from a control file, and
  marking a package as removed. The operations work on the text of the file; what they mean is
  stated on the list of paragraphs that a well-formed file holds.
\<close>

section \<open>Operations on the text\<close>

definition installed_line :: string where
  "installed_line = ''Status: install ok installed''"

definition nl :: string where
  "nl = [CHR 0x0A]"

definition starts_with :: "string \<Rightarrow> string \<Rightarrow> bool" where
  "starts_with p s = (strip_prefix p s \<noteq> None)"

definition prepare_status_entry :: "string \<Rightarrow> string" where
  "prepare_status_entry control_content =
     (let has_status = list_ex (starts_with ''Status:'') (str_lines control_content)
      in concat (map (\<lambda>line.
           if starts_with ''Status:'' line then installed_line @ nl
           else line @ nl @ (if \<not> has_status \<and> starts_with ''Package:'' line then installed_line @ nl else []))
         (str_lines control_content)))"

text \<open>The name in the first \<^verbatim>\<open>Package: \<close> line of a paragraph.\<close>

definition paragraph_name :: "string \<Rightarrow> string option" where
  "paragraph_name paragraph =
     (case List.map_filter (strip_prefix ''Package: '') (str_lines paragraph) of [] \<Rightarrow> None | name # _ \<Rightarrow> Some (trim name))"

fun merge_paragraphs :: "string list \<Rightarrow> (string \<times> string) list \<Rightarrow> string \<Rightarrow> (string \<times> string) list \<times> string" where
  "merge_paragraphs [] pending out = (pending, out)"
| "merge_paragraphs (paragraph # ps) pending out =
     (if trim paragraph = [] then merge_paragraphs ps pending out
      else case Option.bind (paragraph_name paragraph) (\<lambda>name. map_option (Pair name) (map_of pending name)) of
             Some (name, entry) \<Rightarrow> merge_paragraphs ps (AList.delete name pending) (out @ entry @ nl)
           | None \<Rightarrow> merge_paragraphs ps pending (out @ paragraph @ nl @ nl))"

fun append_pending :: "(string \<times> string) list \<Rightarrow> (string \<times> string) list \<Rightarrow> string \<Rightarrow> string" where
  "append_pending [] pending out = out"
| "append_pending ((name, entry) # entries) pending out =
     (if map_of pending name \<noteq> None then append_pending entries (AList.delete name pending) (out @ entry @ nl)
      else append_pending entries pending out)"

text \<open>Collecting the entries into a \<^verbatim>\<open>HashMap\<close> keeps the last of a name.\<close>

definition merge_status_entries :: "string \<Rightarrow> (string \<times> string) list \<Rightarrow> string" where
  "merge_status_entries current entries =
     (let pending = fold (\<lambda>(name, entry). AList.update name entry) entries [];
          (pending, out) = merge_paragraphs (split_paragraphs current) pending []
      in append_pending entries pending out)"

datatype status_error = StatusFileMissing | StatusPackageMissing string

definition removal_status_line :: "string \<Rightarrow> string \<Rightarrow> string \<times> bool \<times> bool \<Rightarrow> string \<times> bool \<times> bool" where
  "removal_status_line package_name line st = (case st of (updated, in_target, found) \<Rightarrow>
     if line = [] then (updated @ nl, False, found)
     else case strip_prefix ''Package: '' line of
       Some pkg \<Rightarrow> (updated @ line @ nl, trim pkg = package_name, found \<or> trim pkg = package_name)
     | None \<Rightarrow>
         if in_target \<and> starts_with ''Status: '' line
         then (updated @ ''Status: deinstall ok config-files'' @ nl, in_target, found)
         else (updated @ line @ nl, in_target, found))"

text \<open>The new content of the status file; no file is \<^const>\<open>None\<close>.\<close>

definition update_dpkg_status_for_removal :: "string \<Rightarrow> string option \<Rightarrow> (status_error, string) result" where
  "update_dpkg_status_for_removal package_name status_content =
     (case status_content of
        None \<Rightarrow> Inl StatusFileMissing
      | Some content \<Rightarrow>
          (case fold (removal_status_line package_name) (str_lines content) ([], False, False) of
             (updated, _, found) \<Rightarrow>
               if found then Inr updated else Inl (StatusPackageMissing package_name)))"

text \<open>The status updates of \<^verbatim>\<open>remove_packages_sequentially\<close>, package by package.\<close>

fun mark_removed :: "string list \<Rightarrow> string \<Rightarrow> (status_error, string) result" where
  "mark_removed [] status = Inr status"
| "mark_removed (name # names) status =
     rbind (update_dpkg_status_for_removal name (Some status)) (\<lambda>updated. mark_removed names updated)"

section \<open>Well-formed files\<close>

text \<open>A paragraph is the name of its package and its other lines.\<close>

type_synonym dpkg_paragraph = "string \<times> string list"

definition line_ok :: "string \<Rightarrow> bool" where
  "line_ok l = (l \<noteq> [] \<and> CHR 0x0A \<notin> set l \<and> CHR 0x0D \<notin> set l)"

definition paragraph_ok :: "dpkg_paragraph \<Rightarrow> bool" where
  "paragraph_ok p = (case p of (name, rest) \<Rightarrow>
     name \<noteq> [] \<and> list_all (\<lambda>c. \<not> is_whitespace c) name \<and> list_all (\<lambda>l. line_ok l \<and> \<not> starts_with ''Package:'' l) rest)"

definition paragraph_lines :: "dpkg_paragraph \<Rightarrow> string list" where
  "paragraph_lines p = (''Package: '' @ fst p) # snd p"

definition paragraph_text :: "dpkg_paragraph \<Rightarrow> string" where
  "paragraph_text p = concat (map (\<lambda>l. l @ nl) (paragraph_lines p))"

definition render :: "dpkg_paragraph list \<Rightarrow> string" where
  "render db = concat (map (\<lambda>p. paragraph_text p @ nl) db)"


section \<open>Reading rendered text\<close>

lemma str_lines_line: "CHR 0x0A \<notin> set l \<Longrightarrow> CHR 0x0D \<notin> set l \<Longrightarrow> str_lines (l @ CHR 0x0A # s) = l # str_lines s"
  by (simp add: str_lines_def str_lines_acc_line strip_cr_id)

lemma str_lines_concat:
  "list_all (\<lambda>l. CHR 0x0A \<notin> set l \<and> CHR 0x0D \<notin> set l) ls \<Longrightarrow> str_lines (concat (map (\<lambda>l. l @ nl) ls) @ s) = ls @ str_lines s"
  by (induction ls) (simp_all add: str_lines_line nl_def)

fun join_lines :: "string list \<Rightarrow> string" where
  "join_lines [] = []"
| "join_lines [l] = l"
| "join_lines (l # ls) = l @ nl @ join_lines ls"

lemma join_lines_nl: "ls \<noteq> [] \<Longrightarrow> concat (map (\<lambda>l. l @ nl) ls) = join_lines ls @ nl"
  by (induction ls rule: join_lines.induct) auto

lemma str_lines_join: "list_all line_ok ls \<Longrightarrow> str_lines (join_lines ls) = ls"
proof (induction ls rule: join_lines.induct)
  case (2 l)
  then show ?case by (simp add: str_lines_def str_lines_acc_rest line_ok_def)
next
  case (3 l k ls)
  then show ?case by (simp add: str_lines_line nl_def line_ok_def)
qed (simp add: str_lines_def)

text \<open>Text without an empty line that does not end in a line feed.\<close>

fun no_gap :: "string \<Rightarrow> bool" where
  "no_gap [] = True"
| "no_gap [c] = (c \<noteq> CHR 0x0A)"
| "no_gap (c # d # s) = (\<not> (c = CHR 0x0A \<and> d = CHR 0x0A) \<and> no_gap (d # s))"

lemma split_paragraphs_gap:
  "no_gap t \<Longrightarrow> t \<noteq> [] \<Longrightarrow> split_paragraphs (t @ CHR 0x0A # CHR 0x0A # s) = t # split_paragraphs s"
  by (induction t rule: no_gap.induct) auto

lemma no_gap_line: "CHR 0x0A \<notin> set l \<Longrightarrow> no_gap l"
  by (induction l rule: no_gap.induct) auto

lemma no_gap_append: "line_ok l \<Longrightarrow> no_gap t \<Longrightarrow> t \<noteq> [] \<Longrightarrow> hd t \<noteq> CHR 0x0A \<Longrightarrow> no_gap (l @ CHR 0x0A # t)"
proof (induction l rule: no_gap.induct)
  case (2 c)
  then show ?case by (cases t) (auto simp: line_ok_def)
next
  case (3 c d s)
  then show ?case by (auto simp: line_ok_def)
qed (simp add: line_ok_def)

lemma no_gap_join:
  "list_all line_ok ls \<Longrightarrow> ls \<noteq> [] \<Longrightarrow> no_gap (join_lines ls) \<and> join_lines ls \<noteq> [] \<and> hd (join_lines ls) \<noteq> CHR 0x0A"
proof (induction ls rule: join_lines.induct)
  case (2 l)
  then show ?case by (cases l) (auto simp: line_ok_def no_gap_line)
next
  case (3 l k ls)
  then have l: "line_ok l" and rest: "no_gap (join_lines (k # ls))" "join_lines (k # ls) \<noteq> []" "hd (join_lines (k # ls)) \<noteq> CHR 0x0A"
    by auto
  moreover have "l \<noteq> [] \<and> hd l \<noteq> CHR 0x0A" using l by (cases l) (auto simp: line_ok_def)
  ultimately show ?case using no_gap_append [OF l rest] by (simp add: nl_def)
qed simp

lemma paragraph_lines_ok: "paragraph_ok p \<Longrightarrow> list_all line_ok (paragraph_lines p)"
proof -
  assume ok: "paragraph_ok p"
  have ws: "is_whitespace (CHR 0x0A)" "is_whitespace (CHR 0x0D)" by code_simp+
  have "line_ok (''Package: '' @ fst p)"
    using ok ws by (auto simp: line_ok_def paragraph_ok_def list_all_iff split: prod.splits)
  then show ?thesis using ok by (auto simp: paragraph_lines_def paragraph_ok_def list_all_iff split: prod.splits)
qed

lemma paragraph_text_join: "paragraph_text p = join_lines (paragraph_lines p) @ nl"
  unfolding paragraph_text_def by (rule join_lines_nl) (simp add: paragraph_lines_def)

definition db_ok :: "dpkg_paragraph list \<Rightarrow> bool" where
  "db_ok db = list_all paragraph_ok db"

lemma split_render: "db_ok db \<Longrightarrow> split_paragraphs (render db) = map (\<lambda>p. join_lines (paragraph_lines p)) db @ [[]]"
proof (induction db)
  case (Cons p db)
  have "paragraph_lines p \<noteq> []" "list_all line_ok (paragraph_lines p)"
    using Cons.prems paragraph_lines_ok [of p] by (auto simp: paragraph_lines_def db_ok_def)
  then have "no_gap (join_lines (paragraph_lines p))" "join_lines (paragraph_lines p) \<noteq> []"
    using no_gap_join [of "paragraph_lines p"] by auto
  then have "split_paragraphs (join_lines (paragraph_lines p) @ CHR 0x0A # CHR 0x0A # render db) =
      join_lines (paragraph_lines p) # split_paragraphs (render db)" by (rule split_paragraphs_gap)
  then show ?case using Cons by (simp add: render_def paragraph_text_join nl_def db_ok_def)
qed (simp add: render_def)

lemma lines_render: "db_ok db \<Longrightarrow> str_lines (render db) = concat (map (\<lambda>p. paragraph_lines p @ [[]]) db)"
proof (induction db)
  case (Cons p db)
  have ok: "list_all (\<lambda>l. CHR 0x0A \<notin> set l \<and> CHR 0x0D \<notin> set l) (paragraph_lines p @ [[]])"
    using Cons.prems paragraph_lines_ok [of p] by (auto simp: db_ok_def list_all_iff line_ok_def)
  have "render (p # db) = concat (map (\<lambda>l. l @ nl) (paragraph_lines p @ [[]])) @ render db"
    by (simp add: render_def paragraph_text_def)
  then show ?case using str_lines_concat [OF ok, of "render db"] Cons by (simp add: db_ok_def)
qed (simp add: render_def str_lines_def)


section \<open>What the operations do to the paragraphs\<close>

lemma starts_with_iff: "starts_with p s \<longleftrightarrow> (\<exists>r. s = p @ r)"
  by (auto simp: starts_with_def strip_prefix_Some)

lemma not_package_line: "\<not> starts_with ''Package:'' l \<Longrightarrow> strip_prefix ''Package:'' l = None \<and> strip_prefix ''Package: '' l = None"
  using strip_prefix_Some [of "''Package: ''" l] strip_prefix_Some [of "''Package:''" l]
  by (auto simp: starts_with_def intro: option.exhaust)

definition mark_line :: "string \<Rightarrow> string" where
  "mark_line l = (if starts_with ''Status: '' l then ''Status: deinstall ok config-files'' else l)"

definition mark :: "string \<Rightarrow> dpkg_paragraph \<Rightarrow> dpkg_paragraph" where
  "mark name p = (if fst p = name then (fst p, map mark_line (snd p)) else p)"

lemma paragraph_ok_name: "paragraph_ok p \<Longrightarrow> trim (fst p) = fst p \<and> fst p \<noteq> []"
  by (auto simp: paragraph_ok_def list_all_iff intro!: trim_no_whitespace split: prod.splits)

lemma trim_space: "trim (CHR '' '' # s) = trim s"
proof -
  have "is_whitespace CHR '' ''" by code_simp
  then show ?thesis by (simp add: trim_def trim_start_def)
qed

lemma fold_status_lines:
  "list_all (\<lambda>l. l \<noteq> [] \<and> \<not> starts_with ''Package:'' l) ls \<Longrightarrow>
     fold (removal_status_line name) ls (u, t, f) =
       (u @ concat (map (\<lambda>l. (if t then mark_line l else l) @ nl) ls), t, f)"
  by (induction ls arbitrary: u) (auto simp: removal_status_line_def mark_line_def dest: not_package_line)

lemma fold_status_paragraph:
  assumes "paragraph_ok p"
  shows "fold (removal_status_line name) (paragraph_lines p @ [[]]) (u, t, f) =
    (u @ paragraph_text (mark name p) @ nl, False, f \<or> fst p = name)"
proof -
  have rest: "list_all (\<lambda>l. l \<noteq> [] \<and> \<not> starts_with ''Package:'' l) (snd p)"
    using assms by (auto simp: paragraph_ok_def line_ok_def list_all_iff split: prod.splits)
  have first: "removal_status_line name (''Package: '' @ fst p) (u, t, f) =
      (u @ (''Package: '' @ fst p) @ nl, fst p = name, f \<or> fst p = name)"
    using paragraph_ok_name [OF assms] by (simp add: removal_status_line_def strip_prefix_def)
  have unfold: "fold F (paragraph_lines p @ [[]]) st = F [] (fold F (snd p) (F (''Package: '' @ fst p) st))" for F and st :: 'a
    by (simp add: paragraph_lines_def)
  show ?thesis
    unfolding unfold first fold_status_lines [OF rest]
    by (simp add: removal_status_line_def mark_def paragraph_text_def paragraph_lines_def o_def)
qed

lemma mark_ok: "paragraph_ok p \<Longrightarrow> paragraph_ok (mark name p)"
proof -
  assume ok: "paragraph_ok p"
  have "line_ok (mark_line l) \<and> \<not> starts_with ''Package:'' (mark_line l)" if "line_ok l" "\<not> starts_with ''Package:'' l" for l
    using that by (auto simp: mark_line_def line_ok_def starts_with_iff)
  then show ?thesis using ok by (auto simp: mark_def paragraph_ok_def list_all_iff split: prod.splits)
qed

lemma update_status_render:
  assumes "db_ok db" "name \<in> fst ` set db"
  shows "update_dpkg_status_for_removal name (Some (render db)) = Inr (render (map (mark name) db))"
proof -
  have "fold (removal_status_line name) (concat (map (\<lambda>p. paragraph_lines p @ [[]]) db)) (u, False, f) =
      (u @ render (map (mark name) db), False, f \<or> name \<in> fst ` set db)" for u f
    using assms(1)
  proof (induction db arbitrary: u f)
    case (Cons p db)
    have p: "paragraph_ok p" using Cons.prems by (simp add: db_ok_def)
    show ?case
      using Cons.IH [of "u @ paragraph_text (mark name p) @ nl" "f \<or> fst p = name"] Cons.prems fold_status_paragraph [OF p, of name u False f]
      by (auto simp: db_ok_def render_def)
  qed (simp add: render_def)
  then show ?thesis using assms by (simp add: update_dpkg_status_for_removal_def lines_render)
qed

text \<open>The installed packages of a well-formed file.\<close>

definition paragraph_info :: "dpkg_paragraph \<Rightarrow> removal_package" where
  "paragraph_info p = fst (snd (fold removal_line (snd p) (Some (fst p), removal_package_default, False)))"

definition note_paragraph :: "dpkg_paragraph \<Rightarrow> installed_packages \<Rightarrow> installed_packages" where
  "note_paragraph p installed =
     (if installed_line \<in> set (snd p) then AList.update (fst p) (paragraph_info p) installed else installed)"

lemma fold_removal_lines_name:
  "list_all (\<lambda>l. \<not> starts_with ''Package:'' l) ls \<Longrightarrow> \<exists>i r. fold removal_line ls (Some n, info, reading) = (Some n, i, r)"
proof (induction ls arbitrary: info reading)
  case (Cons l ls)
  then have "strip_prefix ''Package:'' l = None" using not_package_line by simp
  then have "\<exists>i r. removal_line l (Some n, info, reading) = (Some n, i, r)"
    by (auto simp: removal_line_def split: option.split)
  then show ?case using Cons by auto
qed simp

lemma removal_paragraph_join:
  assumes "paragraph_ok p"
  shows "removal_paragraph (join_lines (paragraph_lines p)) installed = note_paragraph p installed"
proof -
  have lines: "str_lines (join_lines (paragraph_lines p)) = paragraph_lines p"
    using str_lines_join [OF paragraph_lines_ok [OF assms]] .
  have "list_all (\<lambda>l. \<not> starts_with ''Package:'' l) (snd p)"
    using assms by (auto simp: paragraph_ok_def list_all_iff split: prod.splits)
  then obtain i r where rest: "fold removal_line (snd p) (Some (fst p), removal_package_default, False) = (Some (fst p), i, r)"
    using fold_removal_lines_name by blast
  have "removal_line (''Package: '' @ fst p) (None, removal_package_default, False) = (Some (fst p), removal_package_default, False)"
    using paragraph_ok_name [OF assms] by (simp add: removal_line_def trim_space strip_prefix_def)
  then show ?thesis
    unfolding removal_paragraph_def lines
    using rest by (simp add: paragraph_lines_def note_paragraph_def paragraph_info_def installed_line_def)
qed

lemma removal_installed_render: "db_ok db \<Longrightarrow> removal_installed (render db) = fold note_paragraph db []"
proof -
  assume ok: "db_ok db"
  have "fold removal_paragraph (map (\<lambda>p. join_lines (paragraph_lines p)) db) installed = fold note_paragraph db installed" for installed
    using ok by (induction db arbitrary: installed) (auto simp: db_ok_def removal_paragraph_join)
  moreover have "removal_paragraph [] installed = installed" for installed
    by (simp add: removal_paragraph_def str_lines_def)
  ultimately show ?thesis by (simp add: removal_installed_def split_render [OF ok])
qed


lemma map_of_note: "map_of (note_paragraph p inst) n = (if n = fst p \<and> installed_line \<in> set (snd p) then Some (paragraph_info p) else map_of inst n)"
  by (auto simp: note_paragraph_def update_conv')

lemma mark_line_removed: "installed_line \<notin> set (map mark_line ls)"
proof
  assume "installed_line \<in> set (map mark_line ls)"
  then obtain l where "installed_line = mark_line l" by auto
  moreover have "starts_with ''Status: '' installed_line" by code_simp
  moreover have "installed_line \<noteq> ''Status: deinstall ok config-files''" by code_simp
  ultimately show False by (auto simp: mark_line_def split: if_splits)
qed

lemma fold_note_mark:
  assumes "map_of inst' = (map_of inst)(m := None)"
  shows "map_of (fold note_paragraph (map (mark m) db) inst') = (map_of (fold note_paragraph db inst))(m := None)"
  using assms
proof (induction db arbitrary: inst inst')
  case (Cons p db)
  have "map_of (note_paragraph (mark m p) inst') = (map_of (note_paragraph p inst))(m := None)"
    by (rule ext) (use mark_line_removed Cons.prems in \<open>auto simp: map_of_note mark_def\<close>)
  from Cons.IH [OF this] show ?case by simp
qed simp

lemma map_of_installed_mark:
  assumes "db_ok db"
  shows "map_of (removal_installed (render (map (mark m) db))) = (map_of (removal_installed (render db)))(m := None)"
proof -
  have "db_ok (map (mark m) db)" using assms mark_ok by (auto simp: db_ok_def list_all_iff)
  then show ?thesis using fold_note_mark [of "[]" "[]" m db] assms by (simp add: removal_installed_render fun_upd_idem)
qed

lemma mark_removed_render:
  assumes "db_ok db" "set names \<subseteq> fst ` set db"
  shows "\<exists>db'. mark_removed names (render db) = Inr (render db') \<and> db_ok db' \<and>
    (\<forall>n. map_of (removal_installed (render db')) n = (if n \<in> set names then None else map_of (removal_installed (render db)) n))"
  using assms
proof (induction names arbitrary: db)
  case (Cons m names)
  have ok: "db_ok (map (mark m) db)" using Cons.prems(1) mark_ok by (auto simp: db_ok_def list_all_iff)
  have "fst (mark m p) = fst p" for p by (simp add: mark_def)
  then have "fst ` set (map (mark m) db) = fst ` set db" by (simp add: image_image)
  then obtain db' where "mark_removed names (render (map (mark m) db)) = Inr (render db')" "db_ok db'"
    "\<forall>n. map_of (removal_installed (render db')) n =
      (if n \<in> set names then None else map_of (removal_installed (render (map (mark m) db))) n)"
    using Cons.IH [OF ok] Cons.prems(2) by auto
  then show ?case
    using update_status_render [OF Cons.prems(1), of m] Cons.prems(2)
    by (intro exI [of _ db']) (simp add: map_of_installed_mark [OF Cons.prems(1)])
qed auto

lemma installed_in_db:
  assumes "db_ok db" "map_of (removal_installed (render db)) n \<noteq> None"
  shows "n \<in> fst ` set db"
proof -
  have noted: "map_of (fold note_paragraph db inst) n \<noteq> None \<Longrightarrow> n \<in> fst ` set db \<or> map_of inst n \<noteq> None" for inst
    by (induction db arbitrary: inst) (force simp: map_of_note split: if_splits)+
  show ?thesis using noted [of "[]"] assms by (simp add: removal_installed_render)
qed


text \<open>The paragraphs after a merge: replaced in place, new ones at the end.\<close>

definition merged :: "dpkg_paragraph list \<Rightarrow> dpkg_paragraph list \<Rightarrow> dpkg_paragraph list" where
  "merged db es =
     map (\<lambda>p. case map_of es (fst p) of Some rest \<Rightarrow> (fst p, rest) | None \<Rightarrow> p) db @ filter (\<lambda>e. fst e \<notin> fst ` set db) es"

definition entries_of :: "dpkg_paragraph list \<Rightarrow> (string \<times> string) list" where
  "entries_of es = map (\<lambda>e. (fst e, paragraph_text e)) es"

lemma map_of_entries: "map_of (entries_of es) n = map_option (\<lambda>rest. paragraph_text (n, rest)) (map_of es n)"
  by (induction es) (auto simp: entries_of_def)

lemma paragraph_name_join:
  assumes "paragraph_ok p"
  shows "paragraph_name (join_lines (paragraph_lines p)) = Some (fst p)" and "trim (join_lines (paragraph_lines p)) \<noteq> []"
proof -
  have ok: "list_all line_ok (paragraph_lines p)" by (rule paragraph_lines_ok [OF assms])
  have lines: "str_lines (join_lines (paragraph_lines p)) = (''Package: '' @ fst p) # snd p"
    using str_lines_join [OF ok] unfolding paragraph_lines_def .
  have "strip_prefix ''Package: '' (''Package: '' @ fst p) = Some (fst p)" by (simp add: strip_prefix_def)
  then show "paragraph_name (join_lines (paragraph_lines p)) = Some (fst p)"
    using paragraph_ok_name [OF assms] unfolding paragraph_name_def lines map_filter_simps by simp
  have "\<exists>t. join_lines (paragraph_lines p) = CHR ''P'' # t" by (cases "snd p") (simp_all add: paragraph_lines_def)
  moreover have "\<not> is_whitespace CHR ''P''" by code_simp
  ultimately show "trim (join_lines (paragraph_lines p)) \<noteq> []"
    by (auto simp: trim_def trim_start_def trim_end_def)
qed

lemma merge_paragraphs_render:
  assumes "db_ok db" "distinct (map fst db)" "\<And>p. p \<in> set db \<Longrightarrow> map_of pending (fst p) = map_of (entries_of es) (fst p)"
  shows "\<exists>pending'. merge_paragraphs (map (\<lambda>p. join_lines (paragraph_lines p)) db @ [[]]) pending out =
      (pending', out @ render (map (\<lambda>p. case map_of es (fst p) of Some rest \<Rightarrow> (fst p, rest) | None \<Rightarrow> p) db)) \<and>
    (\<forall>n. map_of pending' n = (if n \<in> fst ` set db then None else map_of pending n))"
  using assms
proof (induction db arbitrary: pending out)
  case Nil
  then show ?case by (simp add: render_def)
next
  case (Cons p db)
  have p: "paragraph_ok p" and ok: "db_ok db" using Cons.prems(1) by (simp_all add: db_ok_def)
  have new: "\<And>q. q \<in> set db \<Longrightarrow> fst q \<noteq> fst p" using Cons.prems(2) unfolding list.map distinct.simps set_map by (metis imageI)
  have pend: "map_of pending (fst p) = map_option (\<lambda>rest. paragraph_text (fst p, rest)) (map_of es (fst p))"
    using Cons.prems(3) by (simp add: map_of_entries)
  let ?J = "map (\<lambda>p. join_lines (paragraph_lines p))" and ?f = "\<lambda>p. case map_of es (fst p) of Some rest \<Rightarrow> (fst p, rest) | None \<Rightarrow> p"
  define pending1 where "pending1 = (if map_of es (fst p) = None then pending else AList.delete (fst p) pending)"
  have step: "merge_paragraphs (?J (p # db) @ [[]]) pending out = merge_paragraphs (?J db @ [[]]) pending1 (out @ paragraph_text (?f p) @ nl)"
    using pend paragraph_name_join [OF p] by (cases "map_of es (fst p)") (simp_all add: pending1_def paragraph_text_join)
  have "\<And>q. q \<in> set db \<Longrightarrow> map_of pending1 (fst q) = map_of (entries_of es) (fst q)"
    using Cons.prems(3) new by (simp add: pending1_def delete_conv')
  moreover have "distinct (map fst db)" using Cons.prems(2) by simp
  ultimately obtain pending' where rest: "merge_paragraphs (?J db @ [[]]) pending1 (out @ paragraph_text (?f p) @ nl) =
      (pending', (out @ paragraph_text (?f p) @ nl) @ render (map ?f db))"
    "\<forall>n. map_of pending' n = (if n \<in> fst ` set db then None else map_of pending1 n)"
    using Cons.IH [OF ok] by blast
  have "map_of pending1 n = (if n = fst p then None else map_of pending n)" for n
    using pend by (auto simp: pending1_def delete_conv')
  then have "\<forall>n. map_of pending' n = (if n \<in> fst ` set (p # db) then None else map_of pending n)" using rest(2) by simp
  moreover have "(out @ paragraph_text (?f p) @ nl) @ render (map ?f db) = out @ render (map ?f (p # db))" by (simp add: render_def)
  ultimately show ?case unfolding step rest(1) by blast
qed

lemma append_pending_render:
  assumes "distinct (map fst es)" "\<And>e. e \<in> set es \<Longrightarrow> (map_of pending (fst e) \<noteq> None) = (fst e \<notin> N)"
  shows "append_pending (entries_of es) pending out = out @ render (filter (\<lambda>e. fst e \<notin> N) es)"
  using assms
proof (induction es arbitrary: pending out)
  case (Cons e es)
  have new: "\<And>q. q \<in> set es \<Longrightarrow> fst q \<noteq> fst e" using Cons.prems(1) unfolding list.map distinct.simps set_map by (metis imageI)
  have "\<And>q. q \<in> set es \<Longrightarrow> (map_of (AList.delete (fst e) pending) (fst q) \<noteq> None) = (fst q \<notin> N)"
    "\<And>q. q \<in> set es \<Longrightarrow> (map_of pending (fst q) \<noteq> None) = (fst q \<notin> N)"
    using Cons.prems(2) new by (simp_all add: delete_conv' del: not_None_eq)
  then show ?case
    using Cons.IH [of "AList.delete (fst e) pending"] Cons.IH [of pending] Cons.prems
    by (simp add: entries_of_def render_def del: not_None_eq)
qed (simp add: entries_of_def render_def)

lemma merge_status_render:
  assumes "db_ok db" "distinct (map fst db)" "distinct (map fst es)"
  shows "merge_status_entries (render db) (entries_of es) = render (merged db es)"
proof -
  define pending where "pending = fold (\<lambda>(name, entry). AList.update name entry) (entries_of es) []"
  have "map_of (fold (\<lambda>(name, entry). AList.update name entry) (entries_of fs) m) n =
      (case map_of (entries_of fs) n of None \<Rightarrow> map_of m n | Some e \<Rightarrow> Some e)" if "distinct (map fst fs)" for fs m n
    using that
  proof (induction fs arbitrary: m)
    case (Cons f fs)
    have "map_of (entries_of fs) (fst f) = None"
      using Cons.prems by (simp add: map_of_entries map_of_eq_None_iff)
    then show ?case using Cons by (auto simp: entries_of_def update_conv' split: option.split)
  qed (simp add: entries_of_def)
  then have pend: "map_of pending n = map_of (entries_of es) n" for n
    using assms(3) by (simp add: pending_def split: option.split)
  obtain pending' where run: "merge_paragraphs (split_paragraphs (render db)) pending [] =
      (pending', render (map (\<lambda>p. case map_of es (fst p) of Some rest \<Rightarrow> (fst p, rest) | None \<Rightarrow> p) db))"
    and left: "\<forall>n. map_of pending' n = (if n \<in> fst ` set db then None else map_of pending n)"
    using merge_paragraphs_render [OF assms(1,2), of pending es "[]"] pend by (auto simp: split_render [OF assms(1)])
  have "(map_of pending' (fst e) \<noteq> None) = (fst e \<notin> fst ` set db)" if "e \<in> set es" for e
  proof -
    have "map_of es (fst e) \<noteq> None" using that unfolding map_of_eq_None_iff by simp
    then show ?thesis using left pend by (auto simp: map_of_entries)
  qed
  then show ?thesis
    using append_pending_render [OF assms(3), of pending' "fst ` set db"] run
    by (simp add: merge_status_entries_def merged_def render_def flip: pending_def)
qed


lemma map_of_fold_note:
  assumes "distinct (map fst db)"
  shows "map_of (fold note_paragraph db inst) n =
    (case map_of db n of Some rest \<Rightarrow> if installed_line \<in> set rest then Some (paragraph_info (n, rest)) else map_of inst n
     | None \<Rightarrow> map_of inst n)"
  using assms
proof (induction db arbitrary: inst)
  case (Cons p db)
  have "map_of db (fst p) = None" using Cons.prems by (simp add: map_of_eq_None_iff)
  then show ?case using Cons by (cases p) (auto simp: map_of_note split: option.split)
qed simp

lemma distinct_merged:
  assumes "distinct (map fst db)" "distinct (map fst es)"
  shows "distinct (map fst (merged db es))"
proof -
  have names: "map fst (map (\<lambda>p. case map_of es (fst p) of Some rest \<Rightarrow> (fst p, rest) | None \<Rightarrow> p) db) = map fst db"
    by (auto split: option.split)
  have "x \<notin> set (map fst db)" if x: "x \<in> set (map fst (filter (\<lambda>e. fst e \<notin> fst ` set db) es))" for x
  proof -
    obtain e where "x = fst e" "e \<in> set (filter (\<lambda>e. fst e \<notin> fst ` set db) es)" using x unfolding set_map by (rule imageE)
    then show ?thesis by simp
  qed
  then have apart: "set (map fst db) \<inter> set (map fst (filter (\<lambda>e. fst e \<notin> fst ` set db) es)) = {}" by blast
  show ?thesis
    unfolding merged_def map_append names distinct_append by (intro conjI assms(1) apart distinct_map_filter assms(2))
qed

lemma map_of_merged:
  assumes "distinct (map fst db)" "distinct (map fst es)"
  shows "map_of (merged db es) n = (case map_of es n of Some rest \<Rightarrow> Some rest | None \<Rightarrow> map_of db n)"
proof -
  let ?f = "\<lambda>p. case map_of es (fst p) of Some rest \<Rightarrow> (fst p, rest) | None \<Rightarrow> p"
  have "map_of (map ?f ps) n = (case map_of ps n of None \<Rightarrow> None | Some x \<Rightarrow> (case map_of es n of Some rest \<Rightarrow> Some rest | None \<Rightarrow> Some x))" for ps
    by (induction ps) (auto split: option.split)
  moreover have "map_of (filter (\<lambda>e. fst e \<notin> N) qs) n = (if n \<in> N then None else map_of qs n)" for N and qs :: "dpkg_paragraph list"
    by (induction qs) auto
  moreover have "n \<in> fst ` set db \<longleftrightarrow> map_of db n \<noteq> None" by (simp add: map_of_eq_None_iff)
  ultimately show ?thesis unfolding merged_def map_of_append map_add_def by (auto split: option.split)
qed

text \<open>
  Merging status paragraphs into a well-formed file of one paragraph per package: the packages of
  the new paragraphs get exactly them, all others keep theirs, and the text is again well formed with
  one paragraph per package, so that an upgrade never leaves two entries.
\<close>

lemma merge_updates_exactly_the_entries:
  assumes "db_ok db" "distinct (map fst db)" "db_ok es" "distinct (map fst es)"
  shows "\<exists>db'. merge_status_entries (render db) (entries_of es) = render db' \<and> db_ok db' \<and> distinct (map fst db') \<and>
    (\<forall>n. map_of db' n = (case map_of es n of Some rest \<Rightarrow> Some rest | None \<Rightarrow> map_of db n)) \<and>
    (\<forall>n. map_of (removal_installed (render db')) n =
       (case map_of es n of
          Some rest \<Rightarrow> if installed_line \<in> set rest then Some (paragraph_info (n, rest)) else None
        | None \<Rightarrow> map_of (removal_installed (render db)) n))"
proof -
  let ?db = "merged db es"
  have "paragraph_ok (n, rest)" if "map_of es n = Some rest" for n rest
    using map_of_SomeD [OF that] assms(3) by (simp add: db_ok_def list_all_iff)
  then have ok: "db_ok ?db"
    using assms(1,3) by (auto simp: db_ok_def merged_def list_all_iff split: option.split)
  have d: "distinct (map fst ?db)" by (rule distinct_merged [OF assms(2,4)])
  have "map_of (removal_installed (render ?db)) n =
      (case map_of es n of Some rest \<Rightarrow> if installed_line \<in> set rest then Some (paragraph_info (n, rest)) else None
       | None \<Rightarrow> map_of (removal_installed (render db)) n)" for n
    using map_of_merged [OF assms(2,4), of n]
    by (simp add: removal_installed_render ok assms(1) map_of_fold_note d assms(2) split: option.split)
  then show ?thesis using merge_status_render [OF assms(1,2,4)] ok d map_of_merged [OF assms(2,4)] by blast
qed

text \<open>The paragraph a control file becomes.\<close>

definition prepared :: "dpkg_paragraph \<Rightarrow> dpkg_paragraph" where
  "prepared p =
     (fst p, if list_ex (starts_with ''Status:'') (snd p)
             then map (\<lambda>l. if starts_with ''Status:'' l then installed_line else l) (snd p)
             else installed_line # snd p)"

lemma installed_line_facts:
  "line_ok installed_line" "\<not> starts_with ''Package:'' installed_line" "starts_with ''Status:'' installed_line"
  by code_simp+

lemma prepared_ok: "paragraph_ok p \<Longrightarrow> paragraph_ok (prepared p)"
  using installed_line_facts by (auto simp: paragraph_ok_def prepared_def list_all_iff split: prod.splits)

lemma installed_in_prepared: "installed_line \<in> set (snd (prepared p))"
  by (force simp: prepared_def list_ex_iff)

lemma prepare_status_entry_text:
  assumes ok: "paragraph_ok p"
  shows "prepare_status_entry (paragraph_text p) = paragraph_text (prepared p)"
proof -
  have lines: "str_lines (paragraph_text p) = (''Package: '' @ fst p) # snd p"
    using str_lines_concat [of "paragraph_lines p" "[]"] paragraph_lines_ok [OF ok]
    by (simp add: paragraph_text_def paragraph_lines_def line_ok_def list_all_iff str_lines_def)
  have first: "\<not> starts_with ''Status:'' (''Package: '' @ fst p)" "starts_with ''Package:'' (''Package: '' @ fst p)"
    by (auto simp: starts_with_iff)
  define has where "has = list_ex (starts_with ''Status:'') (snd p)"
  let ?f = "\<lambda>line. if starts_with ''Status:'' line then installed_line @ nl
      else line @ nl @ (if \<not> has \<and> starts_with ''Package:'' line then installed_line @ nl else [])"
  have any: "list_ex (starts_with ''Status:'') ((''Package: '' @ fst p) # snd p) = has"
    using first(1) by (simp add: has_def)
  have rest: "list_all (\<lambda>l. \<not> starts_with ''Package:'' l) (snd p)"
    using ok by (auto simp: paragraph_ok_def list_all_iff split: prod.splits)
  have body: "concat (map ?f (snd p)) = concat (map (\<lambda>l. (if starts_with ''Status:'' l then installed_line else l) @ nl) (snd p))"
    using rest by (intro arg_cong [where f = concat] map_cong) (auto simp: list_all_iff)
  have plain: "map (\<lambda>l. (if starts_with ''Status:'' l then installed_line else l) @ nl) (snd p) = map (\<lambda>l. l @ nl) (snd p)" if "\<not> has"
    using that by (intro map_cong) (auto simp: has_def list_ex_iff)
  have run: "prepare_status_entry (paragraph_text p) = ?f (''Package: '' @ fst p) @ concat (map ?f (snd p))"
    unfolding prepare_status_entry_def lines Let_def any list.map concat.simps ..
  show ?thesis
  proof (cases has)
    case True
    then have "prepared p = (fst p, map (\<lambda>l. if starts_with ''Status:'' l then installed_line else l) (snd p))"
      by (simp add: prepared_def has_def)
    then show ?thesis unfolding run body using first True by (simp add: paragraph_text_def paragraph_lines_def o_def)
  next
    case False
    then have "prepared p = (fst p, installed_line # snd p)" by (simp add: prepared_def has_def)
    then show ?thesis
      unfolding run body plain [OF False] using first False by (simp add: paragraph_text_def paragraph_lines_def)
  qed
qed

lemma removal_line_status: "starts_with ''Status:'' l \<Longrightarrow> removal_line l (n, info, reading) = (n, info, False)"
  by (auto simp: starts_with_iff removal_line_def strip_prefix_def)

lemma fold_removal_status:
  "fold removal_line (map (\<lambda>l. if starts_with ''Status:'' l then installed_line else l) ls) st = fold removal_line ls st"
proof (induction ls arbitrary: st)
  case (Cons l ls)
  have "removal_line (if starts_with ''Status:'' l then installed_line else l) st = removal_line l st"
    using installed_line_facts(3) by (cases st) (simp add: removal_line_status)
  then show ?case using Cons by simp
qed simp

lemma paragraph_info_prepared: "paragraph_info (prepared p) = paragraph_info p"
  by (simp add: paragraph_info_def prepared_def fold_removal_status removal_line_status installed_line_facts)

section \<open>Properties\<close>

text \<open>
  C5: The status updates of an accepted removal succeed on every well-formed status file. After them
  exactly the requested packages are gone from the installed ones, and every dependency group that
  an installed package satisfied by name is still satisfied.
\<close>

theorem removal_leaves_consistent_status:
  assumes ok: "db_ok db" and plan: "plan_debian_removal (render db) names = Inr order"
  shows "\<exists>status. mark_removed order (render db) = Inr status \<and>
    (\<forall>n. map_of (removal_installed status) n = (if n \<in> set names then None else map_of (removal_installed (render db)) n)) \<and>
    (\<forall>q info g. map_of (removal_installed status) q = Some info \<longrightarrow> g \<in> set (rp_groups info) \<longrightarrow>
       (\<exists>n \<in> set g. map_of (removal_installed (render db)) n \<noteq> None) \<longrightarrow> (\<exists>n \<in> set g. map_of (removal_installed status) n \<noteq> None))"
proof -
  have order: "set order = set names" using plan_permutation [OF plan] by blast
  have safe: "\<forall>p \<in> set names. \<exists>info. map_of (removal_installed (render db)) p = Some info \<and> \<not> rp_essential info \<and> \<not> rp_protected info"
    and kept: "\<And>q info g. map_of (removal_installed (render db)) q = Some info \<Longrightarrow> q \<notin> set names \<Longrightarrow> g \<in> set (rp_groups info) \<Longrightarrow>
        (\<exists>n \<in> set g. map_of (removal_installed (render db)) n \<noteq> None) \<Longrightarrow>
        (\<exists>n \<in> set g. map_of (removal_installed (render db)) n \<noteq> None \<and> n \<notin> set names)"
    using removal_accepted_iff [of "render db" names] plan by (auto simp del: not_None_eq)
  have "set order \<subseteq> fst ` set db"
  proof
    fix n
    assume "n \<in> set order"
    then have "map_of (removal_installed (render db)) n \<noteq> None" using safe order by auto
    then show "n \<in> fst ` set db" by (rule installed_in_db [OF ok])
  qed
  then obtain db' where db': "mark_removed order (render db) = Inr (render db')"
    "\<And>n. map_of (removal_installed (render db')) n = (if n \<in> set names then None else map_of (removal_installed (render db)) n)"
    using mark_removed_render [OF ok] order by metis
  have "\<exists>n \<in> set g. map_of (removal_installed (render db')) n \<noteq> None"
    if q: "map_of (removal_installed (render db')) q = Some info" "g \<in> set (rp_groups info)"
      "\<exists>n \<in> set g. map_of (removal_installed (render db)) n \<noteq> None" for q info g
  proof -
    have "map_of (removal_installed (render db)) q = Some info" "q \<notin> set names"
      using q(1) db'(2) [of q] by (auto split: if_splits)
    from kept [OF this q(2,3)] show ?thesis unfolding db'(2) by auto
  qed
  then show ?thesis using db' by blast
qed


text \<open>
  C20: Configuring packages on a well-formed status file of one paragraph per package: the paragraphs
  prepared from their control files are merged so that every configured package is installed, with
  the dependencies and flags of its control file; all other packages are as before; and the file
  stays well formed with one paragraph per package.
\<close>

theorem configured_packages_are_installed:
  assumes "db_ok db" "distinct (map fst db)" "db_ok controls" "distinct (map fst controls)"
  shows "\<exists>db'. merge_status_entries (render db) (map (\<lambda>c. (fst c, prepare_status_entry (paragraph_text c))) controls) = render db' \<and>
    db_ok db' \<and> distinct (map fst db') \<and>
    (\<forall>n. map_of (removal_installed (render db')) n =
       (case map_of controls n of Some rest \<Rightarrow> Some (paragraph_info (n, rest)) | None \<Rightarrow> map_of (removal_installed (render db)) n))"
proof -
  let ?es = "map prepared controls"
  have names: "map fst ?es = map fst controls" by (simp add: prepared_def)
  have entries: "map (\<lambda>c. (fst c, prepare_status_entry (paragraph_text c))) controls = entries_of ?es"
    using assms(3) by (auto simp: entries_of_def db_ok_def list_all_iff prepare_status_entry_text, simp add: prepared_def)
  have es: "map_of ?es n = map_option (\<lambda>rest. snd (prepared (n, rest))) (map_of controls n)" for n
    by (induction controls) (auto simp: prepared_def)
  have ok: "db_ok ?es" using assms(3) prepared_ok by (auto simp: db_ok_def list_all_iff)
  have d: "distinct (map fst ?es)" unfolding names by (rule assms(4))
  obtain db' where db': "merge_status_entries (render db) (entries_of ?es) = render db'" "db_ok db'" "distinct (map fst db')"
    "\<And>n. map_of (removal_installed (render db')) n = (case map_of ?es n of
        Some rest \<Rightarrow> if installed_line \<in> set rest then Some (paragraph_info (n, rest)) else None
      | None \<Rightarrow> map_of (removal_installed (render db)) n)"
    using merge_updates_exactly_the_entries [OF assms(1,2) ok d] by blast
  have "(n, snd (prepared (n, rest))) = prepared (n, rest)" for n rest by (simp add: prepared_def)
  then have "map_of (removal_installed (render db')) n =
      (case map_of controls n of Some rest \<Rightarrow> Some (paragraph_info (n, rest)) | None \<Rightarrow> map_of (removal_installed (render db)) n)" for n
    unfolding db'(4) es using installed_in_prepared paragraph_info_prepared by (auto split: option.split)
  then show ?thesis using db' entries by auto
qed

definition sample_db :: "dpkg_paragraph list" where
  "sample_db = [(''lib'', [installed_line]), (''tool'', [installed_line, ''Depends: lib''])]"

theorem removal_leaves_consistent_status_witness:
  "plan_debian_removal (render sample_db) [''lib'', ''tool''] = Inr [''tool'', ''lib''] \<and>
   (\<exists>status. mark_removed [''tool'', ''lib''] (render sample_db) = Inr status \<and> map_of (removal_installed status) ''tool'' = None)"
proof -
  have ok: "db_ok sample_db" by code_simp
  have plan: "plan_debian_removal (render sample_db) [''lib'', ''tool''] = Inr [''tool'', ''lib'']" by code_simp
  from removal_leaves_consistent_status [OF ok plan] obtain status where
    status: "mark_removed [''tool'', ''lib''] (render sample_db) = Inr status"
    and gone: "\<forall>n. map_of (removal_installed status) n =
      (if n \<in> set [''lib'', ''tool''] then None else map_of (removal_installed (render sample_db)) n)" by blast
  have "map_of (removal_installed status) ''tool'' = None" using gone [THEN spec, of "''tool''"] by simp
  then show ?thesis using status plan by blast
qed

theorem configured_packages_are_installed_witness:
  "\<exists>db'. merge_status_entries (render sample_db)
       (map (\<lambda>c. (fst c, prepare_status_entry (paragraph_text c))) [(''tool'', [''Depends: lib, new'']), (''new'', [])]) = render db' \<and>
     map_of (removal_installed (render db')) ''new'' = Some (paragraph_info (''new'', []))"
proof -
  have ok: "db_ok sample_db" "distinct (map fst sample_db)" "db_ok [(''tool'', [''Depends: lib, new'']), (''new'', [])]"
    "distinct (map fst [(''tool'', [''Depends: lib, new'']), (''new'', [] :: string list)])" by code_simp+
  from configured_packages_are_installed [OF ok] obtain db' where
    db': "merge_status_entries (render sample_db)
       (map (\<lambda>c. (fst c, prepare_status_entry (paragraph_text c))) [(''tool'', [''Depends: lib, new'']), (''new'', [])]) = render db'"
    and new: "\<forall>n. map_of (removal_installed (render db')) n = (case map_of [(''tool'', [''Depends: lib, new'']), (''new'', [])] n of
        Some rest \<Rightarrow> Some (paragraph_info (n, rest)) | None \<Rightarrow> map_of (removal_installed (render sample_db)) n)" by blast
  have "map_of (removal_installed (render db')) ''new'' = Some (paragraph_info (''new'', []))"
    using new [THEN spec, of "''new''"] by simp
  then show ?thesis using db' by blast
qed

lemma installed_from:
  "map_of (fold note_paragraph db inst) q = Some info \<Longrightarrow>
     map_of inst q = Some info \<or> (\<exists>rest. (q, rest) \<in> set db \<and> info = paragraph_info (q, rest))"
proof (induction db arbitrary: inst)
  case (Cons p db)
  then have "map_of (note_paragraph p inst) q = Some info \<or> (\<exists>rest. (q, rest) \<in> set db \<and> info = paragraph_info (q, rest))" by simp
  then show ?case by (cases p) (auto simp: map_of_note split: if_splits)
qed simp

lemma installed_from_other: "q \<notin> fst ` set db \<Longrightarrow> map_of (fold note_paragraph db inst) q = map_of inst q"
  by (induction db arbitrary: inst) (auto simp: map_of_note)

text \<open>
  C36: What the removal check does not see. In a well-formed status file, a package is removed alone
  whenever its last paragraph is an installed one that is neither essential nor protected and no other
  package names it as a dependency. Earlier paragraphs of the same name, as for another architecture,
  may say that it is essential, and other packages may depend on names that it provides.
\<close>

theorem removal_check_blind_spots:
  assumes "db_ok (before @ (n, ls) # after)" "n \<notin> fst ` set after" "installed_line \<in> set ls"
    and "\<not> rp_essential (paragraph_info (n, ls))" "\<not> rp_protected (paragraph_info (n, ls))"
    and "\<And>q rest g. (q, rest) \<in> set (before @ after) \<Longrightarrow> q \<noteq> n \<Longrightarrow> g \<in> set (rp_groups (paragraph_info (q, rest))) \<Longrightarrow> n \<notin> set g"
  shows "plan_debian_removal (render (before @ (n, ls) # after)) [n] = Inr [n]"
proof -
  let ?db = "before @ (n, ls) # after" and ?I = "removal_installed (render (before @ (n, ls) # after))"
  have inst: "?I = fold note_paragraph ?db []" by (rule removal_installed_render [OF assms(1)])
  have n: "map_of ?I n = Some (paragraph_info (n, ls))"
    unfolding inst using assms(3) by (simp add: installed_from_other [OF assms(2)] map_of_note)
  have "n \<notin> set g" if "map_of ?I q = Some info" "q \<noteq> n" "g \<in> set (rp_groups info)" for q info g
    using installed_from [of ?db "[]" q info] that assms(6) [of q _ g] unfolding inst by auto
  then have "is_ok (plan_debian_removal (render ?db) [n])"
    unfolding removal_accepted_iff using n assms(4,5) by (auto simp del: not_None_eq)
  then obtain order where order: "plan_debian_removal (render ?db) [n] = Inr order" by (auto simp: is_ok_iff)
  then have "distinct order" "set order = {n}" using plan_permutation by fastforce+
  moreover from this have "length order = 1" using distinct_card [of order] by simp
  ultimately have "order = [n]" by (cases order) auto
  then show ?thesis using order by simp
qed

text \<open>An essential package that provides a name another one needs, and its second architecture.\<close>

definition two_architectures :: "dpkg_paragraph list" where
  "two_architectures =
     [(''base'', [installed_line, ''Essential: yes'', ''Provides: shell'']), (''cron'', [installed_line, ''Depends: shell'']),
      (''base'', [installed_line, ''Architecture: i386'', ''Provides: shell''])]"

lemma two_architectures_facts:
  "db_ok two_architectures" "\<not> rp_essential (paragraph_info (two_architectures ! 2))" "\<not> rp_protected (paragraph_info (two_architectures ! 2))"
  "rp_groups (paragraph_info (two_architectures ! 1)) = [[''shell'']]" "rp_groups (paragraph_info (two_architectures ! 0)) = []"
  "plan_debian_removal (render (take 2 two_architectures)) [''base''] = Inl (RemovalProtected ''base'')"
  by code_simp+

theorem removal_check_blind_spots_witness:
  "plan_debian_removal (render two_architectures) [''base''] = Inr [''base''] \<and>
   plan_debian_removal (render (take 2 two_architectures)) [''base''] = Inl (RemovalProtected ''base'')"
proof -
  let ?ls = "[installed_line, ''Architecture: i386'', ''Provides: shell'']"
  have db: "two_architectures = take 2 two_architectures @ (''base'', ?ls) # []" by (simp add: two_architectures_def)
  have "plan_debian_removal (render (take 2 two_architectures @ (''base'', ?ls) # [])) [''base''] = Inr [''base'']"
    by (rule removal_check_blind_spots) (use two_architectures_facts in \<open>auto simp: two_architectures_def\<close>)
  then show ?thesis using two_architectures_facts(6) db by simp
qed

end
