(* ===== verification/Deb_Transaction.thy ===== *)
theory Deb_Transaction
  imports Deb_Resolver Input_Validation Deb_Rollback
begin

text \<open>
  The transaction object of \<^verbatim>\<open>package_managers/debian_db/transaction.rs\<close>: how it is made from a
  resolution, the check of its identifiers before they become file names, and the journal that marks
  a transaction in flight. The time, the process id and the JSON form of the journal
  (\<^verbatim>\<open>serde_json\<close>) are arguments; the text of error messages is not modelled.
\<close>

section \<open>Transactions\<close>

datatype transaction_state = Pending | Downloading | Configuring | Completed | RolledBack

record package_action =
  pa_name :: string
  pa_version :: string
  pa_deb_path :: "path option"
  pa_url :: "string option"
  pa_size :: "64 word"
  pa_sha256 :: "string option"

record transaction =
  tx_state :: transaction_state
  tx_to_install :: "package_action list"
  tx_to_remove :: "package_action list"
  tx_to_upgrade :: "package_action list"
  tx_temp_dir :: "path option"
  tx_backups :: "(path \<times> path) list"
  tx_installed_files :: "path list"
  tx_installed_files_by_package :: "(string \<times> path list) list"

definition action_of :: "string \<Rightarrow> string \<Rightarrow> package_action" where
  "action_of name version =
     \<lparr>pa_name = name, pa_version = version, pa_deb_path = None, pa_url = None, pa_size = 0, pa_sha256 = None\<rparr>"

definition new_transaction :: transaction where
  "new_transaction =
     \<lparr>tx_state = Pending, tx_to_install = [], tx_to_remove = [], tx_to_upgrade = [], tx_temp_dir = None,
      tx_backups = [], tx_installed_files = [], tx_installed_files_by_package = []\<rparr>"

definition from_resolution :: "resolution_result \<Rightarrow> transaction" where
  "from_resolution result =
     new_transaction\<lparr>tx_to_install := map (\<lambda>name. action_of name []) (rr_to_install result),
       tx_to_upgrade := map (\<lambda>(name, old, new). action_of name new) (rr_to_upgrade result),
       tx_to_remove := map (\<lambda>name. action_of name []) (rr_to_remove result)\<rparr>"

definition add_remove :: "string \<Rightarrow> transaction \<Rightarrow> transaction" where
  "add_remove name tx = tx\<lparr>tx_to_remove := tx_to_remove tx @ [action_of name []]\<rparr>"

datatype identifier_error =
    InvalidName string validation_error
  | NameHasSeparator string
  | InvalidVersion string validation_error

definition validate_action :: "package_action \<Rightarrow> (identifier_error, unit) result" where
  "validate_action a =
     rbind (map_sum (InvalidName (pa_name a)) id (validate_package_name (pa_name a))) (\<lambda>_.
     rbind (ensure (CHR ''/'' \<notin> set (pa_name a) \<and> CHR 0x5C \<notin> set (pa_name a)) (NameHasSeparator (pa_name a))) (\<lambda>_.
     if pa_version a \<noteq> [] then map_sum (InvalidVersion (pa_name a)) id (validate_version (pa_version a)) else Inr ()))"

definition validate_action_identifiers :: "transaction \<Rightarrow> (identifier_error, unit) result" where
  "validate_action_identifiers tx = for_result validate_action (tx_to_install tx @ tx_to_upgrade tx @ tx_to_remove tx)"

definition total_download_size :: "transaction \<Rightarrow> 64 word" where
  "total_download_size tx = sum_list (map pa_size (tx_to_install tx)) + sum_list (map pa_size (tx_to_upgrade tx))"

definition package_count :: "transaction \<Rightarrow> nat" where
  "package_count tx = length (tx_to_install tx) + length (tx_to_upgrade tx) + length (tx_to_remove tx)"

definition require_installed_version :: "string \<Rightarrow> string option \<Rightarrow> (string, string) result" where
  "require_installed_version name version =
     (case version of Some v \<Rightarrow> if v \<noteq> [] then Inr v else Inl name | None \<Rightarrow> Inl name)"

definition require_package_installed :: "string \<Rightarrow> bool \<Rightarrow> (string, unit) result" where
  "require_package_installed name present = ensure present name"

text \<open>A download may grow to twice its declared size and one MiB more; arithmetic saturates.\<close>

definition saturating :: "nat \<Rightarrow> nat" where
  "saturating n = min n (2 ^ 64 - 1)"

definition max_download_bytes :: "64 word \<Rightarrow> nat option" where
  "max_download_bytes expected_size =
     (if 0 < expected_size then Some (saturating (saturating (unat expected_size * 2) + 1024 * 1024)) else None)"

definition enforce_download_cap :: "nat \<Rightarrow> nat option \<Rightarrow> (nat, unit) result" where
  "enforce_download_cap downloaded max_bytes =
     (case max_bytes of Some m \<Rightarrow> ensure (downloaded \<le> m) downloaded | None \<Rightarrow> Inr ())"

section \<open>The journal\<close>

record transaction_journal =
  tj_started_at_unix :: nat
  tj_pid :: nat
  tj_action :: string
  tj_packages :: "string list"

datatype journal_error = InterruptedTransaction "transaction_journal option" | JournalIo io_kind

definition stale_transaction_journal ::
  "(fs_op \<Rightarrow> bool) \<Rightarrow> (string \<Rightarrow> transaction_journal option) \<Rightarrow> path \<Rightarrow> file_system \<Rightarrow> journal_error option" where
  "stale_transaction_journal fails from_json path fs =
     (case read_file fails fs path of
        Inl _ \<Rightarrow> None
      | Inr content \<Rightarrow> Some (InterruptedTransaction (from_json content)))"

definition write_transaction_journal_at ::
  "(fs_op \<Rightarrow> bool) \<Rightarrow> (transaction_journal \<Rightarrow> string) \<Rightarrow> transaction_journal \<Rightarrow> path \<Rightarrow> (journal_error, file_system, unit) io" where
  "write_transaction_journal_at fails to_json journal path = (\<lambda>fs.
     case atomic_write_file_sync_inner fails path (to_json journal) fs of (r, fs') \<Rightarrow> (map_sum JournalIo id r, fs'))"

text \<open>The guard that is returned is its path.\<close>

definition acquire_at ::
  "(fs_op \<Rightarrow> bool) \<Rightarrow> (string \<Rightarrow> transaction_journal option) \<Rightarrow> (transaction_journal \<Rightarrow> string) \<Rightarrow> transaction_journal \<Rightarrow> path \<Rightarrow>
     (journal_error, file_system, path) io" where
  "acquire_at fails from_json to_json journal path =
     abind (aread (\<lambda>fs. case stale_transaction_journal fails from_json path fs of Some e \<Rightarrow> Inl e | None \<Rightarrow> Inr ())) (\<lambda>_.
     abind (write_transaction_journal_at fails to_json journal path) (\<lambda>_.
     aret path))"

text \<open>Dropping the guard removes the file; an error is only logged.\<close>

definition drop_journal :: "(fs_op \<Rightarrow> bool) \<Rightarrow> path \<Rightarrow> file_system \<Rightarrow> file_system" where
  "drop_journal fails guard fs =
     (case locate fs guard of
        Inl _ \<Rightarrow> fs
      | Inr q \<Rightarrow>
          (case remove_at fails guard fs of Inr fs' \<Rightarrow> if map_of fs q = Some Dir then fs else fs' | Inl _ \<Rightarrow> fs))"


section \<open>Reading back an atomic write\<close>

lemma open_at_plain:
  "ns \<noteq> [] \<Longrightarrow> (\<And>k. 0 < k \<Longrightarrow> k < length ns \<Longrightarrow> is_dir fs (cur @ take k ns)) \<Longrightarrow> map_of fs (cur @ ns) = Some (File c) \<Longrightarrow>
     open_at fs l cur (map Normal ns) = Inr (cur @ ns)"
proof (induction ns arbitrary: cur)
  case (Cons n ns)
  show ?case
  proof (cases "ns = []")
    case True
    then show ?thesis using Cons.prems(3) by simp
  next
    case False
    have "is_dir fs ((cur @ [n]) @ take k ns)" if "0 < k" "k < length ns" for k
      using Cons.prems(2) [of "Suc k"] that by simp
    moreover have "is_dir fs (cur @ [n])" using Cons.prems(2) [of 1] False by simp
    ultimately show ?thesis using Cons.IH [of "cur @ [n]"] Cons.prems(3) False by simp
  qed
qed simp

lemma read_file_real:
  assumes "tree_ok fs" "p \<noteq> []" "map_of fs p = Some (File c)" "\<not> fails (OpRead p)"
  shows "read_file fails fs p = Inr c"
proof -
  have "open_at fs 40 [] (map Normal p) = Inr ([] @ p)"
    by (rule open_at_plain [OF assms(2)]) (use assms tree_ok_prefix [OF assms(1), of p] take_strict_prefix [of _ p] in auto)
  then show ?thesis using assms(3,4) by (simp add: read_file_def)
qed

lemma open_at_missing:
  assumes "tree_ok fs" "p \<noteq> []" "is_dir fs (butlast p)" "map_of fs p = None"
  shows "read_file fails fs p = Inl IoOther \<or> read_file fails fs p = Inl IoNotFound"
proof -
  have "open_at fs 40 cur (map Normal ns) = Inl IoNotFound"
    if "ns \<noteq> []" "\<And>k. 0 < k \<Longrightarrow> k < length ns \<Longrightarrow> is_dir fs (cur @ take k ns)" "map_of fs (cur @ ns) = None" for cur ns
    using that
  proof (induction ns arbitrary: cur)
    case (Cons n ns)
    have "is_dir fs ((cur @ [n]) @ take k ns)" if "0 < k" "k < length ns" for k
      using Cons.prems(2) [of "Suc k"] that by simp
    then show ?case using Cons.IH [of "cur @ [n]"] Cons.prems(2) [of 1] Cons.prems(3) by (cases "ns = []") auto
  qed simp
  from this [of p "[]"] have "open_at fs 40 [] (map Normal p) = Inl IoNotFound"
    using assms is_dir_take [OF assms(1), of "length p - 1" p] by (auto simp: butlast_conv_take)
  then show ?thesis by (simp add: read_file_def)
qed

lemma create_dir_all_exists:
  assumes "tree_ok fs" "is_dir fs d"
  shows "create_dir_all fails d fs = (Inr (), fs)"
proof -
  have "locate fs d = Inr d"
  proof (cases "d = []")
    case False
    have "is_dir fs (butlast d)" using tree_ok_parent [OF assms(1), of d] assms(2) by simp
    then show ?thesis by (rule locate_real [OF assms(1) False])
  qed (simp add: locate_def)
  then have "create_dir fails fs d = Inl IoOther \<or> create_dir fails fs d = Inl IoExists"
    using assms(2) by (simp add: create_dir_def make_node_def)
  moreover have "leads_to_dir fs d"
    using walk_plain [of d fs "[]" 40] is_dir_take [OF assms(1), of "length d" d] assms(2) by (simp add: leads_to_dir_def)
  ultimately show ?thesis by (subst create_dir_all.simps) auto
qed

lemma atomic_write_real:
  assumes tree: "tree_ok fs" and p: "p \<noteq> []" "is_dir fs (butlast p)" and run: "atomic_write_file_sync_inner fails p c fs = (Inr (), fs')"
  shows "map_of fs' = (map_of fs)(p \<mapsto> File c)" and "tree_ok fs'"
proof -
  have "replace_file fails fs p c = Inr fs'"
    using run by (auto simp: atomic_write_file_sync_inner_def create_dir_all_exists [OF tree p(2)]
      split: sum.splits io_kind.splits if_splits)
  from replace_file_Inr [OF this tree p(1)] obtain q where "locate fs p = Inr q" "map_of fs' = (map_of fs)(q \<mapsto> File c)" "tree_ok fs'" .
  then show "map_of fs' = (map_of fs)(p \<mapsto> File c)" and "tree_ok fs'" using locate_real [OF tree p] by simp_all
qed

lemma acquire_at_Inr:
  "acquire_at fails from_json to_json j p fs = (Inr g, fs') \<longleftrightarrow>
     g = p \<and> (\<exists>e. read_file fails fs p = Inl e) \<and> atomic_write_file_sync_inner fails p (to_json j) fs = (Inr (), fs')"
  by (auto simp: acquire_at_def abind_def aread_def aret_def write_transaction_journal_at_def stale_transaction_journal_def
      map_sum_Inr split: sum.splits prod.splits)

section \<open>Properties\<close>

text \<open>
  C24: The journal of a transaction that was killed stops the next one: once a journal was acquired,
  in a directory that is there, and not dropped, every later attempt that can read it is refused, with
  what was written, and changes nothing. Dropping the guard removes exactly the marker.
\<close>

theorem journal_detects_interruption:
  assumes "tree_ok fs" "p \<noteq> []" "is_dir fs (butlast p)" "acquire_at fails from_json to_json j p fs = (Inr g, fs')"
    "\<not> fails' (OpRead p)"
  shows "acquire_at fails' from_json to_json j' p fs' = (Inl (InterruptedTransaction (from_json (to_json j))), fs') \<and>
    map_of (drop_journal (\<lambda>_. False) g fs') = (map_of fs')(p := None) \<and>
    stale_transaction_journal fails' from_json p (drop_journal (\<lambda>_. False) g fs') = None"
proof -
  have g: "g = p" "atomic_write_file_sync_inner fails p (to_json j) fs = (Inr (), fs')" using assms(4) by (simp_all add: acquire_at_Inr)
  note written = atomic_write_real [OF assms(1-3) g(2)]
  have ne: "butlast p \<noteq> p" using assms(2) by (metis append_butlast_last_id append_self_conv list.discI)
  have parent: "is_dir fs' (butlast p)" using assms(3) ne by (simp add: written(1))
  have "read_file fails' fs' p = Inr (to_json j)" by (rule read_file_real) (use written assms in auto)
  moreover have drop: "drop_journal (\<lambda>_. False) p fs' = AList.delete p fs'"
    using locate_real [OF written(2) assms(2) parent] by (simp add: drop_journal_def remove_at_def written(1))
  moreover have "tree_ok (AList.delete p fs')" by (rule tree_ok_delete [OF written(2) assms(2)]) (simp add: written(1))
  then have "\<exists>e. read_file fails' (AList.delete p fs') p = Inl e"
    using open_at_missing [of "AList.delete p fs'" p fails'] assms(2) parent ne by (auto simp: delete_conv')
  ultimately show ?thesis
    by (auto simp: acquire_at_def abind_def aread_def stale_transaction_journal_def g(1) delete_conv')
qed

text \<open>
  C37: A journal that is there but cannot be read is taken for no journal: the next transaction
  starts and overwrites it.
\<close>

theorem unreadable_journal_is_ignored:
  assumes "tree_ok fs" "p \<noteq> []" "map_of fs p = Some (File c)"
  shows "\<exists>fs'. acquire_at (\<lambda>op. op = OpRead p) from_json to_json j p fs = (Inr p, fs') \<and> map_of fs' p = Some (File (to_json j))"
proof -
  let ?fails = "\<lambda>op. op = OpRead p"
  have dir: "is_dir fs (butlast p)" using tree_ok_parent [OF assms(1)] assms(3) by simp
  have loc: "locate fs p = Inr p" by (rule locate_real [OF assms(1,2) dir])
  have "atomic_write_file_sync_inner ?fails p (to_json j) fs = (Inr (), AList.update p (File (to_json j)) fs)"
    using assms(3) loc by (simp add: atomic_write_file_sync_inner_def create_dir_all_exists [OF assms(1) dir] lstat_def replace_file_def)
  then show ?thesis by (auto simp: acquire_at_Inr read_file_def update_conv')
qed

text \<open>
  C29: Once the identifiers of a transaction made from a resolution are checked, every file name that
  starts with the name of one of its packages, whatever follows it without a separator, is one entry
  of the directory it is joined to.
\<close>

theorem checked_names_stay_in_directory:
  assumes "validate_action_identifiers (from_resolution result) = Inr ()"
    "name \<in> set (rr_to_install result) \<union> fst ` set (rr_to_upgrade result) \<union> set (rr_to_remove result)" "CHR ''/'' \<notin> set rest"
  shows "join_path dir (name @ rest) = dir @ [name @ rest]"
proof -
  have "\<exists>a \<in> set (tx_to_install (from_resolution result) @ tx_to_upgrade (from_resolution result) @ tx_to_remove (from_resolution result)).
      pa_name a = name"
    using assms(2) by (force simp: from_resolution_def action_of_def)
  then have "validate_package_name name = Inr ()" "CHR ''/'' \<notin> set name"
    using assms(1) by (auto simp: validate_action_identifiers_def for_result_Inr validate_action_def map_sum_Inr)
  then have name: "name \<noteq> []" "hd name \<notin> set ''-./''" "CHR ''/'' \<notin> set name" by (simp_all add: validate_package_name_ok)
  obtain c s where "name = c # s" "c \<noteq> CHR ''.''" using name by (cases name) auto
  then have "name @ rest \<noteq> []" "name @ rest \<noteq> ''.''" "name @ rest \<noteq> ''..''" "\<not> starts_with_char CHR ''/'' (name @ rest)"
    using name by auto
  moreover have "split_on (\<lambda>c. c = CHR ''/'') (name @ rest) = [name @ rest]" by (rule split_on_none) (use name assms(3) in auto)
  ultimately show ?thesis by (simp add: join_path_def)
qed


definition sample_journal :: transaction_journal where
  "sample_journal = \<lparr>tj_started_at_unix = 1, tj_pid = 7, tj_action = ''install'', tj_packages = [''vim'']\<rparr>"

theorem journal_detects_interruption_witness:
  "acquire_at (\<lambda>_. False) (\<lambda>s. if s = ''J'' then Some sample_journal else None) (\<lambda>_. ''J'') sample_journal [''j''] [([], Dir)] =
     (Inr [''j''], [([], Dir), ([''j''], File ''J'')]) \<and>
   acquire_at (\<lambda>_. False) (\<lambda>s. if s = ''J'' then Some sample_journal else None) (\<lambda>_. ''J'') sample_journal [''j''] [([], Dir), ([''j''], File ''J'')] =
     (Inl (InterruptedTransaction (Some sample_journal)), [([], Dir), ([''j''], File ''J'')])"
proof -
  have run: "acquire_at (\<lambda>_. False) (\<lambda>s. if s = ''J'' then Some sample_journal else None) (\<lambda>_. ''J'') sample_journal [''j''] [([], Dir)] =
     (Inr [''j''], [([], Dir), ([''j''], File ''J'')])" by code_simp
  have "tree_ok [([], Dir)]" "is_dir [([], Dir)] (butlast [''j''])" by code_simp+
  from journal_detects_interruption [OF this(1) _ this(2) run, of "\<lambda>_. False" sample_journal] show ?thesis using run by simp
qed

theorem unreadable_journal_is_ignored_witness:
  "\<exists>fs'. acquire_at (\<lambda>op. op = OpRead [''j'']) (\<lambda>_. None) (\<lambda>_. ''J'') sample_journal [''j''] [([], Dir), ([''j''], File ''old'')] =
     (Inr [''j''], fs') \<and> map_of fs' [''j''] = Some (File ''J'')"
proof -
  have "tree_ok [([], Dir), ([''j''], File ''old'')]" by code_simp
  from unreadable_journal_is_ignored [OF this, of "[''j'']" "''old''"] show ?thesis by simp
qed

theorem checked_names_stay_in_directory_witness:
  "validate_action_identifiers (from_resolution \<lparr>rr_to_install = [''vim''], rr_to_upgrade = [(''tar'', ''1.0'', ''1:1.1~rc1'')],
       rr_to_remove = [], rr_download_size = 0, rr_installed_size = 0\<rparr>) = Inr () \<and>
   join_path [''var'', ''lib'', ''dpkg'', ''info''] (''tar'' @ ''.list'') = [''var'', ''lib'', ''dpkg'', ''info'', ''tar.list'']"
proof -
  have ok: "validate_action_identifiers (from_resolution \<lparr>rr_to_install = [''vim''], rr_to_upgrade = [(''tar'', ''1.0'', ''1:1.1~rc1'')],
       rr_to_remove = [], rr_download_size = 0, rr_installed_size = 0\<rparr>) = Inr ()" by code_simp
  show ?thesis
    using checked_names_stay_in_directory [OF ok, of "''tar''" "''.list''" "[''var'', ''lib'', ''dpkg'', ''info'']"] ok by simp
qed

end
