(* ===== verification/Pacman_Conf.thy ===== *)
theory Pacman_Conf
  imports Omg_Prelude Rust_Path
begin

text \<open>
  The reader of \<^verbatim>\<open>/etc/pacman.conf\<close>, \<^verbatim>\<open>core/pacman_conf.rs\<close>: expansion of \<^verbatim>\<open>Include\<close> lines over files, and
  the sections and options of the expanded text. The files are an association list from canonical
  paths to contents, with an arbitrary function that resolves a path to its canonical form; a path
  without an entry cannot be read. The expansion is defined for all of them: a file is entered only
  while it is not being read already.
\<close>

section \<open>Includes\<close>

record conf_files =
  cf_canonicalize :: "string \<Rightarrow> string option"
  cf_contents :: "(string \<times> string) list"

datatype conf_error =
    ConfUnresolved string
  | ConfUnreadable string
  | IncludeCycle string
  | IncludeEmpty
  | IncludeGlob string
  | ConfNoParent
  | InvalidRepositoryName string
  | DuplicateRepository string
  | ParallelMissing
  | ParallelInvalid string
  | ParallelRange nat

definition strip_inline_comment :: "string \<Rightarrow> string" where
  "strip_inline_comment line = trim_end (hd (split_on (\<lambda>c. c = CHR ''#'') line))"

text \<open>The value of an \<^verbatim>\<open>Include\<close> line.\<close>

definition include_of :: "string \<Rightarrow> string option" where
  "include_of raw_line =
     (case split_once CHR ''='' (trim (strip_inline_comment raw_line)) of
        Some (key, v) \<Rightarrow> if trim key = ''Include'' then Some (trim v) else None
      | None \<Rightarrow> None)"

text \<open>\<^verbatim>\<open>Path::parent\<close> of a canonical path, and \<^verbatim>\<open>Path::join\<close> of a relative one.\<close>

definition canonical_parent :: "string \<Rightarrow> string option" where
  "canonical_parent p =
     (case rsplit_once CHR ''/'' p of
        None \<Rightarrow> if p = [] then None else Some []
      | Some (d, f) \<Rightarrow> if d = [] then (if f = [] then None else Some ''/'') else Some d)"

definition path_join :: "string \<Rightarrow> string \<Rightarrow> string" where
  "path_join d p = (if d = [] \<or> ends_with_char CHR ''/'' d then d @ p else d @ ''/'' @ p)"

definition resolve_include :: "string \<Rightarrow> string \<Rightarrow> (conf_error, string) result" where
  "resolve_include canonical include =
     rbind (ensure (include \<noteq> []) IncludeEmpty) (\<lambda>_.
     rbind (ensure (\<not> list_ex (\<lambda>c. c \<in> set ''*?['') include) (IncludeGlob include)) (\<lambda>_.
     if starts_with_char CHR ''/'' include then Inr include
     else case canonical_parent canonical of None \<Rightarrow> Inl ConfNoParent | Some d \<Rightarrow> Inr (path_join d include)))"

text \<open>
  \<^verbatim>\<open>visited\<close> holds the files being read; leaving a file takes it out again, so that the rest of the
  including file is read with the same set.
\<close>

function (sequential) load_config_with_includes ::
    "conf_files \<Rightarrow> string \<Rightarrow> string list \<Rightarrow> string \<Rightarrow> (conf_error, string) result"
  and load_lines :: "conf_files \<Rightarrow> string \<Rightarrow> string list \<Rightarrow> string list \<Rightarrow> string \<Rightarrow> (conf_error, string) result" where
  "load_config_with_includes files p visited out =
     (case cf_canonicalize files p of
        None \<Rightarrow> Inl (ConfUnresolved p)
      | Some canonical \<Rightarrow>
          if canonical \<in> set visited then Inl (IncludeCycle canonical)
          else case map_of (cf_contents files) canonical of
                 None \<Rightarrow> Inl (ConfUnreadable canonical)
               | Some content \<Rightarrow> load_lines files canonical (str_lines content) (canonical # visited) out)"
| "load_lines files canonical [] visited out = Inr out"
| "load_lines files canonical (raw_line # ls) visited out =
     (case include_of raw_line of
        Some include \<Rightarrow>
          (case resolve_include canonical include of
             Inl e \<Rightarrow> Inl e
           | Inr resolved \<Rightarrow>
               (case load_config_with_includes files resolved visited out of
                  Inl e \<Rightarrow> Inl e
                | Inr out' \<Rightarrow> load_lines files canonical ls visited out'))
      | None \<Rightarrow> load_lines files canonical ls visited (out @ raw_line @ [CHR 0x0A]))"
  by pat_completeness auto

definition unvisited :: "conf_files \<Rightarrow> string list \<Rightarrow> nat" where
  "unvisited files visited = card (set (map fst (cf_contents files)) - set visited)"

lemma unvisited_less:
  assumes "map_of (cf_contents files) c = Some content" "c \<notin> set visited"
  shows "unvisited files (c # visited) < unvisited files visited"
proof -
  have "c \<in> set (map fst (cf_contents files))" using map_of_SomeD [OF assms(1)] by force
  then show ?thesis unfolding unvisited_def by (intro psubset_card_mono) (use assms(2) in auto)
qed

termination load_config_with_includes
  by (relation "measures
        [\<lambda>x. case x of Inl (files, p, visited, out) \<Rightarrow> unvisited files visited
                     | Inr (files, c, ls, visited, out) \<Rightarrow> unvisited files visited,
         \<lambda>x. case x of Inl _ \<Rightarrow> 0 | Inr (files, c, ls, visited, out) \<Rightarrow> Suc (length ls)]")
    (auto simp: unvisited_less)

section \<open>Sections and options\<close>

record repo_config =
  rc_name :: string
  rc_servers :: "string list"
  rc_sig_level :: "string option"
  rc_include :: "string option"

record pacman_config =
  pc_root_dir :: "string option"
  pc_db_path :: "string option"
  pc_cache_dirs :: "string list"
  pc_log_file :: "string option"
  pc_gpg_dir :: "string option"
  pc_hook_dirs :: "string list"
  pc_hold_pkg :: "string list"
  pc_ignore_pkg :: "string list"
  pc_ignore_group :: "string list"
  pc_no_upgrade :: "string list"
  pc_no_extract :: "string list"
  pc_architecture :: "string option"
  pc_sig_level :: "string option"
  pc_local_file_sig_level :: "string option"
  pc_remote_file_sig_level :: "string option"
  pc_parallel_downloads :: "nat option"
  pc_repos :: "repo_config list"

definition pacman_config_default :: pacman_config where
  "pacman_config_default =
     \<lparr>pc_root_dir = None, pc_db_path = None, pc_cache_dirs = [], pc_log_file = None, pc_gpg_dir = None,
      pc_hook_dirs = [], pc_hold_pkg = [], pc_ignore_pkg = [], pc_ignore_group = [], pc_no_upgrade = [],
      pc_no_extract = [], pc_architecture = None, pc_sig_level = None, pc_local_file_sig_level = None,
      pc_remote_file_sig_level = None, pc_parallel_downloads = None, pc_repos = []\<rparr>"

definition validate_repository_name :: "string \<Rightarrow> (conf_error, unit) result" where
  "validate_repository_name name = ensure (components name = [Normal name]) (InvalidRepositoryName name)"

definition append_signature_option :: "string option \<Rightarrow> string option \<Rightarrow> string option" where
  "append_signature_option opt v =
     (case v of
        None \<Rightarrow> opt
      | Some new \<Rightarrow> (case opt of Some existing \<Rightarrow> Some (existing @ '' '' @ new) | None \<Rightarrow> Some new))"

definition words_of :: "string option \<Rightarrow> string list" where
  "words_of v = (case v of None \<Rightarrow> [] | Some s \<Rightarrow> split_whitespace s)"

definition parse_parallel :: "string option \<Rightarrow> (conf_error, nat) result" where
  "parse_parallel v =
     (case v of
        None \<Rightarrow> Inl ParallelMissing
      | Some s \<Rightarrow>
          (case parse_unsigned 32 s of
             None \<Rightarrow> Inl (ParallelInvalid s)
           | Some count \<Rightarrow> rbind (ensure (1 \<le> count \<and> count \<le> 64) (ParallelRange count)) (\<lambda>_. Inr count)))"

definition parse_option :: "pacman_config \<Rightarrow> string \<Rightarrow> string option \<Rightarrow> (conf_error, pacman_config) result" where
  "parse_option c key v =
     (if key = ''RootDir'' then Inr (c\<lparr>pc_root_dir := v\<rparr>)
      else if key = ''DBPath'' then Inr (c\<lparr>pc_db_path := v\<rparr>)
      else if key = ''CacheDir'' then Inr (c\<lparr>pc_cache_dirs := pc_cache_dirs c @ words_of v\<rparr>)
      else if key = ''LogFile'' then Inr (c\<lparr>pc_log_file := v\<rparr>)
      else if key = ''GPGDir'' then Inr (c\<lparr>pc_gpg_dir := v\<rparr>)
      else if key = ''HookDir'' then Inr (c\<lparr>pc_hook_dirs := pc_hook_dirs c @ words_of v\<rparr>)
      else if key = ''Architecture'' then Inr (c\<lparr>pc_architecture := v\<rparr>)
      else if key = ''SigLevel'' then Inr (c\<lparr>pc_sig_level := append_signature_option (pc_sig_level c) v\<rparr>)
      else if key = ''LocalFileSigLevel'' then
        Inr (c\<lparr>pc_local_file_sig_level := append_signature_option (pc_local_file_sig_level c) v\<rparr>)
      else if key = ''RemoteFileSigLevel'' then
        Inr (c\<lparr>pc_remote_file_sig_level := append_signature_option (pc_remote_file_sig_level c) v\<rparr>)
      else if key = ''HoldPkg'' then Inr (c\<lparr>pc_hold_pkg := pc_hold_pkg c @ words_of v\<rparr>)
      else if key = ''IgnorePkg'' then Inr (c\<lparr>pc_ignore_pkg := pc_ignore_pkg c @ words_of v\<rparr>)
      else if key = ''IgnoreGroup'' then Inr (c\<lparr>pc_ignore_group := pc_ignore_group c @ words_of v\<rparr>)
      else if key = ''NoUpgrade'' then Inr (c\<lparr>pc_no_upgrade := pc_no_upgrade c @ words_of v\<rparr>)
      else if key = ''NoExtract'' then Inr (c\<lparr>pc_no_extract := pc_no_extract c @ words_of v\<rparr>)
      else if key = ''ParallelDownloads'' then
        rbind (parse_parallel v) (\<lambda>count. Inr (c\<lparr>pc_parallel_downloads := Some count\<rparr>))
      else Inr c)"

definition parse_repo_option :: "repo_config \<Rightarrow> string \<Rightarrow> string option \<Rightarrow> repo_config" where
  "parse_repo_option repo key v =
     (if key = ''Server'' then (case v of Some s \<Rightarrow> repo\<lparr>rc_servers := rc_servers repo @ [s]\<rparr> | None \<Rightarrow> repo)
      else if key = ''SigLevel'' then repo\<lparr>rc_sig_level := append_signature_option (rc_sig_level repo) v\<rparr>
      else if key = ''Include'' then repo\<lparr>rc_include := v\<rparr>
      else repo)"

record conf_parse =
  cp_config :: pacman_config
  cp_section :: "string option"
  cp_repo :: "repo_config option"
  cp_names :: "string list"

definition close_repo :: "conf_parse \<Rightarrow> conf_parse" where
  "close_repo st =
     (case cp_repo st of
        None \<Rightarrow> st
      | Some repo \<Rightarrow>
          st\<lparr>cp_config := (cp_config st)\<lparr>pc_repos := pc_repos (cp_config st) @ [repo]\<rparr>, cp_repo := None\<rparr>)"

definition open_section :: "string \<Rightarrow> conf_parse \<Rightarrow> (conf_error, conf_parse) result" where
  "open_section section_name st =
     (let st = (close_repo st)\<lparr>cp_section := Some section_name\<rparr>
      in if section_name = ''options'' then Inr st
         else rbind (validate_repository_name section_name) (\<lambda>_.
              rbind (ensure (section_name \<notin> set (cp_names st)) (DuplicateRepository section_name)) (\<lambda>_.
              Inr (st\<lparr>cp_names := section_name # cp_names st,
                     cp_repo := Some \<lparr>rc_name = section_name, rc_servers = [], rc_sig_level = None, rc_include = None\<rparr>\<rparr>))))"

definition key_value :: "string \<Rightarrow> string \<times> string option" where
  "key_value line = (case split_once CHR ''='' line of Some (k, v) \<Rightarrow> (trim k, Some (trim v)) | None \<Rightarrow> (line, None))"

definition parse_conf_line :: "string \<Rightarrow> conf_parse \<Rightarrow> (conf_error, conf_parse) result" where
  "parse_conf_line raw st =
     (let line = trim (strip_inline_comment (trim raw))
      in if line = [] then Inr st
         else if starts_with_char CHR ''['' line \<and> ends_with_char CHR '']'' line
         then open_section (butlast (tl line)) st
         else case key_value line of (key, v) \<Rightarrow>
           (case cp_section st of
              None \<Rightarrow> Inr st
            | Some sec \<Rightarrow>
                if sec = ''options''
                then rbind (parse_option (cp_config st) key v) (\<lambda>c. Inr (st\<lparr>cp_config := c\<rparr>))
                else Inr (case cp_repo st of
                       None \<Rightarrow> st
                     | Some repo \<Rightarrow> st\<lparr>cp_repo := Some (parse_repo_option repo key v)\<rparr>)))"

fun parse_conf_lines :: "string list \<Rightarrow> conf_parse \<Rightarrow> (conf_error, conf_parse) result" where
  "parse_conf_lines [] st = Inr st"
| "parse_conf_lines (l # ls) st = rbind (parse_conf_line l st) (\<lambda>st'. parse_conf_lines ls st')"

definition parse_str :: "string \<Rightarrow> (conf_error, pacman_config) result" where
  "parse_str content =
     rbind (parse_conf_lines (str_lines content)
       \<lparr>cp_config = pacman_config_default, cp_section = None, cp_repo = None, cp_names = []\<rparr>) (\<lambda>st.
     Inr (cp_config (close_repo st)))"

definition parse_conf :: "conf_files \<Rightarrow> string \<Rightarrow> (conf_error, pacman_config) result" where
  "parse_conf files p = rbind (load_config_with_includes files p [] []) parse_str"

definition get_repo_names :: "pacman_config \<Rightarrow> string list" where
  "get_repo_names c = map rc_name (pc_repos c)"

text \<open>\<^verbatim>\<open>str::replace\<close> for a pattern that is not empty.\<close>

function str_replace :: "string \<Rightarrow> string \<Rightarrow> string \<Rightarrow> string" where
  "str_replace pat new s =
     (if pat = [] \<or> s = [] then s
      else case strip_prefix pat s of
             Some r \<Rightarrow> new @ str_replace pat new r
           | None \<Rightarrow> hd s # str_replace pat new (tl s))"
  by pat_completeness auto

termination str_replace
  by (relation "measure (\<lambda>(pat, new, s). length s)") (auto simp: strip_prefix_Some)

definition expand_server :: "string \<Rightarrow> string \<Rightarrow> string \<Rightarrow> string" where
  "expand_server name arch server = str_replace ''$arch'' arch (str_replace ''$repo'' name server)"

definition mirror_of :: "string \<Rightarrow> string option" where
  "mirror_of line =
     (case split_once CHR ''='' (trim (strip_inline_comment line)) of
        Some (key, url) \<Rightarrow> if trim key = ''Server'' then Some (trim url) else None
      | None \<Rightarrow> None)"

definition resolve_servers :: "(string \<Rightarrow> string option) \<Rightarrow> repo_config \<Rightarrow> string \<Rightarrow> (conf_error, string list) result" where
  "resolve_servers read_to_string repo arch =
     (let servers = map (expand_server (rc_name repo) arch) (rc_servers repo)
      in case rc_include repo of
           None \<Rightarrow> Inr servers
         | Some include_path \<Rightarrow>
             (case read_to_string include_path of
                None \<Rightarrow> Inl (ConfUnreadable include_path)
              | Some mirrorlist \<Rightarrow>
                  Inr (servers @ map (expand_server (rc_name repo) arch) (List.map_filter mirror_of (str_lines mirrorlist)))))"


section \<open>Expansion and cycles\<close>

text \<open>The canonical files a file includes.\<close>

definition include_edges :: "conf_files \<Rightarrow> (string \<times> string) set" where
  "include_edges files = {(c, t). \<exists>content raw include resolved.
     map_of (cf_contents files) c = Some content \<and> raw \<in> set (str_lines content) \<and> include_of raw = Some include \<and>
     resolve_include c include = Inr resolved \<and> cf_canonicalize files resolved = Some t}"

text \<open>Nothing reachable from a file is being read, or includes itself.\<close>

definition include_safe :: "conf_files \<Rightarrow> string list \<Rightarrow> string \<Rightarrow> bool" where
  "include_safe files visited c =
     (\<forall>x. (c, x) \<in> (include_edges files)\<^sup>* \<longrightarrow> x \<notin> set visited \<and> (x, x) \<notin> (include_edges files)\<^sup>+)"

lemma include_safe_step:
  assumes "c \<notin> set visited" "\<And>t. (c, t) \<in> include_edges files \<Longrightarrow> include_safe files (c # visited) t"
  shows "include_safe files visited c"
  unfolding include_safe_def
proof (intro allI impI)
  fix x
  assume "(c, x) \<in> (include_edges files)\<^sup>*"
  then consider "x = c" | t where "(c, t) \<in> include_edges files" "(t, x) \<in> (include_edges files)\<^sup>*"
    by (auto elim: converse_rtranclE)
  then show "x \<notin> set visited \<and> (x, x) \<notin> (include_edges files)\<^sup>+"
  proof cases
    case 1
    have "(c, c) \<notin> (include_edges files)\<^sup>+"
    proof
      assume "(c, c) \<in> (include_edges files)\<^sup>+"
      then obtain t where "(c, t) \<in> include_edges files" "(t, c) \<in> (include_edges files)\<^sup>*" by (meson tranclD)
      then show False using assms(2) by (auto simp: include_safe_def)
    qed
    then show ?thesis using assms(1) 1 by simp
  next
    case 2
    then show ?thesis using assms(2) [OF 2(1)] by (auto simp: include_safe_def)
  qed
qed

lemma load_success:
  "load_config_with_includes files p visited out = Inr out' \<Longrightarrow>
     \<exists>c. cf_canonicalize files p = Some c \<and> include_safe files visited c"
  "load_lines files c ls visited out = Inr out' \<Longrightarrow> raw \<in> set ls \<Longrightarrow> include_of raw = Some inc \<Longrightarrow>
     resolve_include c inc = Inr resolved \<Longrightarrow> \<exists>t. cf_canonicalize files resolved = Some t \<and> include_safe files visited t"
proof (induction files p visited out and files c ls visited out arbitrary: out' and out' raw inc resolved
    rule: load_config_with_includes_load_lines.induct)
  case (1 files p visited out)
  obtain c content where c: "cf_canonicalize files p = Some c" "c \<notin> set visited" "map_of (cf_contents files) c = Some content"
    and run: "load_lines files c (str_lines content) (c # visited) out = Inr out'"
    using "1.prems" by (auto split: option.splits if_splits)
  have "include_safe files visited c"
  proof (rule include_safe_step [OF c(2)])
    fix t
    assume "(c, t) \<in> include_edges files"
    then obtain raw inc resolved where "raw \<in> set (str_lines content)" "include_of raw = Some inc"
      "resolve_include c inc = Inr resolved" "cf_canonicalize files resolved = Some t"
      using c(3) by (auto simp: include_edges_def)
    then show "include_safe files (c # visited) t" using "1.IH" [OF c(1,2,3) run] by fastforce
  qed
  then show ?case using c(1) by blast
next
  case (3 files c raw_line ls visited out)
  show ?case
  proof (cases "include_of raw_line")
    case None
    then have run: "load_lines files c ls visited (out @ raw_line @ [CHR 0x0A]) = Inr out'" using "3.prems"(1) by simp
    have "raw \<in> set ls" using "3.prems"(2,3) None by auto
    from "3.IH"(1) [OF None run this "3.prems"(3,4)] show ?thesis .
  next
    case (Some inc0)
    obtain r out1 where r: "resolve_include c inc0 = Inr r" "load_config_with_includes files r visited out = Inr out1"
      "load_lines files c ls visited out1 = Inr out'"
      using "3.prems"(1) Some by (auto split: sum.splits)
    show ?thesis
    proof (cases "raw = raw_line")
      case True
      then show ?thesis using "3.IH"(2) [OF Some r(1,2)] "3.prems"(3,4) Some r(1) by simp
    next
      case False
      then show ?thesis using "3.IH"(3) [OF Some r(1,2,3)] "3.prems" by simp
    qed
  qed
qed simp

lemma load_cycle:
  "load_config_with_includes files p visited out = Inl (IncludeCycle x) \<Longrightarrow>
     (\<And>c v. cf_canonicalize files p = Some c \<Longrightarrow> v \<in> set visited \<Longrightarrow> (v, c) \<in> (include_edges files)\<^sup>+) \<Longrightarrow> (x, x) \<in> (include_edges files)\<^sup>+"
  "load_lines files c ls visited out = Inl (IncludeCycle x) \<Longrightarrow> map_of (cf_contents files) c = Some content \<Longrightarrow>
     set ls \<subseteq> set (str_lines content) \<Longrightarrow> (\<And>v. v \<in> set visited \<Longrightarrow> (v, c) \<in> (include_edges files)\<^sup>*) \<Longrightarrow> (x, x) \<in> (include_edges files)\<^sup>+"
proof (induction files p visited out and files c ls visited out arbitrary: and content
    rule: load_config_with_includes_load_lines.induct)
  case (1 files p visited out)
  obtain c where c: "cf_canonicalize files p = Some c" using "1.prems"(1) by (auto split: option.splits)
  show ?case
  proof (cases "c \<in> set visited")
    case True
    then show ?thesis using "1.prems" c by auto
  next
    case False
    then obtain content where content: "map_of (cf_contents files) c = Some content"
      and run: "load_lines files c (str_lines content) (c # visited) out = Inl (IncludeCycle x)"
      using "1.prems"(1) c by (auto split: option.splits)
    show ?thesis
      by (rule "1.IH" [OF c False content run content]) (use "1.prems"(2) [OF c] in \<open>auto intro: trancl_into_rtrancl\<close>)
  qed
next
  case (3 files c raw_line ls visited out)
  show ?case
  proof (cases "include_of raw_line")
    case None
    then have "load_lines files c ls visited (out @ raw_line @ [CHR 0x0A]) = Inl (IncludeCycle x)" using "3.prems"(1) by simp
    from "3.IH"(1) [OF None this "3.prems"(2)] show ?thesis using "3.prems"(3,4) by simp
  next
    case (Some inc)
    have "resolve_include c inc \<noteq> Inl (IncludeCycle x)"
      by (auto simp: resolve_include_def rbind_def ensure_def split: option.splits)
    then obtain r where r: "resolve_include c inc = Inr r" using "3.prems"(1) Some by (auto split: sum.splits)
    show ?thesis
    proof (cases "load_config_with_includes files r visited out")
      case (Inl e)
      then have run: "load_config_with_includes files r visited out = Inl (IncludeCycle x)" using "3.prems"(1) Some r by simp
      show ?thesis
      proof (rule "3.IH"(2) [OF Some r run])
        fix t v
        assume "cf_canonicalize files r = Some t" "v \<in> set visited"
        moreover from this have "(c, t) \<in> include_edges files" using Some r "3.prems"(2,3) by (auto simp: include_edges_def)
        ultimately show "(v, t) \<in> (include_edges files)\<^sup>+" using "3.prems"(4) by (meson rtrancl_into_trancl1)
      qed
    next
      case (Inr out1)
      then have "load_lines files c ls visited out1 = Inl (IncludeCycle x)" using "3.prems"(1) Some r by simp
      from "3.IH"(3) [OF Some r Inr this "3.prems"(2)] show ?thesis using "3.prems"(3,4) by simp
    qed
  qed
qed simp


section \<open>Parsed configurations\<close>

definition repo_name_ok :: "string \<Rightarrow> bool" where
  "repo_name_ok n = (components n = [Normal n] \<and> n \<noteq> ''options'')"

definition repo_names :: "conf_parse \<Rightarrow> string list" where
  "repo_names st = map rc_name (pc_repos (cp_config st)) @ (case cp_repo st of None \<Rightarrow> [] | Some r \<Rightarrow> [rc_name r])"

definition config_ok :: "pacman_config \<Rightarrow> bool" where
  "config_ok c = (case pc_parallel_downloads c of None \<Rightarrow> True | Some k \<Rightarrow> 1 \<le> k \<and> k \<le> 64)"

definition parse_ok :: "conf_parse \<Rightarrow> bool" where
  "parse_ok st = (distinct (repo_names st) \<and> set (repo_names st) \<subseteq> set (cp_names st) \<and>
     list_all repo_name_ok (cp_names st) \<and> config_ok (cp_config st))"

lemma close_repo_names: "repo_names (close_repo st) = repo_names st" "cp_repo (close_repo st) = None"
  "cp_names (close_repo st) = cp_names st" "config_ok (cp_config (close_repo st)) = config_ok (cp_config st)"
  by (auto simp: close_repo_def repo_names_def config_ok_def split: option.split)

lemma parse_option_ok:
  assumes "parse_option c key v = Inr c'" "config_ok c"
  shows "config_ok c' \<and> pc_repos c' = pc_repos c"
proof -
  have "config_ok (c\<lparr>pc_parallel_downloads := Some k\<rparr>)" if "parse_parallel v = Inr k" for k
    using that by (auto simp: parse_parallel_def config_ok_def rbind_eq_Inr ensure_def split: option.splits if_splits)
  then show ?thesis
    using assms by (auto simp: parse_option_def config_ok_def rbind_eq_Inr split: if_splits)
qed

lemma parse_repo_option_name: "rc_name (parse_repo_option r key v) = rc_name r"
  by (simp add: parse_repo_option_def split: option.split)

lemma open_section_ok:
  assumes "open_section sec st = Inr st'" "parse_ok st"
  shows "parse_ok st'"
proof -
  let ?st = "(close_repo st)\<lparr>cp_section := Some sec\<rparr>"
  have ok: "parse_ok ?st" "cp_repo ?st = None"
    using assms(2) close_repo_names [of st] by (simp_all add: parse_ok_def repo_names_def)
  show ?thesis
  proof (cases "sec = ''options''")
    case True
    then show ?thesis using assms(1) ok by (simp add: open_section_def)
  next
    case False
    then have sec: "components sec = [Normal sec]" "sec \<notin> set (cp_names ?st)"
      and st': "st' = ?st\<lparr>cp_names := sec # cp_names ?st,
        cp_repo := Some \<lparr>rc_name = sec, rc_servers = [], rc_sig_level = None, rc_include = None\<rparr>\<rparr>"
      using assms(1) by (auto simp: open_section_def Let_def rbind_eq_Inr validate_repository_name_def ensure_def split: if_splits)
    have "repo_names st' = repo_names ?st @ [sec]" using ok(2) by (simp add: st' repo_names_def)
    then show ?thesis using ok(1) sec False by (auto simp: parse_ok_def st' repo_name_ok_def)
  qed
qed

lemma parse_conf_line_ok:
  assumes "parse_conf_line l st = Inr st'" "parse_ok st"
  shows "parse_ok st'"
proof -
  define line where "line = trim (strip_inline_comment (trim l))"
  obtain key v where kv: "key_value line = (key, v)" by (cases "key_value line")
  let ?header = "starts_with_char CHR ''['' line \<and> ends_with_char CHR '']'' line"
  have run: "parse_conf_line l st =
      (if line = [] then Inr st
       else if ?header then open_section (butlast (tl line)) st
       else case cp_section st of
              None \<Rightarrow> Inr st
            | Some sec \<Rightarrow>
                if sec = ''options'' then rbind (parse_option (cp_config st) key v) (\<lambda>c. Inr (st\<lparr>cp_config := c\<rparr>))
                else Inr (case cp_repo st of None \<Rightarrow> st | Some repo \<Rightarrow> st\<lparr>cp_repo := Some (parse_repo_option repo key v)\<rparr>))"
    unfolding parse_conf_line_def Let_def line_def [symmetric] kv by simp
  show ?thesis
  proof (cases "line \<noteq> [] \<and> ?header")
    case True
    then have "open_section (butlast (tl line)) st = Inr st'" using assms(1) unfolding run by simp
    then show ?thesis using assms(2) by (rule open_section_ok)
  next
    case header: False
    show ?thesis
    proof (cases "cp_section st = Some ''options'' \<and> line \<noteq> []")
      case True
      then obtain c where c: "parse_option (cp_config st) key v = Inr c" "st' = st\<lparr>cp_config := c\<rparr>"
        using assms(1) header unfolding run by (auto simp: rbind_eq_Inr)
      then show ?thesis using parse_option_ok [OF c(1)] assms(2) by (simp add: parse_ok_def repo_names_def)
    next
      case False
      then have "st' = st \<or> (\<exists>r. cp_repo st = Some r \<and> st' = st\<lparr>cp_repo := Some (parse_repo_option r key v)\<rparr>)"
        using assms(1) header unfolding run by (cases "cp_section st"; cases "cp_repo st") (auto split: if_splits)
      then have "repo_names st' = repo_names st" "cp_names st' = cp_names st" "cp_config st' = cp_config st"
        by (auto simp: repo_names_def parse_repo_option_name)
      then show ?thesis using assms(2) by (simp add: parse_ok_def)
    qed
  qed
qed

lemma parse_conf_lines_ok: "parse_conf_lines ls st = Inr st' \<Longrightarrow> parse_ok st \<Longrightarrow> parse_ok st'"
  by (induction ls arbitrary: st) (auto simp: rbind_eq_Inr dest: parse_conf_line_ok)

lemma parse_str_ok:
  assumes "parse_str content = Inr c"
  shows "distinct (get_repo_names c) \<and> list_all repo_name_ok (get_repo_names c) \<and> config_ok c"
proof -
  let ?start = "\<lparr>cp_config = pacman_config_default, cp_section = None, cp_repo = None, cp_names = []\<rparr>"
  obtain st where st: "parse_conf_lines (str_lines content) ?start = Inr st" "c = cp_config (close_repo st)"
    using assms by (auto simp: parse_str_def rbind_eq_Inr)
  have "parse_ok ?start" by (simp add: parse_ok_def repo_names_def pacman_config_default_def config_ok_def)
  then have ok: "parse_ok st" by (rule parse_conf_lines_ok [OF st(1)])
  have "get_repo_names c = repo_names (close_repo st)" using close_repo_names(2) [of st] by (simp add: get_repo_names_def st(2) repo_names_def)
  then show ?thesis using ok close_repo_names [of st] by (auto simp: parse_ok_def st(2) list_all_iff)
qed

lemma component_name: "components n = [Normal n] \<Longrightarrow> n \<noteq> [] \<and> n \<noteq> ''.'' \<and> n \<noteq> ''..'' \<and> CHR ''/'' \<notin> set n"
proof -
  assume c: "components n = [Normal n]"
  then have "concat (map component_of (split_on (\<lambda>c. c = CHR ''/'') n)) = [Normal n]"
    by (auto simp: components_def Let_def split: if_splits)
  then have "Normal n \<in> set (concat (map component_of (split_on (\<lambda>c. c = CHR ''/'') n)))" by (metis list.set_intros(1))
  then have "n \<in> set (split_on (\<lambda>c. c = CHR ''/'') n)" "n \<noteq> []" "n \<noteq> ''.''" "n \<noteq> ''..''"
    by (auto simp: component_of_def split: if_splits)
  then show ?thesis using split_on_pieces by blast
qed

section \<open>Properties\<close>

text \<open>
  Reading the configuration always ends. When it is read, no file that is reachable through
  Include lines includes itself, directly or through others; and a cycle is reported only for a file
  that does.
\<close>

theorem includes_are_expanded_unless_cyclic:
  "(\<forall>text. load_config_with_includes files p [] [] = Inr text \<longrightarrow>
      (\<exists>c. cf_canonicalize files p = Some c \<and>
        (\<forall>x. (c, x) \<in> (include_edges files)\<^sup>* \<longrightarrow> (x, x) \<notin> (include_edges files)\<^sup>+))) \<and>
   (\<forall>x. load_config_with_includes files p [] [] = Inl (IncludeCycle x) \<longrightarrow> (x, x) \<in> (include_edges files)\<^sup>+)"
  using load_success(1) [of files p "[]" "[]"] load_cycle(1) [of files p "[]" "[]"]
  by (fastforce simp: include_safe_def)

text \<open>
  An accepted configuration names each repository once, with a name that is one plain path
  component and not the options section, and downloads at least one and at most 64 files at a time.
\<close>

theorem accepted_configuration_is_valid:
  assumes "parse_conf files p = Inr c"
  shows "distinct (get_repo_names c) \<and>
    (\<forall>n \<in> set (get_repo_names c). n \<noteq> [] \<and> n \<noteq> ''.'' \<and> n \<noteq> ''..'' \<and> CHR ''/'' \<notin> set n \<and> n \<noteq> ''options'') \<and>
    (\<forall>k. pc_parallel_downloads c = Some k \<longrightarrow> 1 \<le> k \<and> k \<le> 64)"
proof -
  obtain content where "parse_str content = Inr c" using assms by (auto simp: parse_conf_def rbind_eq_Inr)
  from parse_str_ok [OF this] show ?thesis
    using component_name by (auto simp: list_all_iff repo_name_ok_def config_ok_def)
qed


definition sample_conf :: "string list \<Rightarrow> string" where
  "sample_conf ls = concat (map (\<lambda>l. l @ [CHR 0x0A]) ls)"

definition sample_files :: conf_files where
  "sample_files =
     \<lparr>cf_canonicalize = (\<lambda>p. Some p),
      cf_contents =
        [(''/etc/pacman.conf'', sample_conf [''[options]'', ''ParallelDownloads = 5 # five'', ''[core]'', ''Include = mirrors'']),
         (''/etc/mirrors'', sample_conf [''Server = https://m/$repo'']),
         (''/etc/loop'', sample_conf [''Include = /etc/loop''])]\<rparr>"

theorem includes_are_expanded_unless_cyclic_witness:
  "load_config_with_includes sample_files ''/etc/loop'' [] [] = Inl (IncludeCycle ''/etc/loop'') \<and>
   (''/etc/loop'', ''/etc/loop'') \<in> (include_edges sample_files)\<^sup>+"
proof -
  have "load_config_with_includes sample_files ''/etc/loop'' [] [] = Inl (IncludeCycle ''/etc/loop'')" by code_simp
  then show ?thesis using includes_are_expanded_unless_cyclic [of sample_files "''/etc/loop''"] by blast
qed

theorem accepted_configuration_is_valid_witness:
  "\<exists>c. parse_conf sample_files ''/etc/pacman.conf'' = Inr c \<and> get_repo_names c = [''core''] \<and> distinct (get_repo_names c) \<and>
     pc_parallel_downloads c = Some 5"
proof -
  obtain c where c: "parse_conf sample_files ''/etc/pacman.conf'' = Inr c" "get_repo_names c = [''core'']" "pc_parallel_downloads c = Some 5"
  proof -
    have "case parse_conf sample_files ''/etc/pacman.conf'' of
        Inr c \<Rightarrow> get_repo_names c = [''core''] \<and> pc_parallel_downloads c = Some 5 | Inl _ \<Rightarrow> False" by code_simp
    then show thesis by (auto intro: that split: sum.splits)
  qed
  from accepted_configuration_is_valid [OF c(1)] c show ?thesis by blast
qed

end
