(* ===== verification/Spec2Isabelle.thy ===== *)
theory Spec2Isabelle
  imports
    Omg_Prelude
    Rust_Str
    Deb_Resolver
    Input_Validation
    Security_Policy
    Audit_Recovery
    Aur_Waves
    Aur_Deps
    Package_Search
    Deb_Rollback
    Deb_Status
    Deb_Transaction
    Pacman_Conf
begin

text \<open>
  A verification development for \<^verbatim>\<open>omg\<close>, a front end to the package managers of several systems,
  written in Rust. File names below are relative to \<^verbatim>\<open>src/src\<close>.

  \<^bold>\<open>The program.\<close> Commands resolve what to install, build or remove, check it against a security
  policy, change the system, and write what they did to an audit log. On Debian the resolver
  (\<^verbatim>\<open>package_managers/debian_db/resolver.rs\<close>) turns a request into a plan, which the transaction engine
  (\<^verbatim>\<open>transaction.rs\<close> beside it) unpacks, records in dpkg's status file and can roll back. On Arch a request
  for AUR packages becomes build jobs (\<^verbatim>\<open>package_managers/aur/client.rs\<close>, \<^verbatim>\<open>aur_deps.rs\<close>) that are built in
  waves (\<^verbatim>\<open>aur/parallel_build.rs\<close>), with the repositories of \<^verbatim>\<open>core/pacman_conf.rs\<close>. A daemon answers
  searches from an index in memory (\<^verbatim>\<open>daemon/index.rs\<close>). All of them use the checks of
  \<^verbatim>\<open>core/security\<close>: input validation, policy, licenses and the audit log.

  \<^bold>\<open>Shared theories.\<close>

  \<^item> \<^verbatim>\<open>Omg_Prelude\<close>: Rust's \<^verbatim>\<open>Result\<close> and \<^verbatim>\<open>?\<close> as a sum with \<open>rbind\<close>, loops over fallible steps,
    \<^verbatim>\<open>Ordering\<close>, \<^verbatim>\<open>BTreeSet\<close>, and the locale \<open>comparator\<close>, the contract of \<^verbatim>\<open>Ord\<close>.
  \<^item> \<^verbatim>\<open>Rust_Str\<close>, \<^verbatim>\<open>Rust_Path\<close>: the operations of \<^verbatim>\<open>char\<close>, \<^verbatim>\<open>str\<close> and \<^verbatim>\<open>std::path\<close> that the sources use.
  \<^item> \<^verbatim>\<open>Io_Monad\<close>: sequences of calls that may fail and change a state.

  \<^bold>\<open>Debian packages.\<close>

  \<^item> \<^verbatim>\<open>Deb_Version\<close> (\<^verbatim>\<open>package_managers/types.rs\<close>): splitting, comparing and hashing versions. The
    comparator is a total preorder on all strings (an interpretation of \<open>comparator\<close>), and versions
    that compare equal hash alike.
  \<^item> \<^verbatim>\<open>Deb_Order\<close>, \<^verbatim>\<open>Deb_Resolver\<close> (\<^verbatim>\<open>resolver.rs\<close>): dependency grammar, choice of targets, the closure walk
    with its work stack, the recorded graph, the check of the projected state, the depth-first sort
    and the plan. \<open>resolver\<close> is the struct, \<open>resolve\<close> and \<open>add_package\<close> its methods, \<open>reachable\<close> the
    resolvers that they lead to. The closure is exactly what is reachable, the sort is right for
    cyclic graphs too, and a plan leaves every dependency satisfied, unless a newer version is
    installed than the repository has, where it provably does not.
  \<^item> \<^verbatim>\<open>Deb_Extract\<close>, \<^verbatim>\<open>Deb_Rollback\<close> (\<^verbatim>\<open>transaction.rs\<close>, \<^verbatim>\<open>core/safe_ops.rs\<close>): archive paths and link targets, extraction with its
    record, rollback, on a file system with directories, files and links in which any call may fail.
    Every change is below the root and in the record, and rollback undoes it; the cases in which that
    fails are stated as exactly.
  \<^item> \<^verbatim>\<open>Deb_Removal\<close>, \<^verbatim>\<open>Deb_Status\<close> (\<^verbatim>\<open>transaction.rs\<close>): which removals are safe, their order, and the edits of dpkg's
    status file. A removal is accepted exactly when no remaining package loses its last satisfier by
    name, and after it, or after a configuration, the file has exactly the packages it should.
  \<^item> \<^verbatim>\<open>Deb_Transaction\<close> (\<^verbatim>\<open>transaction.rs\<close>): the transaction object, the check of its identifiers, the journal
    that detects an interrupted transaction, and the cap on downloads.

  \<^bold>\<open>Arch packages.\<close>

  \<^item> \<^verbatim>\<open>Aur_Deps\<close> (\<^verbatim>\<open>aur_deps.rs\<close>, \<^verbatim>\<open>aur/client.rs\<close>): the outputs and dependencies to build for a request, the
    jobs of an update, and the splitting of requests to the AUR. A plan is the closure of the request.
  \<^item> \<^verbatim>\<open>Aur_Waves\<close> (\<^verbatim>\<open>aur/parallel_build.rs\<close>): the graph of jobs, its levels, and the concurrent builds of a
    level, as the loop of the source and as a step relation \<open>wave_step\<close> over all interleavings. Every
    output is accounted for, whatever order builds finish in. This theory combines both into a
    property of whole updates.
  \<^item> \<^verbatim>\<open>Pacman_Conf\<close> (\<^verbatim>\<open>core/pacman_conf.rs\<close>): expansion of \<^verbatim>\<open>Include\<close> lines, which ends also on cyclic
    files, and the parser of sections and options.

  \<^bold>\<open>Daemon.\<close>

  \<^item> \<^verbatim>\<open>Package_Index\<close>, \<^verbatim>\<open>Package_Search\<close> (\<^verbatim>\<open>daemon/index.rs\<close>): Bloom filter, string pool, trigram postings, exact
    lookup and ranked search. The locales \<open>membership_filter\<close> and \<open>interner\<close> are the contracts the index
    relies on, interpreted by the filter and the pool. Lookup and search refine a list of records.

  \<^bold>\<open>Security.\<close>

  \<^item> \<^verbatim>\<open>Input_Validation\<close> (\<^verbatim>\<open>core/security/validation.rs\<close>): all checks of names, versions, paths and archives;
    an accepted name is inert in a command line and in a path.
  \<^item> \<^verbatim>\<open>Spdx_License\<close>, \<^verbatim>\<open>Security_Policy\<close> (\<^verbatim>\<open>core/security/policy.rs\<close>): license expressions with their tokenizer and
    recursive-descent parser, the policy file, its hand-over to an elevated child, and the checks of a
    prepared transaction. Separate license entries are cumulative, and no argument changes the policy.
  \<^item> \<^verbatim>\<open>Audit_Entry\<close>, \<^verbatim>\<open>Audit_Log\<close>, \<^verbatim>\<open>Audit_Recovery\<close> (\<^verbatim>\<open>core/security/audit.rs\<close>): entries and their hash chain, append
    under a lock, rotation, verification, recovery of a corrupt log, the marker of an incomplete
    collection, and the bounded queue. The locale \<open>binding_chain\<close> carries the argument that two chains
    with the same last hash are equal or show a collision. Histories are never rewritten or lost.

  \<^bold>\<open>Representation.\<close> A struct is a \<^theory_text>\<open>record\<close>, an enum a \<^theory_text>\<open>datatype\<close>, a hash map an association list, a
  hash set a list without order, an error message a constructor of an error type. A \<^verbatim>\<open>str\<close> is a list of
  characters U+0000 to U+00FF whose length counts UTF-8 bytes; in file contents and paths a character
  is a byte. 32-bit handles and counters are words; other counts are numbers, and a property that needs
  one to fit says so. Calls into other libraries, the network, processes and the kernel's failures
  are arguments: \<open>alpm_env\<close>, \<open>build_env\<close>, \<open>audit_world\<close>, the hash function of the Bloom filter, JSON and hex
  codings, the predicate \<open>fails\<close> on calls.

  \<^bold>\<open>Bounds.\<close> No loop is cut off by fuel. Recursion is structural or has a termination proof; \<open>walk\<close> and
  \<open>open_at\<close> follow at most forty links because the kernel does. The one loop that may not end, the
  search for a free name of a quarantined log with a 32-bit counter, is a \<^theory_text>\<open>partial_function\<close>, and it is
  proved to end when fewer than 2^32 files exist. The index is proved for at most 2^32/7 records, where
  every string, at most seven for each record, has a 32-bit handle.

  \<^bold>\<open>Not modelled.\<close> The command line and its output, the text user interface, configuration files and shell
  hooks, language runtimes, containers, telemetry and environment fingerprints: they are I/O over
  libraries. The backends of libalpm, APT, dnf and Homebrew call external programs or libraries. Of the
  modelled files: downloads and their concurrency, decompression, maintainer scripts, file locks and
  \<^verbatim>\<open>.list\<close> manifests of the transaction engine; file modes, which are read and applied but not stored;
  git, makepkg and recipe review of the AUR client; fuzzy suggestions of the index; migration of the
  system's audit directory; the fingerprint of the pacman configuration.
\<close>

section \<open>An update from metadata to summary\<close>

lemma distinct_concat_partition:
  "distinct (map f js) \<Longrightarrow> (\<And>j. j \<in> set js \<Longrightarrow> distinct (g j) \<and> (\<forall>x \<in> set (g j). h x = Some (f j))) \<Longrightarrow>
     distinct (concat (map g js))"
proof (induction js)
  case (Cons j js)
  have "x \<notin> set (g k)" if "x \<in> set (g j)" "k \<in> set js" for x k
  proof
    assume "x \<in> set (g k)"
    then have "f j = f k" using Cons.prems(2) [of j] Cons.prems(2) [of k] that by auto
    then show False using Cons.prems(1) that(2) by auto
  qed
  then show ?case using Cons by auto
qed simp

lemma job_of_package:
  assumes "build_jobs_from_package_info packages infos = Inr jobs" "p \<in> set packages"
  obtains j where "j \<in> set jobs" "p \<in> set (bj_outputs j)" "base_of infos p = Some (bj_package j)"
proof -
  have "base_of infos p \<in> set (map Some (map bj_package jobs))" using build_jobs_Inr(4) [OF assms(1)] assms(2) by blast
  then obtain j where j: "j \<in> set jobs" "base_of infos p = Some (bj_package j)" by auto
  then have "p \<in> set (bj_outputs j)" using assms(2) build_jobs_Inr(5) [OF assms(1)] by blast
  then show thesis by (rule that [OF j(1) _ j(2)])
qed

lemma outputs_of_jobs:
  assumes "build_jobs_from_package_info packages infos = Inr jobs"
  shows "outputs_of jobs = mset_set (set packages)"
proof -
  have "distinct (concat (map bj_outputs jobs))"
    by (rule distinct_concat_partition [where f = bj_package and h = "base_of infos"])
      (use build_jobs_Inr [OF assms] in auto)
  moreover have "set (concat (map bj_outputs jobs)) = set packages"
  proof
    show "set (concat (map bj_outputs jobs)) \<subseteq> set packages" using build_jobs_Inr(5) [OF assms] by auto
    show "set packages \<subseteq> set (concat (map bj_outputs jobs))"
    proof
      fix p
      assume "p \<in> set packages"
      from job_of_package [OF assms this] show "p \<in> set (concat (map bj_outputs jobs))" by auto
    qed
  qed
  ultimately show ?thesis by (metis mset_set_set)
qed

lemma outputs_of_split:
  assumes "mset tried + mset skipped = mset jobs"
  shows "outputs_of (filter P tried) + outputs_of (filter (\<lambda>j. \<not> P j) tried) + outputs_of skipped = outputs_of jobs"
proof -
  have out: "outputs_of js = \<Sum>\<^sub># (image_mset (\<lambda>j. mset (bj_outputs j)) (mset js))" for js
    by (induction js) simp_all
  have "outputs_of (filter P tried) + outputs_of (filter (\<lambda>j. \<not> P j) tried) = outputs_of tried"
    by (induction tried) (simp_all add: ac_simps)
  then show ?thesis using out [of jobs] out [of tried] out [of skipped] by (simp add: assms [symmetric])
qed

text \<open>
  C8: An update accounts for every requested package. From the metadata of the AUR to the summary,
  whatever order concurrent builds finish in, each requested package is reported exactly once as
  succeeded, failed or skipped; and a package was attempted only when every requested package of
  another base that it names as a dependency was built.
\<close>

theorem update_accounts_for_every_package:
  assumes jobs: "build_jobs_from_package_info packages infos = Inr jobs"
    and run: "build_packages env m schedules jobs = Inr s"
  shows "mset (bs_succeeded s) + mset (bs_failed s) + mset (bs_skipped s) = mset_set (set packages) \<and>
    (\<forall>p \<in> set (bs_succeeded s) \<union> set (bs_failed s). \<forall>d \<in> set (info_dependencies (the (latest_info infos p))).
      dependency_name d \<in> set packages \<longrightarrow> base_of infos (dependency_name d) \<noteq> base_of infos p \<longrightarrow>
      dependency_name d \<in> set (bs_succeeded s))"
proof -
  have "\<forall>j \<in> set jobs. bj_outputs j \<noteq> []" using build_jobs_nonempty [OF jobs] by blast
  from build_packages_accounts [OF run this]
  obtain tried skipped where split: "mset tried + mset skipped = mset jobs"
    and ok: "mset (bs_succeeded s) = outputs_of (filter (job_builds env) tried)"
    and bad: "mset (bs_failed s) = outputs_of (filter (\<lambda>j. \<not> job_builds env j) tried)"
    and skip: "mset (bs_skipped s) = outputs_of skipped"
    and order: "\<forall>j \<in> set tried. \<forall>d \<in> set jobs. bj_package d \<in> set (bj_dependencies j) \<longrightarrow> d \<in> set tried \<and> job_builds env d"
    by (elim exE conjE) (rule that)
  have "mset (bs_succeeded s) + mset (bs_failed s) + mset (bs_skipped s) = outputs_of jobs"
    unfolding ok bad skip by (rule outputs_of_split [OF split])
  moreover have "dependency_name d \<in> set (bs_succeeded s)"
    if p: "p \<in> set (bs_succeeded s) \<union> set (bs_failed s)" and d: "d \<in> set (info_dependencies (the (latest_info infos p)))"
      and q: "dependency_name d \<in> set packages" "base_of infos (dependency_name d) \<noteq> base_of infos p" for p d
  proof -
    have "set (bs_succeeded s) \<union> set (bs_failed s) = set (concat (map bj_outputs tried))"
      using mset_eq_setD [OF ok] mset_eq_setD [OF bad] by auto
    then obtain j where j: "j \<in> set tried" "p \<in> set (bj_outputs j)" using p by auto
    have "j \<in> set jobs" using j(1) mset_eq_setD [of "tried @ skipped" jobs] split by auto
    obtain k where k: "k \<in> set jobs" "dependency_name d \<in> set (bj_outputs k)" "base_of infos (dependency_name d) = Some (bj_package k)"
      using job_of_package [OF jobs q(1)] .
    have "base_of infos p = Some (bj_package j)" using build_jobs_Inr(5) [OF jobs \<open>j \<in> set jobs\<close>] j(2) by blast
    then have "bj_package k \<in> set (bj_dependencies j)"
      using build_jobs_Inr(6) [OF jobs \<open>j \<in> set jobs\<close>] j(2) d q k(3) by auto
    then have "k \<in> set (filter (job_builds env) tried)" using order j(1) k(1) by auto
    then show ?thesis using k(2) mset_eq_setD [OF ok] by auto
  qed
  ultimately show ?thesis using outputs_of_jobs [OF jobs] by simp
qed

theorem update_accounts_for_every_package_witness:
  "\<exists>s. build_packages example_env 0 (\<lambda>i. []) [for_package_base ''app'' [''app''] [''foo''],
       for_package_base ''foo'' [''foo-tools'', ''libfoo''] []] = Inr s \<and>
     mset (bs_succeeded s) + mset (bs_failed s) + mset (bs_skipped s) = mset_set (set [''app'', ''libfoo'', ''foo-tools''])"
proof -
  have run: "build_packages example_env 0 (\<lambda>i. []) [for_package_base ''app'' [''app''] [''foo''],
       for_package_base ''foo'' [''foo-tools'', ''libfoo''] []] =
     Inr \<lparr>bs_succeeded = [''foo-tools'', ''libfoo'', ''app''], bs_failed = [], bs_skipped = [], bs_failures = []\<rparr>"
    by code_simp
  from update_accounts_for_every_package [OF example_jobs_built run] run show ?thesis by blast
qed

end
